(* ===== verification/Prelude.thy ===== *)
theory Prelude
  imports Main "HOL-Library.Word" "HOL-Library.List_Lexorder" "HOL-Library.AList"
begin

text \<open>
  Shared vocabulary of the development: the machine integer types of the Rust source, results
  with an \<open>anyhow\<close> context chain, saturating arithmetic, and generic facts on lists, sorted
  key-value lists and association lists that the component theories use.

  The build that ships is \<^verbatim>\<open>cargo build --release\<close> (src/Dockerfile), whose profile leaves
  overflow checks off, so \<open>+\<close>, \<open>-\<close> and \<open>*\<close> on fixed-width integers wrap around; they are the
  operations of HOL's words.
\<close>

section \<open>Collections of facts\<close>

named_theorems store_simps \<open>what each store operation does to each field of the store\<close>
named_theorems result_simps \<open>evaluation of results and of the question-mark operator\<close>
named_theorems num_simps \<open>words read as natural numbers\<close>

section \<open>Machine integers\<close>

type_synonym u8 = "8 word"
type_synonym u16 = "16 word"
type_synonym i32 = "32 word"
type_synonym u64 = "64 word"
type_synonym usize = "64 word"
type_synonym bytes = "u8 list"

text \<open>\<open>u64::saturating_add\<close> and \<open>u64::saturating_sub\<close>.\<close>

definition saturating_add :: "u64 \<Rightarrow> u64 \<Rightarrow> u64" where
  "saturating_add a b = (if unat a + unat b < 2 ^ 64 then a + b else - 1)"

definition saturating_sub :: "u64 \<Rightarrow> u64 \<Rightarrow> u64" where
  "saturating_sub a b = (if b \<le> a then a - b else 0)"

lemma unat_u64_bound: "unat (a :: u64) < 2 ^ 64"
  using unsigned_less [of a] by simp

lemma unat_u64_minus_one: "unat (- 1 :: u64) = 2 ^ 64 - 1"
  by (simp add: unsigned_minus_1_eq_mask mask_eq_exp_minus_1)

lemma unat_saturating_add [num_simps]:
  "unat (saturating_add a b) = min (unat a + unat b) (2 ^ 64 - 1)"
  by (auto simp: saturating_add_def unat_word_ariths unat_u64_minus_one min_def)

lemma unat_saturating_sub [num_simps]: "unat (saturating_sub a b) = unat a - unat b"
  by (auto simp: saturating_sub_def unat_sub word_le_nat_alt)

lemma unat_max_word [num_simps]: "unat (max (a :: u64) b) = max (unat a) (unat b)"
  by (auto simp: max_def word_le_nat_alt)

lemma unat_double_u64:
  "unat (a :: u64) * 2 < 2 ^ 64 \<Longrightarrow> unat (a * 2) = unat a * 2"
  by (simp add: unat_word_ariths)

lemma unat_Suc_u64: "unat (a :: u64) + n < 2 ^ 64 \<Longrightarrow> unat (a + of_nat n) = unat a + n"
  by (simp add: unat_word_ariths unat_of_nat)

lemma u64_less_Suc:
  assumes "(a :: u64) \<noteq> - 1"
  shows "a < a + 1"
proof -
  have "unat a \<noteq> unat (- 1 :: u64)" using assms unsigned_word_eqI [of a "- 1", where ?'a = nat] by blast
  then have "unat a + 1 < 2 ^ 64" using unat_u64_bound [of a] unat_u64_minus_one by linarith
  then show ?thesis using unat_Suc_u64 [of a 1] by (simp add: word_less_nat_alt)
qed

text \<open>
  A base value with a jitter that is drawn from twice the maximum and then shifted down by the
  maximum stays within the maximum of the base, also where the addition saturates.
\<close>

lemma jittered_bounds:
  fixes base jitter draw :: u64
  assumes "unat draw \<le> 2 * unat jitter"
  shows "unat base - unat jitter \<le> unat (saturating_sub (saturating_add base draw) jitter)"
    and "unat (saturating_sub (saturating_add base draw) jitter) \<le> unat base + unat jitter"
  using assms unat_u64_bound [of base] by (auto simp: num_simps)

section \<open>Results\<close>

text \<open>
  An error is an \<open>anyhow\<close> chain: the messages from the outermost context to the root cause.
  A computation of type \<open>Result<T>\<close> is a sum with the error on the left.
\<close>

type_synonym error = "string list"
type_synonym 'a result = "error + 'a"

abbreviation Err :: "error \<Rightarrow> 'a result" where "Err \<equiv> Inl"
abbreviation Ok :: "'a \<Rightarrow> 'a result" where "Ok \<equiv> Inr"

text \<open>\<open>Context::context\<close>: put a message in front of the chain.\<close>

definition context_err :: "string \<Rightarrow> 'a result \<Rightarrow> 'a result" where
  "context_err c r = (case r of Inl e \<Rightarrow> Inl (c # e) | Inr x \<Rightarrow> Inr x)"

text \<open>The question-mark operator: leave with the error, or go on with the value.\<close>

definition and_then :: "'a result \<Rightarrow> ('a \<Rightarrow> 'b result) \<Rightarrow> 'b result" where
  "and_then r f = (case r of Inl e \<Rightarrow> Inl e | Inr x \<Rightarrow> f x)"

lemma context_err_simps [simp, result_simps]:
  "context_err c (Inl e) = Inl (c # e)"
  "context_err c (Inr x) = Inr x"
  by (simp_all add: context_err_def)

lemma and_then_simps [simp, result_simps]:
  "and_then (Inl e) f = Inl e"
  "and_then (Inr x) f = f x"
  by (simp_all add: and_then_def)

lemma context_err_Ok_iff [simp]: "context_err c r = Inr x \<longleftrightarrow> r = Inr x"
  by (auto simp: context_err_def split: sum.splits)

lemma and_then_Ok_iff: "and_then r f = Inr y \<longleftrightarrow> (\<exists>x. r = Inr x \<and> f x = Inr y)"
  by (auto simp: and_then_def split: sum.splits)

definition is_ok :: "'a result \<Rightarrow> bool" where
  "is_ok r = (case r of Inl _ \<Rightarrow> False | Inr _ \<Rightarrow> True)"

lemma is_ok_simps [simp, result_simps]: "is_ok (Inr x)" "\<not> is_ok (Inl e)"
  by (simp_all add: is_ok_def)

lemma is_ok_iff: "is_ok r \<longleftrightarrow> (\<exists>x. r = Inr x)"
  by (cases r) auto

section \<open>Lists\<close>

lemma filter_map_None [simp]: "List.map_filter (\<lambda>_. None) xs = []"
  by (induction xs) (auto simp: List.map_filter_def)

lemma map_filter_append [simp]:
  "List.map_filter f (xs @ ys) = List.map_filter f xs @ List.map_filter f ys"
  by (simp add: List.map_filter_def)

lemma concat_snoc_eq: "concat (xss @ [xs]) = concat xss @ xs"
  by simp

section \<open>Sorted key-value lists\<close>

text \<open>Insertion of a binding into a list sorted by key, replacing the key's old binding.\<close>

fun put_kv :: "'k::linorder \<Rightarrow> 'v \<Rightarrow> ('k \<times> 'v) list \<Rightarrow> ('k \<times> 'v) list" where
  "put_kv k v [] = [(k, v)]"
| "put_kv k v ((k', v') # xs) =
     (if k < k' then (k, v) # (k', v') # xs
      else if k = k' then (k, v) # xs
      else (k', v') # put_kv k v xs)"

lemma put_kv_last:
  "(\<And>k' v'. (k', v') \<in> set xs \<Longrightarrow> k' < k) \<Longrightarrow> put_kv k v xs = xs @ [(k, v)]"
proof (induction xs)
  case Nil
  then show ?case by simp
next
  case (Cons x xs)
  obtain k' v' where x: "x = (k', v')" by force
  have "k' < k" using Cons.prems [of k' v'] by (simp add: x)
  moreover have "put_kv k v xs = xs @ [(k, v)]" using Cons.prems by (intro Cons.IH) auto
  ultimately show ?case by (auto simp: x)
qed

lemma keys_put_kv: "fst ` set (put_kv k v xs) = insert k (fst ` set xs)"
  by (induction k v xs rule: put_kv.induct) auto

section \<open>Association lists as hash maps\<close>

text \<open>
  A \<open>HashMap\<close> whose iteration order never shows in a result is an association list with distinct
  keys; \<open>insert\<close> is \<^const>\<open>AList.update\<close> and \<open>remove\<close> is \<^const>\<open>AList.delete\<close>.
\<close>

definition keys_of :: "('k \<times> 'v) list \<Rightarrow> 'k set" where
  "keys_of m = set (map fst m)"

lemma keys_of_simps [simp]:
  "keys_of [] = {}"
  "keys_of ((k, v) # m) = insert k (keys_of m)"
  by (simp_all add: keys_of_def)

lemma keys_of_update [simp]: "keys_of (AList.update k v m) = insert k (keys_of m)"
  by (induction m) (auto simp: keys_of_def)

lemma keys_of_delete [simp]: "keys_of (AList.delete k m) = keys_of m - {k}"
  by (induction m) (auto simp: keys_of_def)

lemma map_of_None_keys [simp]: "map_of m k = None \<longleftrightarrow> k \<notin> keys_of m"
  by (induction m) auto

definition total_of :: "('k \<times> u64) list \<Rightarrow> u64" where
  "total_of m = sum_list (map snd m)"

lemma total_of_simps [simp]: "total_of [] = 0" "total_of ((k, v) # m) = v + total_of m"
  by (simp_all add: total_of_def)

lemma total_of_update_new:
  "k \<notin> keys_of m \<Longrightarrow> total_of (AList.update k v m) = v + total_of m"
  by (induction m) (auto simp: ac_simps)

lemma delete_notin: "k \<notin> keys_of m \<Longrightarrow> AList.delete k m = m"
  by (induction m) (auto simp: AList.delete_eq)

lemma total_of_delete:
  "distinct (map fst m) \<Longrightarrow> map_of m k = Some v \<Longrightarrow> total_of (AList.delete k m) = total_of m - v"
proof (induction m)
  case Nil
  then show ?case by simp
next
  case (Cons x m)
  obtain k' v' where x: "x = (k', v')" by force
  show ?case
  proof (cases "k' = k")
    case True
    with Cons.prems have "v' = v" and "AList.delete k m = m"
      by (auto simp: x keys_of_def intro!: delete_notin)
    with True show ?thesis by (simp add: x)
  next
    case False
    with Cons show ?thesis by (simp add: x algebra_simps)
  qed
qed

section \<open>Reachable states\<close>

inductive reach :: "('s \<Rightarrow> bool) \<Rightarrow> ('s \<Rightarrow> 's \<Rightarrow> bool) \<Rightarrow> 's \<Rightarrow> bool"
  for init :: "'s \<Rightarrow> bool" and step :: "'s \<Rightarrow> 's \<Rightarrow> bool" where
  reach_init: "init s \<Longrightarrow> reach init step s"
| reach_step: "reach init step s \<Longrightarrow> step s s' \<Longrightarrow> reach init step s'"

lemma reach_mono:
  "reach init step s \<Longrightarrow> (\<And>s. init s \<Longrightarrow> init' s) \<Longrightarrow> (\<And>s s'. step s s' \<Longrightarrow> step' s s') \<Longrightarrow>
   reach init' step' s"
  by (induction rule: reach.induct) (auto intro: reach.intros)

text \<open>A property that holds initially and is kept by every step holds in every reachable state.\<close>

locale invariant_system =
  fixes init :: "'s \<Rightarrow> bool" and step :: "'s \<Rightarrow> 's \<Rightarrow> bool" and inv :: "'s \<Rightarrow> bool"
  assumes init_inv: "init s \<Longrightarrow> inv s"
    and step_inv: "inv s \<Longrightarrow> step s s' \<Longrightarrow> inv s'"
begin

lemma reach_inv: "reach init step s \<Longrightarrow> inv s"
  by (induction rule: reach.induct) (auto intro: init_inv step_inv)

end

text \<open>
  A second property whose preservation relies on the first, along runs whose steps all start in
  states that satisfy a side condition.
\<close>

locale guarded_system = invariant_system +
  fixes guard :: "'s \<Rightarrow> bool" and extra :: "'s \<Rightarrow> bool"
  assumes init_extra: "init s \<Longrightarrow> extra s"
    and step_extra: "inv s \<Longrightarrow> guard s \<Longrightarrow> extra s \<Longrightarrow> step s s' \<Longrightarrow> extra s'"
begin

lemma guarded_reach: "reach init (\<lambda>s s'. guard s \<and> step s s') s \<Longrightarrow> reach init step s"
  by (erule reach_mono) auto

lemma reach_extra: "reach init (\<lambda>s s'. guard s \<and> step s s') s \<Longrightarrow> inv s \<and> extra s"
  by (induction rule: reach.induct) (auto intro: init_inv step_inv init_extra step_extra)

end

end
