(* ===== verification/Rust_Std.thy ===== *)
theory Rust_Std
  imports Prelude
begin

text \<open>
  The parts of the Rust standard library the engine calls, as executable functions: string
  slices (a \<open>str\<close> is its UTF-8 bytes, one \<^typ>\<open>char\<close> per byte), decimal printing and
  parsing of integers, big-endian byte conversion, and \<open>String::from_utf8_lossy\<close>.
  The lemmas are the round trips and order facts the components rest on.
\<close>

section \<open>String slices\<close>

definition starts_with :: "string \<Rightarrow> string \<Rightarrow> bool" where
  "starts_with p s \<longleftrightarrow> take (length p) s = p"

definition ends_with :: "string \<Rightarrow> string \<Rightarrow> bool" where
  "ends_with p s \<longleftrightarrow> length p \<le> length s \<and> drop (length s - length p) s = p"

definition strip_prefix :: "string \<Rightarrow> string \<Rightarrow> string option" where
  "strip_prefix p s = (if starts_with p s then Some (drop (length p) s) else None)"

lemma starts_with_append [simp]: "starts_with p (p @ s)"
  by (simp add: starts_with_def)

lemma starts_with_iff: "starts_with p s \<longleftrightarrow> (\<exists>r. s = p @ r)"
  unfolding starts_with_def by (metis append_eq_conv_conj append_take_drop_id)

lemma ends_with_append [simp]: "ends_with p (s @ p)"
  by (simp add: ends_with_def)

lemma ends_with_iff: "ends_with p s \<longleftrightarrow> (\<exists>r. s = r @ p)"
  unfolding ends_with_def
  by (metis append_take_drop_id diff_diff_cancel length_drop append_eq_conv_conj
      add_diff_cancel_right' length_append le_add2)

lemma strip_prefix_append [simp]: "strip_prefix p (p @ s) = Some s"
  by (simp add: strip_prefix_def)

lemma strip_prefix_Some_iff: "strip_prefix p s = Some r \<longleftrightarrow> s = p @ r"
  by (auto simp: strip_prefix_def starts_with_iff)

text \<open>A value between single quotes, as many messages print it.\<close>

definition quoted :: "string \<Rightarrow> string" where
  "quoted s = CHR 0x27 # s @ [CHR 0x27]"

text \<open>\<open>[String]::join\<close>.\<close>

fun join :: "string \<Rightarrow> string list \<Rightarrow> string" where
  "join sep [] = []"
| "join sep [s] = s"
| "join sep (s # t # ss) = s @ sep @ join sep (t # ss)"

text \<open>
  ASCII case mapping, byte by byte: \<open>to_ascii_uppercase\<close>, and \<open>to_lowercase\<close> as far as it is
  used here. The source only compares lower-cased values with the words \<open>glue\<close> and \<open>false\<close>; no
  character outside ASCII lower-cases to one of their letters, so the comparison sees the
  same answer as with the full Unicode tables.
\<close>

definition ascii_upper :: "char \<Rightarrow> char" where
  "ascii_upper c = (let n = of_char c :: nat in if 97 \<le> n \<and> n \<le> 122 then char_of (n - 32) else c)"

definition ascii_lower :: "char \<Rightarrow> char" where
  "ascii_lower c = (let n = of_char c :: nat in if 65 \<le> n \<and> n \<le> 90 then char_of (n + 32) else c)"

definition to_ascii_uppercase :: "string \<Rightarrow> string" where
  "to_ascii_uppercase = map ascii_upper"

definition to_lowercase :: "string \<Rightarrow> string" where
  "to_lowercase = map ascii_lower"

text \<open>
  \<open>str::trim\<close>: strip the UTF-8 sequences of the characters with the Unicode property
  \<open>White_Space\<close> from the front and, reversed, from the back.
\<close>

definition white_space :: "string list" where
  "white_space = map (map char_of)
     [[9], [10], [11], [12], [13], [32], [0xC2, 0x85], [0xC2, 0xA0], [0xE1, 0x9A, 0x80 :: nat],
      [0xE2, 0x80, 0x80], [0xE2, 0x80, 0x81], [0xE2, 0x80, 0x82], [0xE2, 0x80, 0x83],
      [0xE2, 0x80, 0x84], [0xE2, 0x80, 0x85], [0xE2, 0x80, 0x86], [0xE2, 0x80, 0x87],
      [0xE2, 0x80, 0x88], [0xE2, 0x80, 0x89], [0xE2, 0x80, 0x8A], [0xE2, 0x80, 0xA8],
      [0xE2, 0x80, 0xA9], [0xE2, 0x80, 0xAF], [0xE2, 0x81, 0x9F], [0xE3, 0x80, 0x80]]"

function strip_front :: "string list \<Rightarrow> string \<Rightarrow> string" where
  "strip_front ps s =
     (case find (\<lambda>p. p \<noteq> [] \<and> starts_with p s) ps of
        None \<Rightarrow> s
      | Some p \<Rightarrow> strip_front ps (drop (length p) s))"
  by pat_completeness auto
termination
  by (relation "measure (\<lambda>(ps, s). length s)") (auto simp: find_Some_iff starts_with_iff)

declare strip_front.simps [simp del]

definition trim :: "string \<Rightarrow> string" where
  "trim s = rev (strip_front (map rev white_space) (rev (strip_front white_space s)))"

lemma strip_front_id:
  assumes "\<forall>p \<in> set ps. starts_with p s \<longrightarrow> p = []"
  shows "strip_front ps s = s"
proof -
  have "find (\<lambda>p. p \<noteq> [] \<and> starts_with p s) ps = None" using assms by (auto simp: find_None_iff)
  then show ?thesis by (subst strip_front.simps) simp
qed

text \<open>A string that begins and ends with a visible ASCII character is not trimmed.\<close>

lemma white_space_bytes:
  "\<forall>p \<in> set white_space. p \<noteq> [] \<and> (of_char (hd p) :: nat) \<notin> {33 .. 126} \<and> (of_char (last p) :: nat) \<notin> {33 .. 126}"
  by (simp add: white_space_def)

lemma trim_visible:
  assumes "s \<noteq> []" and "(of_char (hd s) :: nat) \<in> {33 .. 126}" and "(of_char (last s) :: nat) \<in> {33 .. 126}"
  shows "trim s = s"
proof -
  have "strip_front white_space s = s"
    using white_space_bytes assms(1,2) by (intro strip_front_id) (auto simp: starts_with_iff)
  moreover have "strip_front (map rev white_space) (rev s) = rev s"
  proof (rule strip_front_id, rule ballI, rule impI)
    fix p assume "p \<in> set (map rev white_space)" and "starts_with p (rev s)"
    then obtain q r where q: "q \<in> set white_space" "rev s = rev q @ r" by (auto simp: starts_with_iff)
    then have "s = rev r @ q" by (metis rev_append rev_rev_ident)
    with q(1) white_space_bytes assms(3) show "p = []" by (metis last_appendR)
  qed
  ultimately show ?thesis by (simp add: trim_def)
qed

section \<open>Decimal integers\<close>

definition digit :: "nat \<Rightarrow> char" where
  "digit d = char_of (48 + d)"

definition digit_val :: "char \<Rightarrow> nat option" where
  "digit_val c = (let n = of_char c :: nat in if 48 \<le> n \<and> n \<le> 57 then Some (n - 48) else None)"

lemma digit_simps [simp]:
  "digit 0 = CHR ''0''" "digit 1 = CHR ''1''" "digit 2 = CHR ''2''" "digit 3 = CHR ''3''"
  "digit 4 = CHR ''4''" "digit 5 = CHR ''5''" "digit 6 = CHR ''6''" "digit 7 = CHR ''7''"
  "digit 8 = CHR ''8''" "digit 9 = CHR ''9''"
  by code_simp+

lemma digit_val_digit: "d < 10 \<Longrightarrow> digit_val (digit d) = Some d"
  by (simp add: digit_def digit_val_def of_char_of)

lemma digit_val_bound: "digit_val c = Some d \<Longrightarrow> d < 10"
  by (auto simp: digit_val_def Let_def split: if_splits)

text \<open>\<open>Display\<close> of an unsigned integer, and of an \<open>i32\<close>.\<close>

fun show_nat :: "nat \<Rightarrow> string" where
  "show_nat n = (if n < 10 then [digit n] else show_nat (n div 10) @ [digit (n mod 10)])"

declare show_nat.simps [simp del]

definition show_i32 :: "i32 \<Rightarrow> string" where
  "show_i32 w = (if sint w < 0 then CHR ''-'' # show_nat (nat (- sint w)) else show_nat (nat (sint w)))"

text \<open>
  \<open>str::parse\<close> for an unsigned type with \<open>bound\<close> values: an optional plus sign, at least one
  digit, and an error as soon as the accumulated value leaves the type.
\<close>

datatype parse_int_error = Empty | InvalidDigit | PosOverflow

primrec show_parse_int_error :: "parse_int_error \<Rightarrow> string" where
  "show_parse_int_error Empty = ''cannot parse integer from empty string''"
| "show_parse_int_error InvalidDigit = ''invalid digit found in string''"
| "show_parse_int_error PosOverflow = ''number too large to fit in target type''"

fun parse_digits :: "nat \<Rightarrow> nat \<Rightarrow> string \<Rightarrow> parse_int_error + nat" where
  "parse_digits bound acc [] = Inr acc"
| "parse_digits bound acc (c # cs) =
     (case digit_val c of
        None \<Rightarrow> Inl InvalidDigit
      | Some d \<Rightarrow>
          if acc * 10 + d < bound then parse_digits bound (acc * 10 + d) cs else Inl PosOverflow)"

definition parse_uint :: "nat \<Rightarrow> string \<Rightarrow> parse_int_error + nat" where
  "parse_uint bound s =
     (case s of
        [] \<Rightarrow> Inl Empty
      | c # cs \<Rightarrow>
          if c = CHR ''+'' then (if cs = [] then Inl InvalidDigit else parse_digits bound 0 cs)
          else parse_digits bound 0 s)"

text \<open>\<open>parse().ok()\<close> for \<open>u64\<close>, and \<open>parse()\<close> with the error as the root of a chain.\<close>

definition parse_u64 :: "string \<Rightarrow> u64 option" where
  "parse_u64 s = (case parse_uint (2 ^ 64) s of Inl _ \<Rightarrow> None | Inr n \<Rightarrow> Some (of_nat n))"

definition parse_word :: "string \<Rightarrow> 'a::len word result" where
  "parse_word s =
     (case parse_uint (2 ^ LENGTH('a)) s of
        Inl e \<Rightarrow> Err [show_parse_int_error e]
      | Inr n \<Rightarrow> Ok (of_nat n))"

lemma show_nat_nonempty [simp]: "show_nat n \<noteq> []"
  by (subst show_nat.simps) simp

lemma parse_digits_append:
  "parse_digits b acc (xs @ ys) =
     (case parse_digits b acc xs of Inl e \<Rightarrow> Inl e | Inr a \<Rightarrow> parse_digits b a ys)"
  by (induction b acc xs rule: parse_digits.induct) (auto split: option.splits)

lemma parse_digits_show_nat: "n < b \<Longrightarrow> parse_digits b 0 (show_nat n) = Inr n"
proof (induction n rule: show_nat.induct)
  case (1 n)
  show ?case
  proof (cases "n < 10")
    case True
    with "1.prems" show ?thesis by (subst show_nat.simps) (simp add: digit_val_digit)
  next
    case False
    with 1 have "parse_digits b 0 (show_nat (n div 10)) = Inr (n div 10)" by simp
    moreover have "n div 10 * 10 + n mod 10 = n" by simp
    ultimately show ?thesis using False "1.prems"
      by (subst show_nat.simps) (simp add: parse_digits_append digit_val_digit)
  qed
qed

lemma digit_not_plus: "d < 10 \<Longrightarrow> digit d \<noteq> CHR ''+''"
proof
  assume "d < 10" and "digit d = CHR ''+''"
  then have "digit_val (CHR ''+'') = Some d" using digit_val_digit by metis
  then show False by (simp add: digit_val_def)
qed

lemma hd_show_nat_not_plus: "hd (show_nat n) \<noteq> CHR ''+''"
proof (induction n rule: show_nat.induct)
  case (1 n)
  then show ?case
    by (cases "n < 10"; subst show_nat.simps) (auto simp: digit_not_plus)
qed

lemma parse_uint_show_nat: "n < b \<Longrightarrow> parse_uint b (show_nat n) = Inr n"
  using hd_show_nat_not_plus [of n] parse_digits_show_nat [of n b]
  by (cases "show_nat n") (auto simp: parse_uint_def)

lemma parse_u64_show_nat: "n < 2 ^ 64 \<Longrightarrow> parse_u64 (show_nat n) = Some (of_nat n)"
  by (simp add: parse_u64_def parse_uint_show_nat)

lemma parse_digits_bound: "parse_digits b acc s = Inr n \<Longrightarrow> acc < b \<Longrightarrow> n < b"
  by (induction b acc s rule: parse_digits.induct) (auto split: option.splits if_splits)

lemma show_nat_inj: "show_nat m = show_nat n \<longleftrightarrow> m = n"
proof
  assume eq: "show_nat m = show_nat n"
  define b where "b = Suc (max m n)"
  have "m < b" and "n < b" by (simp_all add: b_def less_Suc_eq_le)
  then have "parse_digits b 0 (show_nat m) = Inr m" and "parse_digits b 0 (show_nat n) = Inr n"
    by (simp_all only: parse_digits_show_nat)
  then show "m = n" unfolding eq by (metis sum.inject(2))
qed (rule arg_cong)

lemma digits_show_nat: "c \<in> set (show_nat n) \<Longrightarrow> digit_val c \<noteq> None"
proof (induction n rule: show_nat.induct)
  case (1 n)
  then show ?case
    by (cases "n < 10"; subst (asm) (2) show_nat.simps) (auto simp: digit_val_digit)
qed

lemma hd_show_nat_zero: "hd (show_nat n) = CHR ''0'' \<Longrightarrow> n = 0"
proof (induction n rule: show_nat.induct)
  case (1 n)
  show ?case
  proof (cases "n < 10")
    case True
    with "1.prems" have "digit n = digit 0" by (simp add: show_nat.simps [of n])
    with True show ?thesis using digit_val_digit [of n] digit_val_digit [of 0] by (metis option.inject zero_less_numeral)
  next
    case False
    with 1 have "n div 10 = 0" by (simp add: show_nat.simps [of n])
    with False show ?thesis by simp
  qed
qed

lemma length_show_nat: "n < 10 ^ Suc k \<Longrightarrow> length (show_nat n) \<le> Suc k"
proof (induction k arbitrary: n)
  case 0
  then show ?case by (simp add: show_nat.simps [of n])
next
  case (Suc k)
  then have "n div 10 < 10 ^ Suc k" by (simp add: less_mult_imp_div_less mult.commute)
  then show ?case using Suc.IH [of "n div 10"] by (simp add: show_nat.simps [of n])
qed

lemma digit_not_minus: "d < 10 \<Longrightarrow> digit d \<noteq> CHR ''-''"
proof
  assume "d < 10" and "digit d = CHR ''-''"
  then have "digit_val (CHR ''-'') = Some d" using digit_val_digit by metis
  then show False by (simp add: digit_val_def)
qed

lemma hd_show_nat_not_minus: "hd (show_nat n) \<noteq> CHR ''-''"
proof (induction n rule: show_nat.induct)
  case (1 n)
  then show ?case
    by (cases "n < 10"; subst show_nat.simps) (auto simp: digit_not_minus)
qed

lemma show_i32_inj: "show_i32 a = show_i32 b \<longleftrightarrow> a = b"
proof
  assume eq: "show_i32 a = show_i32 b"
  have cons: "CHR ''-'' # show_nat m \<noteq> show_nat n" for m n
    using hd_show_nat_not_minus [of n] by (metis list.sel(1))
  have "sint a = sint b"
    using eq cons cons [symmetric] by (auto simp: show_i32_def show_nat_inj split: if_splits)
  then show "a = b" by (rule signed_word_eqI)
qed (rule arg_cong)

section \<open>Big-endian bytes\<close>

fun be_bytes :: "nat \<Rightarrow> nat \<Rightarrow> bytes" where
  "be_bytes 0 n = []"
| "be_bytes (Suc k) n = be_bytes k (n div 256) @ [of_nat (n mod 256)]"

definition be_value :: "bytes \<Rightarrow> nat" where
  "be_value bs = foldl (\<lambda>a b. a * 256 + unat b) 0 bs"

text \<open>\<open>u64::to_be_bytes\<close>, \<open>u64::from_be_bytes\<close> and \<open>u16::from_be_bytes\<close>.\<close>

definition to_be_bytes :: "u64 \<Rightarrow> bytes" where
  "to_be_bytes w = be_bytes 8 (unat w)"

definition u64_from_be_bytes :: "bytes \<Rightarrow> u64" where
  "u64_from_be_bytes bs = of_nat (be_value bs)"

definition u16_from_be_bytes :: "u8 \<Rightarrow> u8 \<Rightarrow> u16" where
  "u16_from_be_bytes a b = of_nat (be_value [a, b])"

lemma length_be_bytes [simp]: "length (be_bytes k n) = k"
  by (induction k n rule: be_bytes.induct) auto

lemma length_to_be_bytes [simp]: "length (to_be_bytes w) = 8"
  by (simp add: to_be_bytes_def)

lemma be_value_snoc [simp]: "be_value (bs @ [b]) = be_value bs * 256 + unat b"
  by (simp add: be_value_def)

lemma be_value_Nil [simp]: "be_value [] = 0"
  by (simp add: be_value_def)

lemma be_value_be_bytes: "n < 256 ^ k \<Longrightarrow> be_value (be_bytes k n) = n"
proof (induction k n rule: be_bytes.induct)
  case (2 k n)
  then have "n div 256 < 256 ^ k" by (simp add: less_mult_imp_div_less mult.commute)
  with "2.IH" show ?case by (simp add: unat_of_nat)
qed simp

lemma u64_from_to_be_bytes: "u64_from_be_bytes (to_be_bytes w) = w"
proof -
  have "be_value (be_bytes 8 (unat w)) = unat w"
    by (rule be_value_be_bytes) (use unat_u64_bound [of w] in simp)
  then show ?thesis by (simp add: u64_from_be_bytes_def to_be_bytes_def)
qed

lemma be_bytes_be_value: "be_bytes (length bs) (be_value bs) = bs"
proof (induction bs rule: rev_induct)
  case (snoc b bs)
  have "(be_value bs * 256 + unat b) div 256 = be_value bs"
    and "(be_value bs * 256 + unat b) mod 256 = unat b"
    using unsigned_less [of b, where ?'a = nat] by simp_all
  with snoc show ?case by simp
qed simp

lemma be_value_bound: "be_value bs < 256 ^ length bs"
proof (induction bs rule: rev_induct)
  case (snoc b bs)
  then show ?case using unsigned_less [of b, where ?'a = nat] by simp
qed simp

lemma to_from_be_bytes: "length bs = 8 \<Longrightarrow> to_be_bytes (u64_from_be_bytes bs) = bs"
  using be_value_bound [of bs] be_bytes_be_value [of bs]
  by (simp add: to_be_bytes_def u64_from_be_bytes_def unat_of_nat)

text \<open>Keys written big-endian sort bytewise in the order of their numbers.\<close>

lemma append_less_append:
  fixes xs ys :: "'a::linorder list"
  assumes "length xs = length ys"
  shows "xs @ us < ys @ vs \<longleftrightarrow> xs < ys \<or> xs = ys \<and> us < vs"
  using assms by (induction xs ys rule: list_induct2) auto

lemma be_bytes_less: "m < n \<Longrightarrow> n < 256 ^ k \<Longrightarrow> be_bytes k m < be_bytes k n"
proof (induction k arbitrary: m n)
  case (Suc k)
  have n: "n div 256 < 256 ^ k"
    using Suc.prems(2) by (simp add: less_mult_imp_div_less mult.commute)
  show ?case
  proof (cases "m div 256 < n div 256")
    case True
    then have "be_bytes k (m div 256) < be_bytes k (n div 256)" using n by (rule Suc.IH)
    then show ?thesis by (simp add: append_less_append)
  next
    case False
    with Suc.prems(1) have "m div 256 = n div 256"
      by (meson div_le_mono le_antisym less_imp_le not_less)
    moreover from this Suc.prems(1) have "m mod 256 < n mod 256"
      by (metis add_less_cancel_left div_mult_mod_eq)
    ultimately show ?thesis
      by (simp add: append_less_append word_less_nat_alt unat_of_nat)
  qed
qed simp

lemma to_be_bytes_less: "a < b \<Longrightarrow> to_be_bytes a < to_be_bytes b"
  using unat_u64_bound [of b] unfolding to_be_bytes_def
  by (intro be_bytes_less) (auto simp: word_less_nat_alt)

lemma to_be_bytes_less_iff [simp]: "to_be_bytes a < to_be_bytes b \<longleftrightarrow> a < b"
  by (metis linorder_neqE less_asym less_irrefl to_be_bytes_less)

lemma to_be_bytes_inj [simp]: "to_be_bytes a = to_be_bytes b \<longleftrightarrow> a = b"
  by (metis u64_from_to_be_bytes)

section \<open>Lossy UTF-8 decoding\<close>

text \<open>
  \<open>String::from_utf8_lossy\<close>. One step reads the character at the front of a non-empty byte
  string: whether it is well formed, and how many bytes it takes or, when it is not, how many
  bytes the maximal ill-formed prefix has. Reads past the end see the byte 0, as in the
  library's decoder.
\<close>

definition byte_at :: "bytes \<Rightarrow> nat \<Rightarrow> u8" where
  "byte_at bs i = (if i < length bs then bs ! i else 0)"

definition within :: "u8 \<Rightarrow> u8 \<Rightarrow> u8 \<Rightarrow> bool" where
  "within lo hi b \<longleftrightarrow> lo \<le> b \<and> b \<le> hi"

definition utf8_second3 :: "u8 \<Rightarrow> u8 \<Rightarrow> bool" where
  "utf8_second3 b c \<longleftrightarrow>
     (if b = 0xE0 then within 0xA0 0xBF c
      else if b = 0xED then within 0x80 0x9F c
      else within 0x80 0xBF c)"

definition utf8_second4 :: "u8 \<Rightarrow> u8 \<Rightarrow> bool" where
  "utf8_second4 b c \<longleftrightarrow>
     (if b = 0xF0 then within 0x90 0xBF c
      else if b = 0xF4 then within 0x80 0x8F c
      else within 0x80 0xBF c)"

definition utf8_next :: "bytes \<Rightarrow> bool \<times> nat" where
  "utf8_next bs =
     (let b = byte_at bs 0; cont = (\<lambda>i. within 0x80 0xBF (byte_at bs i)) in
      if b < 0x80 then (True, 1)
      else if within 0xC2 0xDF b then (if cont 1 then (True, 2) else (False, 1))
      else if within 0xE0 0xEF b then
        (if \<not> utf8_second3 b (byte_at bs 1) then (False, 1)
         else if \<not> cont 2 then (False, 2) else (True, 3))
      else if within 0xF0 0xF4 b then
        (if \<not> utf8_second4 b (byte_at bs 1) then (False, 1)
         else if \<not> cont 2 then (False, 2)
         else if \<not> cont 3 then (False, 3) else (True, 4))
      else (False, 1))"

lemma utf8_next_pos: "utf8_next bs = (ok, n) \<Longrightarrow> 0 < n"
  by (auto simp: utf8_next_def Let_def split: if_splits)

definition replacement :: bytes where
  "replacement = [0xEF, 0xBF, 0xBD]"

function utf8_lossy :: "bytes \<Rightarrow> bytes" where
  "utf8_lossy bs =
     (if bs = [] then []
      else case utf8_next bs of
        (ok, n) \<Rightarrow> (if ok then take n bs else replacement) @ utf8_lossy (drop n bs))"
  by pat_completeness auto
termination
  by (relation "measure length") (auto dest: utf8_next_pos [OF sym])

function utf8_valid :: "bytes \<Rightarrow> bool" where
  "utf8_valid bs =
     (if bs = [] then True
      else case utf8_next bs of (ok, n) \<Rightarrow> ok \<and> utf8_valid (drop n bs))"
  by pat_completeness auto
termination
  by (relation "measure length") (auto dest: utf8_next_pos [OF sym])

declare utf8_lossy.simps [simp del] utf8_valid.simps [simp del]

definition from_utf8_lossy :: "bytes \<Rightarrow> string" where
  "from_utf8_lossy bs = map (\<lambda>b. char_of (unat b)) (utf8_lossy bs)"

text \<open>The bytes of a \<open>str\<close>.\<close>

definition as_bytes :: "string \<Rightarrow> bytes" where
  "as_bytes s = map (\<lambda>c. of_nat (of_char c)) s"

definition has_replacement :: "bytes \<Rightarrow> bool" where
  "has_replacement bs \<longleftrightarrow> (\<exists>i\<le>length bs. take 3 (drop i bs) = replacement)"

lemma has_replacementI: "has_replacement (us @ replacement @ vs)"
  unfolding has_replacement_def by (rule exI [of _ "length us"]) (simp add: replacement_def)

lemma has_replacement_append: "has_replacement vs \<Longrightarrow> has_replacement (us @ vs)"
proof -
  assume "has_replacement vs"
  then obtain i where "i \<le> length vs" and "take 3 (drop i vs) = replacement"
    by (auto simp: has_replacement_def)
  then show ?thesis
    unfolding has_replacement_def by (intro exI [of _ "length us + i"]) simp
qed

lemma utf8_lossy_valid: "utf8_valid bs \<Longrightarrow> utf8_lossy bs = bs"
proof (induction bs rule: utf8_valid.induct)
  case (1 bs)
  then show ?case
    by (auto simp: utf8_valid.simps [of bs] utf8_lossy.simps [of bs] split: prod.splits if_splits)
qed

lemma utf8_lossy_invalid: "\<not> utf8_valid bs \<Longrightarrow> has_replacement (utf8_lossy bs)"
proof (induction bs rule: utf8_valid.induct)
  case (1 bs)
  obtain ok n where next_bs: "utf8_next bs = (ok, n)" by force
  have ne: "bs \<noteq> []" using "1.prems" by (auto simp: utf8_valid.simps [of bs])
  show ?case
  proof (cases ok)
    case True
    with "1.prems" ne next_bs have "\<not> utf8_valid (drop n bs)" by (simp add: utf8_valid.simps [of bs])
    with "1.IH" [OF ne next_bs [symmetric]] ne next_bs show ?thesis
      by (simp add: utf8_lossy.simps [of bs] has_replacement_append)
  next
    case False
    with ne next_bs show ?thesis
      using has_replacementI [of "[]"] by (simp add: utf8_lossy.simps [of bs])
  qed
qed

lemma utf8_valid_ascii: "\<forall>b \<in> set bs. b < 0x80 \<Longrightarrow> utf8_valid bs"
proof (induction bs)
  case (Cons b bs)
  then have "utf8_next (b # bs) = (True, 1)" by (simp add: utf8_next_def byte_at_def)
  with Cons show ?case by (subst utf8_valid.simps) simp
qed (simp add: utf8_valid.simps)

lemma no_replacement_ascii:
  assumes "\<forall>b \<in> set bs. b < 0x80"
  shows "\<not> has_replacement bs"
proof
  assume "has_replacement bs"
  then obtain i where "take 3 (drop i bs) = replacement" by (auto simp: has_replacement_def)
  then have "0xEF \<in> set (take 3 (drop i bs))" by (simp add: replacement_def)
  then have "0xEF \<in> set bs" by (meson in_set_dropD in_set_takeD)
  with assms show False by auto
qed

lemma as_bytes_from_bytes [simp]: "as_bytes (map (\<lambda>b. char_of (unat b)) bs) = bs"
proof -
  have "of_nat (of_char (char_of (unat b) :: char)) = b" for b :: u8
    using unsigned_less [of b, where ?'a = nat] by (simp add: of_char_of)
  then show ?thesis by (simp add: as_bytes_def o_def)
qed

lemma from_bytes_as_bytes [simp]: "map (\<lambda>b. char_of (unat b)) (as_bytes s) = s"
proof -
  have "char_of (unat (of_nat (of_char c) :: u8)) = c" for c :: char
    by (simp add: unat_of_nat of_char_mod_256)
  then show ?thesis by (simp add: as_bytes_def o_def)
qed

text \<open>
  A table name that holds no replacement character is matched by its own bytes only.
\<close>

lemma from_utf8_lossy_eq_iff:
  assumes "utf8_valid (as_bytes s)" and "\<not> has_replacement (as_bytes s)"
  shows "from_utf8_lossy bs = s \<longleftrightarrow> bs = as_bytes s"
proof
  assume "from_utf8_lossy bs = s"
  then have eq: "utf8_lossy bs = as_bytes s" by (auto simp: from_utf8_lossy_def)
  then have "utf8_valid bs" using assms(2) utf8_lossy_invalid [of bs] by auto
  then show "bs = as_bytes s" using eq utf8_lossy_valid by simp
next
  assume "bs = as_bytes s"
  then show "from_utf8_lossy bs = s"
    by (simp add: from_utf8_lossy_def utf8_lossy_valid [OF assms(1)])
qed

end
