(* ===== verification/Field_Type.thy ===== *)
theory Field_Type
  imports Rust_Std
begin

text \<open>
  src/src/field_type.rs: field definitions, the mapped types, the parser of type names and the
  two translations, to Arrow and to Iceberg. A translation threads the \<open>next_id\<close> counter the
  source passes by mutable reference. The datatypes for Arrow and Iceberg types have the
  constructors the source applies; nothing of those libraries' code is modelled.
\<close>

section \<open>Data\<close>

record field_def =
  name :: string
  field_type :: string
  required :: bool

datatype mapped_type =
    MString | MLong | MInt | MDouble | MFloat | MBoolean
  | MTimestampTz | MTimestamp | MDate | MBinary
  | MList mapped_type

datatype time_unit = Microsecond

datatype data_type =
    Utf8 | Int64 | Int32 | Float64 | Float32 | Boolean
  | Timestamp time_unit "string option"
  | Date32 | Binary
  | DList arrow_field
and arrow_field =
  Field (af_name: string) (af_type: data_type) (af_nullable: bool) (af_metadata: "(string \<times> string) list")

datatype primitive_type =
    PString | PLong | PInt | PDouble | PFloat | PBoolean
  | PTimestamptz | PTimestamp | PDate | PBinary

datatype iceberg_type =
    Primitive primitive_type
  | TList nested_field
and nested_field =
  NestedField (nf_id: i32) (nf_name: string) (nf_required: bool) (nf_type: iceberg_type)

section \<open>Parsing type names\<close>

definition str_slice :: "nat \<Rightarrow> nat \<Rightarrow> string \<Rightarrow> string" where
  "str_slice a b s = take (b - a) (drop a s)"

lemma length_list_slice:
  assumes "starts_with ''list('' s"
  shows "length (str_slice 5 (length s - 1) s) < length s"
proof -
  from assms obtain r where "s = ''list('' @ r" unfolding starts_with_iff by blast
  then show ?thesis by (simp add: str_slice_def)
qed

function from_str :: "string \<Rightarrow> mapped_type option" where
  "from_str s =
     (if s = ''string'' then Some MString
      else if s = ''long'' \<or> s = ''int64'' then Some MLong
      else if s = ''int'' \<or> s = ''int32'' then Some MInt
      else if s = ''double'' \<or> s = ''float64'' then Some MDouble
      else if s = ''float'' \<or> s = ''float32'' then Some MFloat
      else if s = ''boolean'' then Some MBoolean
      else if s = ''timestamptz'' then Some MTimestampTz
      else if s = ''timestamp'' then Some MTimestamp
      else if s = ''date'' then Some MDate
      else if s = ''binary'' \<or> s = ''bytes'' then Some MBinary
      else if starts_with ''list('' s \<and> ends_with '')'' s then
        map_option MList (from_str (str_slice 5 (length s - 1) s))
      else None)"
  by pat_completeness auto
termination
  by (relation "measure length") (simp_all add: length_list_slice del: One_nat_def)

declare from_str.simps [simp del]

definition from_str_or_string :: "string \<Rightarrow> string \<Rightarrow> mapped_type" where
  "from_str_or_string s field_name = (case from_str s of Some t \<Rightarrow> t | None \<Rightarrow> MString)"

section \<open>Translations\<close>

primrec to_arrow :: "mapped_type \<Rightarrow> i32 \<Rightarrow> data_type \<times> i32" where
  "to_arrow MString n = (Utf8, n)"
| "to_arrow MLong n = (Int64, n)"
| "to_arrow MInt n = (Int32, n)"
| "to_arrow MDouble n = (Float64, n)"
| "to_arrow MFloat n = (Float32, n)"
| "to_arrow MBoolean n = (Boolean, n)"
| "to_arrow MTimestampTz n = (Timestamp Microsecond (Some ''+00:00''), n)"
| "to_arrow MTimestamp n = (Timestamp Microsecond None, n)"
| "to_arrow MDate n = (Date32, n)"
| "to_arrow MBinary n = (Binary, n)"
| "to_arrow (MList inner) n =
     (let element_id = n;
          (inner_type, n') = to_arrow inner (n + 1);
          metadata = [(''PARQUET:field_id'', show_i32 element_id)]
      in (DList (Field ''item'' inner_type True metadata), n'))"

primrec to_iceberg :: "mapped_type \<Rightarrow> i32 \<Rightarrow> iceberg_type \<times> i32" where
  "to_iceberg MString n = (Primitive PString, n)"
| "to_iceberg MLong n = (Primitive PLong, n)"
| "to_iceberg MInt n = (Primitive PInt, n)"
| "to_iceberg MDouble n = (Primitive PDouble, n)"
| "to_iceberg MFloat n = (Primitive PFloat, n)"
| "to_iceberg MBoolean n = (Primitive PBoolean, n)"
| "to_iceberg MTimestampTz n = (Primitive PTimestamptz, n)"
| "to_iceberg MTimestamp n = (Primitive PTimestamp, n)"
| "to_iceberg MDate n = (Primitive PDate, n)"
| "to_iceberg MBinary n = (Primitive PBinary, n)"
| "to_iceberg (MList inner) n =
     (let element_id = n;
          (inner_type, n') = to_iceberg inner (n + 1)
      in (TList (NestedField element_id ''element'' False inner_type), n'))"

section \<open>What the parser accepts\<close>

text \<open>
  The specification of the parser: the spellings of each type, the first one primary and the
  others aliases. A list type is spelled with any spelling of its element type.
\<close>

primrec type_names :: "mapped_type \<Rightarrow> string list" where
  "type_names MString = [''string'']"
| "type_names MLong = [''long'', ''int64'']"
| "type_names MInt = [''int'', ''int32'']"
| "type_names MDouble = [''double'', ''float64'']"
| "type_names MFloat = [''float'', ''float32'']"
| "type_names MBoolean = [''boolean'']"
| "type_names MTimestampTz = [''timestamptz'']"
| "type_names MTimestamp = [''timestamp'']"
| "type_names MDate = [''date'']"
| "type_names MBinary = [''binary'', ''bytes'']"
| "type_names (MList t) = map (\<lambda>s. ''list('' @ s @ '')'') (type_names t)"

lemma str_slice_list: "str_slice 5 (length (''list('' @ s @ '')'') - 1) (''list('' @ s @ '')'') = s"
  by (simp add: str_slice_def)

lemma from_str_list: "from_str (''list('' @ s @ '')'') = map_option MList (from_str s)"
proof -
  have ends: "ends_with '')'' (''list('' @ s @ '')'')"
    unfolding ends_with_iff by (rule exI [of _ "''list('' @ s"]) simp
  show ?thesis
    using ends str_slice_list [of s] starts_with_append [of "''list(''" "s @ '')''"]
    by (subst from_str.simps) simp
qed

lemma list_shape:
  assumes "starts_with ''list('' s" and "ends_with '')'' s"
  shows "s = ''list('' @ str_slice 5 (length s - 1) s @ '')''"
proof -
  obtain r where r: "s = ''list('' @ r" using assms(1) by (auto simp: starts_with_iff)
  obtain q where q: "s = q @ '')''" using assms(2) by (auto simp: ends_with_iff)
  have "last s = CHR '')''" by (simp add: q)
  then have "r \<noteq> []" unfolding r by auto
  then obtain u c where "r = u @ [c]" by (metis rev_exhaust)
  with r q have "s = ''list('' @ u @ '')''" by (metis append_assoc append1_eq_conv)
  then show ?thesis by (simp add: str_slice_def)
qed

lemma from_str_primitive:
  "from_str ''string'' = Some MString"
  "from_str ''long'' = Some MLong" "from_str ''int64'' = Some MLong"
  "from_str ''int'' = Some MInt" "from_str ''int32'' = Some MInt"
  "from_str ''double'' = Some MDouble" "from_str ''float64'' = Some MDouble"
  "from_str ''float'' = Some MFloat" "from_str ''float32'' = Some MFloat"
  "from_str ''boolean'' = Some MBoolean"
  "from_str ''timestamptz'' = Some MTimestampTz" "from_str ''timestamp'' = Some MTimestamp"
  "from_str ''date'' = Some MDate"
  "from_str ''binary'' = Some MBinary" "from_str ''bytes'' = Some MBinary"
  by (simp_all add: from_str.simps)

lemma from_str_type_names: "s \<in> set (type_names t) \<Longrightarrow> from_str s = Some t"
proof (induction t arbitrary: s)
  case (MList t)
  then obtain r where "s = ''list('' @ r @ '')''" and "from_str r = Some t" by auto
  then show ?case by (simp only: from_str_list) simp
qed (auto simp: from_str_primitive)

lemma type_names_from_str: "from_str s = Some t \<Longrightarrow> s \<in> set (type_names t)"
proof (induction s arbitrary: t rule: from_str.induct)
  case (1 s)
  show ?case
  proof (cases "starts_with ''list('' s \<and> ends_with '')'' s")
    case True
    define r where "r = str_slice 5 (length s - 1) s"
    have s: "s = ''list('' @ r @ '')''" unfolding r_def using True by (intro list_shape) auto
    then obtain t' where t': "from_str r = Some t'" "t = MList t'"
      using "1.prems" by (auto simp only: from_str_list map_option_eq_Some)
    have ne: "s \<notin> {''string'', ''long'', ''int64'', ''int'', ''int32'', ''double'', ''float64'',
        ''float'', ''float32'', ''boolean'', ''timestamptz'', ''timestamp'', ''date'', ''binary'', ''bytes''}"
      unfolding s by simp
    have "r \<in> set (type_names t')"
      by (rule "1.IH" [folded r_def]; use True t'(1) ne in simp)
    then show ?thesis by (auto simp: t' s)
  next
    case False
    with "1.prems" show ?thesis by (auto simp: from_str.simps [of s] split: if_splits)
  qed
qed

section \<open>Agreement of the two translations\<close>

text \<open>How many field ids a type takes: one per list level.\<close>

primrec list_depth :: "mapped_type \<Rightarrow> nat" where
  "list_depth MString = 0" | "list_depth MLong = 0" | "list_depth MInt = 0"
| "list_depth MDouble = 0" | "list_depth MFloat = 0" | "list_depth MBoolean = 0"
| "list_depth MTimestampTz = 0" | "list_depth MTimestamp = 0" | "list_depth MDate = 0"
| "list_depth MBinary = 0"
| "list_depth (MList t) = Suc (list_depth t)"

text \<open>
  The type correspondence of the Iceberg specification, for the types the engine uses. With
  \<open>ids\<close>, list elements must also carry the same field id on both sides.
\<close>

fun primitive_agrees :: "data_type \<Rightarrow> primitive_type \<Rightarrow> bool" where
  "primitive_agrees Utf8 p = (p = PString)"
| "primitive_agrees Int64 p = (p = PLong)"
| "primitive_agrees Int32 p = (p = PInt)"
| "primitive_agrees Float64 p = (p = PDouble)"
| "primitive_agrees Float32 p = (p = PFloat)"
| "primitive_agrees Boolean p = (p = PBoolean)"
| "primitive_agrees (Timestamp Microsecond (Some tz)) p = (tz = ''+00:00'' \<and> p = PTimestamptz)"
| "primitive_agrees (Timestamp Microsecond None) p = (p = PTimestamp)"
| "primitive_agrees Date32 p = (p = PDate)"
| "primitive_agrees Binary p = (p = PBinary)"
| "primitive_agrees (DList f) p = False"

fun type_agrees :: "bool \<Rightarrow> data_type \<Rightarrow> iceberg_type \<Rightarrow> bool" where
  "type_agrees ids (DList (Field _ dt nullable md)) (TList (NestedField i _ req it)) \<longleftrightarrow>
     nullable = (\<not> req) \<and> (ids \<longrightarrow> map_of md ''PARQUET:field_id'' = Some (show_i32 i)) \<and>
     type_agrees ids dt it"
| "type_agrees ids (DList _) (Primitive _) \<longleftrightarrow> False"
| "type_agrees ids dt (TList _) \<longleftrightarrow> False"
| "type_agrees ids dt (Primitive p) \<longleftrightarrow> primitive_agrees dt p"

lemma to_arrow_next: "snd (to_arrow t n) = n + of_nat (list_depth t)"
  by (induction t arbitrary: n) (auto simp: split_beta)

lemma to_iceberg_next: "snd (to_iceberg t n) = n + of_nat (list_depth t)"
  by (induction t arbitrary: n) (auto simp: split_beta)

lemma translations_same_shape: "type_agrees False (fst (to_arrow t m)) (fst (to_iceberg t n))"
  by (induction t arbitrary: m n) (auto simp: split_beta)

lemma translations_same_ids: "type_agrees True (fst (to_arrow t n)) (fst (to_iceberg t n))"
  by (induction t arbitrary: n) (auto simp: split_beta)

section \<open>Properties\<close>

text \<open>C33: the parser of type names accepts exactly the documented spellings, aliases and nested
  lists included, and returns the type each of them spells.\<close>

theorem from_str_iff: "from_str s = Some t \<longleftrightarrow> s \<in> set (type_names t)"
  by (auto intro: from_str_type_names type_names_from_str)

text \<open>C34: from the same counter, the Arrow and the Iceberg translation of a type agree at every
  nesting level, element field ids included, and leave the counter at the same value.\<close>

theorem to_arrow_to_iceberg_agree:
  "type_agrees True (fst (to_arrow t n)) (fst (to_iceberg t n)) \<and>
   snd (to_arrow t n) = snd (to_iceberg t n)"
  by (simp add: translations_same_ids to_arrow_next to_iceberg_next)

end
