(* ===== verification/Json.thy ===== *)
theory Json
  imports Prelude
begin

text \<open>
  The interface of \<open>serde_json\<close> the engine uses: parsing a document to a value of the type
  \<open>'j\<close> and the accessors of that type. The crate is a parameter of every definition that reads
  JSON. \<open>index\<close> is the bracket operator, which yields the null value where a key is missing.
\<close>

record 'j serde_json =
  json_from_str :: "string \<Rightarrow> string + 'j"
  json_get :: "'j \<Rightarrow> string \<Rightarrow> 'j option"
  json_index :: "'j \<Rightarrow> string \<Rightarrow> 'j"
  json_as_str :: "'j \<Rightarrow> string option"
  json_as_array :: "'j \<Rightarrow> 'j list option"
  json_as_bool :: "'j \<Rightarrow> bool option"
  json_is_object :: "'j \<Rightarrow> bool"

text \<open>\<open>v.get(key).and_then(|x| x.as_str())\<close> and its like.\<close>

definition get_str :: "'j serde_json \<Rightarrow> 'j \<Rightarrow> string \<Rightarrow> string option" where
  "get_str J v key = Option.bind (json_get J v key) (json_as_str J)"

definition get_array :: "'j serde_json \<Rightarrow> 'j \<Rightarrow> string \<Rightarrow> 'j list option" where
  "get_array J v key = Option.bind (json_get J v key) (json_as_array J)"

definition unwrap_or :: "'a \<Rightarrow> 'a option \<Rightarrow> 'a" where
  "unwrap_or d x = (case x of None \<Rightarrow> d | Some y \<Rightarrow> y)"

lemma unwrap_or_simps [simp]: "unwrap_or d None = d" "unwrap_or d (Some x) = x"
  by (simp_all add: unwrap_or_def)

text \<open>
  A concrete value type with the accessors' documented behaviour, and a parser that knows the
  documents it is given. The witnesses run the engine's functions on it.
\<close>

datatype json =
    JNull | JBool bool | JString string | JArray "json list" | JObject "(string \<times> json) list"

fun jget :: "json \<Rightarrow> string \<Rightarrow> json option" where
  "jget (JObject m) k = map_of m k"
| "jget _ k = None"

definition demo_json :: "(string \<times> json) list \<Rightarrow> json serde_json" where
  "demo_json docs =
     \<lparr> json_from_str = (\<lambda>s. case map_of docs s of None \<Rightarrow> Inl ''expected value'' | Some j \<Rightarrow> Inr j),
       json_get = jget,
       json_index = (\<lambda>v k. unwrap_or JNull (jget v k)),
       json_as_str = (\<lambda>v. case v of JString s \<Rightarrow> Some s | _ \<Rightarrow> None),
       json_as_array = (\<lambda>v. case v of JArray xs \<Rightarrow> Some xs | _ \<Rightarrow> None),
       json_as_bool = (\<lambda>v. case v of JBool b \<Rightarrow> Some b | _ \<Rightarrow> None),
       json_is_object = (\<lambda>v. case v of JObject _ \<Rightarrow> True | _ \<Rightarrow> False) \<rparr>"

end
