(* ===== verification/Config.thy ===== *)
theory Config
  imports Field_Type Json
begin

text \<open>
  src/src/config.rs: the configuration read from the environment. The environment, the file
  system and \<open>serde_json\<close> are parameters; \<open>env name\<close> is the result of \<open>env::var(name)\<close>, and
  \<open>parallelism\<close> that of \<open>available_parallelism()\<close>.
\<close>

datatype catalog_type = Nessie | Glue

datatype compression = UNCOMPRESSED | SNAPPY | ZSTD

record config =
  catalog_type :: catalog_type
  micewriter_table :: string
  grpc_port :: u16
  minio_url :: "string option"
  minio_access_key :: "string option"
  minio_secret_key :: "string option"
  nessie_uri :: "string option"
  warehouse :: string
  glue_catalog_id :: "string option"
  flush_interval_secs :: u64
  flush_jitter_secs :: u64
  cfg_flush_size_bytes :: u64
  cfg_flush_size_jitter_bytes :: u64
  enable_manual_flush :: bool
  rocksdb_path :: string
  rocksdb_sync_writes :: bool
  max_retained_frozen_cfs :: usize
  cfg_write_buffer_size :: usize
  concurrent_cf_flushes :: usize
  target_parquet_bytes :: usize
  parquet_row_group_bytes :: usize
  parquet_compression :: compression
  field_defs :: "field_def list"

text \<open>
  The file system: reading a file of a directory, and the debug form of its path for messages.
\<close>

record file_system =
  read_to_string :: "string \<Rightarrow> string \<Rightarrow> string result"
  path_debug :: "string \<Rightarrow> string \<Rightarrow> string"

definition field_def_of_json :: "'j serde_json \<Rightarrow> 'j \<Rightarrow> field_def" where
  "field_def_of_json J field =
     \<lparr> name = unwrap_or ''unknown'' (json_as_str J (json_index J field ''name'')),
       field_type = unwrap_or ''string'' (json_as_str J (json_index J field ''type'')),
       required = unwrap_or False (json_as_bool J (json_index J field ''required'')) \<rparr>"

definition load_field_defs ::
    "'j serde_json \<Rightarrow> file_system \<Rightarrow> string \<Rightarrow> string \<Rightarrow> field_def list result" where
  "load_field_defs J fs table schemas_dir =
     (let file = table @ ''.json'' in
      and_then (context_err (''Failed to read schema file '' @ path_debug fs schemas_dir file)
                 (read_to_string fs schemas_dir file)) (\<lambda>content.
      case json_from_str J content of
        Inl e \<Rightarrow> Err [''Failed to parse schema JSON'', e]
      | Inr schema \<Rightarrow>
          (case get_array J schema ''fields'' of
             None \<Rightarrow> Ok []
           | Some fds \<Rightarrow> Ok (map (field_def_of_json J) fds))))"

definition parse_parquet_compression :: "string \<Rightarrow> compression result" where
  "parse_parquet_compression s =
     (let other = to_ascii_uppercase (trim s) in
      if other = ''NONE'' \<or> other = ''UNCOMPRESSED'' then Ok UNCOMPRESSED
      else if other = ''SNAPPY'' then Ok SNAPPY
      else if other = ''ZSTD'' then Ok ZSTD
      else Err [''unsupported PARQUET_COMPRESSION '' @ quoted other @
                '' (expected NONE|SNAPPY|ZSTD)''])"

type_synonym environment = "string \<Rightarrow> string result"

text \<open>\<open>env::var(n).ok()\<close>, \<open>env::var(n).unwrap_or_else(..)\<close> and the numeric and boolean forms.\<close>

definition env_ok :: "environment \<Rightarrow> string \<Rightarrow> string option" where
  "env_ok env n = (case env n of Inl _ \<Rightarrow> None | Inr v \<Rightarrow> Some v)"

definition env_or :: "environment \<Rightarrow> string \<Rightarrow> string \<Rightarrow> string" where
  "env_or env n d = unwrap_or d (env_ok env n)"

definition env_num :: "environment \<Rightarrow> string \<Rightarrow> string \<Rightarrow> string \<Rightarrow> 'a::len word result" where
  "env_num env n d msg = context_err msg (parse_word (env_or env n d))"

definition env_flag :: "environment \<Rightarrow> string \<Rightarrow> bool" where
  "env_flag env n = (case env_ok env n of None \<Rightarrow> True | Some v \<Rightarrow> to_lowercase v \<noteq> ''false'')"

definition env_catalog_type :: "environment \<Rightarrow> catalog_type" where
  "env_catalog_type env =
     (if to_lowercase (env_or env ''CATALOG_TYPE'' ''nessie'') = ''glue'' then Glue else Nessie)"

definition scaled_write_buffer :: "nat option \<Rightarrow> usize" where
  "scaled_write_buffer parallelism =
     (let parser_threads = max (of_nat (unwrap_or 1 parallelism)) 1
      in min (4 * 1024 * 1024 * parser_threads) (64 * 1024 * 1024))"

definition from_env ::
    "'j serde_json \<Rightarrow> file_system \<Rightarrow> nat option \<Rightarrow> environment \<Rightarrow> config result" where
  "from_env J fs parallelism env =
     (let ct = env_catalog_type env;
          url = env_ok env ''MINIO_URL'';
          access = env_ok env ''MINIO_ACCESS_KEY'';
          secret = env_ok env ''MINIO_SECRET_KEY'';
          uri = env_ok env ''NESSIE_URI''
      in if ct = Nessie \<and> (url = None \<or> access = None \<or> secret = None \<or> uri = None)
         then Err [''MINIO_URL, MINIO_ACCESS_KEY, MINIO_SECRET_KEY, and NESSIE_URI are required when CATALOG_TYPE=nessie'']
         else
      and_then (context_err ''MICEWRITER_TABLE environment variable is strictly required in v2''
                 (env ''MICEWRITER_TABLE'')) (\<lambda>table.
      and_then (load_field_defs J fs table (env_or env ''SCHEMAS_DIR'' ''./schemas'')) (\<lambda>defs.
      and_then (env_num env ''GRPC_PORT'' ''9090'' ''GRPC_PORT must be a valid u16 port number'') (\<lambda>port.
      and_then (env_num env ''FLUSH_INTERVAL_SECS'' ''300'' ''FLUSH_INTERVAL_SECS must be a number'') (\<lambda>interval.
      and_then (env_num env ''FLUSH_JITTER_SECS'' ''60'' ''FLUSH_JITTER_SECS must be a number'') (\<lambda>jitter.
      and_then (env_num env ''FLUSH_SIZE_BYTES'' ''134217728'' ''FLUSH_SIZE_BYTES must be a number'') (\<lambda>sz.
      and_then (env_num env ''FLUSH_SIZE_JITTER_BYTES'' ''67108864'' ''FLUSH_SIZE_JITTER_BYTES must be a number'') (\<lambda>sz_jitter.
      and_then (env_num env ''MAX_RETAINED_FROZEN_CFS'' ''2'' ''MAX_RETAINED_FROZEN_CFS must be an integer'') (\<lambda>retained.
      and_then (env_num env ''WRITE_BUFFER_SIZE'' ''67108864'' ''WRITE_BUFFER_SIZE must be a positive integer'') (\<lambda>wbs.
      and_then (env_num env ''CONCURRENT_CF_FLUSHES'' ''2'' ''CONCURRENT_CF_FLUSHES must be a positive integer'') (\<lambda>concurrent.
      and_then (env_num env ''TARGET_PARQUET_BYTES'' ''67108864'' ''TARGET_PARQUET_BYTES must be a positive integer'') (\<lambda>target.
      and_then (env_num env ''PARQUET_ROW_GROUP_BYTES'' ''8388608'' ''PARQUET_ROW_GROUP_BYTES must be a positive integer'') (\<lambda>row_group.
      and_then (parse_parquet_compression (env_or env ''PARQUET_COMPRESSION'' ''SNAPPY'')) (\<lambda>comp.
      (let config =
         \<lparr> catalog_type = ct, micewriter_table = table, grpc_port = port,
           minio_url = url, minio_access_key = access, minio_secret_key = secret, nessie_uri = uri,
           warehouse = unwrap_or (env_or env ''NESSIE_WAREHOUSE'' ''s3://iceberg'') (env_ok env ''WAREHOUSE''),
           glue_catalog_id = env_ok env ''GLUE_CATALOG_ID'',
           flush_interval_secs = interval, flush_jitter_secs = jitter,
           cfg_flush_size_bytes = sz, cfg_flush_size_jitter_bytes = sz_jitter,
           enable_manual_flush = env_flag env ''ENABLE_MANUAL_FLUSH'',
           rocksdb_path = env_or env ''ROCKSDB_PATH'' ''/var/lib/rocksdb'',
           rocksdb_sync_writes = env_flag env ''ROCKSDB_SYNC_WRITES'',
           max_retained_frozen_cfs = retained, cfg_write_buffer_size = wbs,
           concurrent_cf_flushes = concurrent, target_parquet_bytes = target,
           parquet_row_group_bytes = row_group, parquet_compression = comp, field_defs = defs \<rparr>
       in Ok (config\<lparr>cfg_write_buffer_size := scaled_write_buffer parallelism\<rparr>))))))))))))))))"

section \<open>What a successful configuration holds\<close>

lemma env_or_cases: "env_or env n d = (case env n of Inl _ \<Rightarrow> d | Inr v \<Rightarrow> v)"
  by (simp add: env_or_def env_ok_def split: sum.splits)

lemma from_env_catalog:
  assumes "from_env J fs p env = Ok c"
  shows "catalog_type c = env_catalog_type env"
    and "catalog_type c = Nessie \<Longrightarrow>
      minio_url c \<noteq> None \<and> minio_access_key c \<noteq> None \<and> minio_secret_key c \<noteq> None \<and> nessie_uri c \<noteq> None"
    and "cfg_write_buffer_size c = scaled_write_buffer p"
  using assms by (auto simp: from_env_def Let_def and_then_Ok_iff split: if_splits)

text \<open>The variables that must hold a number, with the number of values of the type.\<close>

definition numeric_vars :: "(string \<times> nat) list" where
  "numeric_vars =
     [(''GRPC_PORT'', 2 ^ 16), (''FLUSH_INTERVAL_SECS'', 2 ^ 64), (''FLUSH_JITTER_SECS'', 2 ^ 64),
      (''FLUSH_SIZE_BYTES'', 2 ^ 64), (''FLUSH_SIZE_JITTER_BYTES'', 2 ^ 64),
      (''MAX_RETAINED_FROZEN_CFS'', 2 ^ 64), (''WRITE_BUFFER_SIZE'', 2 ^ 64),
      (''CONCURRENT_CF_FLUSHES'', 2 ^ 64), (''TARGET_PARQUET_BYTES'', 2 ^ 64),
      (''PARQUET_ROW_GROUP_BYTES'', 2 ^ 64)]"

lemma env_num_ok_parse:
  assumes "is_ok (env_num env n d msg :: 'a::len word result)" and "env n = Ok v"
  shows "\<exists>k. parse_uint (2 ^ LENGTH('a)) v = Inr k"
  using assms by (auto simp: env_num_def parse_word_def env_or_cases split: sum.splits)

lemma from_env_nums_ok:
  assumes "from_env J fs p env = Ok c"
  shows "is_ok (env_num env ''GRPC_PORT'' ''9090'' ''GRPC_PORT must be a valid u16 port number'' :: u16 result)"
    and "\<forall>n \<in> {''FLUSH_INTERVAL_SECS'', ''FLUSH_JITTER_SECS'', ''FLUSH_SIZE_BYTES'',
        ''FLUSH_SIZE_JITTER_BYTES'', ''MAX_RETAINED_FROZEN_CFS'', ''WRITE_BUFFER_SIZE'',
        ''CONCURRENT_CF_FLUSHES'', ''TARGET_PARQUET_BYTES'', ''PARQUET_ROW_GROUP_BYTES''}.
      \<exists>d m. is_ok (env_num env n d m :: u64 result)"
  using assms unfolding from_env_def Let_def and_then_Ok_iff
  by (simp_all only: split: if_splits) (auto simp: is_ok_iff and_then_Ok_iff)

lemma from_env_numbers:
  assumes "from_env J fs p env = Ok c" and "(n, b) \<in> set numeric_vars" and "env n = Ok v"
  shows "\<exists>k. parse_uint b v = Inr k"
proof (cases "n = ''GRPC_PORT''")
  case True
  then have "b = 2 ^ 16" using assms(2) by (simp add: numeric_vars_def)
  with env_num_ok_parse [OF from_env_nums_ok(1) [OF assms(1)]] assms(3) True show ?thesis by simp
next
  case False
  then have b: "b = 2 ^ 64" and "n \<in> set (map fst (tl numeric_vars))"
    using assms(2) by (auto simp: numeric_vars_def)
  then obtain d m where "is_ok (env_num env n d m :: u64 result)"
    using from_env_nums_ok(2) [OF assms(1)] by (simp add: numeric_vars_def) blast
  from env_num_ok_parse [OF this assms(3)] show ?thesis by (simp add: b)
qed

lemma parse_word_defaults:
  "parse_word ''9090'' = Ok (9090 :: u16)"
  "parse_word ''300'' = Ok (300 :: u64)"
  "parse_word ''60'' = Ok (60 :: u64)"
  "parse_word ''2'' = Ok (2 :: u64)"
  "parse_word ''134217728'' = Ok (134217728 :: u64)"
  "parse_word ''67108864'' = Ok (67108864 :: u64)"
  "parse_word ''8388608'' = Ok (8388608 :: u64)"
  by (simp_all add: parse_word_def parse_uint_def digit_val_def)

section \<open>A sample configuration\<close>

definition telemetry_schema :: json where
  "telemetry_schema = JObject [(''type'', JString ''struct''), (''fields'', JArray
     [JObject [(''name'', JString ''id''), (''required'', JBool True), (''type'', JString ''string'')],
      JObject [(''name'', JString ''source''), (''required'', JBool False), (''type'', JString ''string'')],
      JObject [(''name'', JString ''occurred_at''), (''required'', JBool False), (''type'', JString ''long'')]])]"

definition sample_json :: "json serde_json" where
  "sample_json = demo_json [(''telemetry'', telemetry_schema)]"

definition sample_fs :: file_system where
  "sample_fs = \<lparr> read_to_string = (\<lambda>dir file. Ok ''telemetry''), path_debug = (\<lambda>dir file. dir @ ''/'' @ file) \<rparr>"

definition sample_env :: environment where
  "sample_env n =
     (if n = ''MICEWRITER_TABLE'' then Ok ''telemetry_events''
      else if n \<in> {''MINIO_URL'', ''MINIO_ACCESS_KEY'', ''MINIO_SECRET_KEY'', ''NESSIE_URI''} then Ok ''x''
      else Err [''environment variable not found''])"

definition telemetry_defs :: "field_def list" where
  "telemetry_defs =
     [\<lparr> name = ''id'', field_type = ''string'', required = True \<rparr>,
      \<lparr> name = ''source'', field_type = ''string'', required = False \<rparr>,
      \<lparr> name = ''occurred_at'', field_type = ''long'', required = False \<rparr>]"

lemma load_sample: "load_field_defs sample_json sample_fs t dir = Ok telemetry_defs"
  by (simp add: load_field_defs_def sample_fs_def sample_json_def demo_json_def telemetry_schema_def
      telemetry_defs_def get_array_def field_def_of_json_def)

section \<open>Properties\<close>

text \<open>A configuration that is accepted for the Nessie catalog has the four settings that
  catalog needs, so the places that unwrap them cannot panic.\<close>

theorem from_env_nessie_settings:
  assumes "from_env J fs p env = Ok c" and "catalog_type c = Nessie"
  shows "minio_url c \<noteq> None \<and> minio_access_key c \<noteq> None \<and> minio_secret_key c \<noteq> None \<and>
         nessie_uri c \<noteq> None"
  using from_env_catalog(2) [OF assms] .

text \<open>C39: A numeric variable whose text is not a number of the field's type, or does not fit it,
  makes the configuration fail.\<close>

theorem from_env_rejects_bad_number:
  assumes "(n, b) \<in> set numeric_vars" and "env n = Ok v" and "parse_uint b v = Inl e"
  shows "\<exists>err. from_env J fs p env = Err err"
  using from_env_numbers [of J fs p env _ n b v] assms by (cases "from_env J fs p env") auto

text \<open>The write buffer is scaled from the number of processors, between 4 and 64 mebibytes.\<close>

theorem write_buffer_bounds:
  assumes "from_env J fs p env = Ok c" and "unwrap_or 1 p < 2 ^ 40"
  shows "unat (cfg_write_buffer_size c) \<in> {4 * 2 ^ 20 .. 64 * 2 ^ 20} \<and>
         unat (cfg_write_buffer_size c) = min (4 * 2 ^ 20 * max (unwrap_or 1 p) 1) (64 * 2 ^ 20)"
proof -
  let ?t = "max (unwrap_or 1 p) 1"
  have t: "?t < 2 ^ 40" using assms(2) by simp
  have threads: "max (of_nat (unwrap_or 1 p)) 1 = (of_nat ?t :: usize)"
    using assms(2) by (auto simp: max_def word_le_nat_alt unat_of_nat)
  have "unat (of_nat ?t :: usize) = ?t" using t by (simp add: unat_of_nat)
  then have "unat (4 * 1024 * 1024 * of_nat ?t :: usize) = 4 * 1024 * 1024 * ?t"
    using t by (subst unat_word_ariths) simp
  then have "unat (scaled_write_buffer p) = min (4 * 2 ^ 20 * ?t) (64 * 2 ^ 20)"
    unfolding scaled_write_buffer_def threads Let_def by (simp add: min_def word_le_nat_alt)
  then show ?thesis using from_env_catalog(3) [OF assms(1)] by auto
qed

text \<open>The variable \<open>WRITE_BUFFER_SIZE\<close> is parsed and then ignored: setting it to any number
  leaves the configuration as it was.\<close>

theorem write_buffer_setting_ignored:
  assumes "from_env J fs p env = Ok c" and "parse_uint (2 ^ 64) v = Inr k"
  shows "from_env J fs p (env(''WRITE_BUFFER_SIZE'' := Ok v)) = Ok c"
proof -
  have "env_num (env(''WRITE_BUFFER_SIZE'' := Ok v)) ''WRITE_BUFFER_SIZE'' d m = Ok (of_nat k :: usize)" for d m
    using assms(2) by (simp add: env_num_def env_or_cases parse_word_def)
  moreover have "n \<noteq> ''WRITE_BUFFER_SIZE'' \<Longrightarrow> env_ok (env(''WRITE_BUFFER_SIZE'' := Ok v)) n = env_ok env n" for n
    by (simp add: env_ok_def)
  ultimately show ?thesis
    using assms(1)
    by (auto simp: from_env_def Let_def and_then_Ok_iff env_catalog_type_def env_or_def env_num_def
        env_flag_def split: if_splits)
qed

text \<open>With only the required variables set, the configuration has the defaults of the code:
  an interval of 300 seconds with a jitter of 60, a size of 128 mebibytes with a jitter of 64, at
  most 2 retained families, 2 concurrent flushes, synchronous writes and manual flushes on.\<close>

theorem from_env_defaults:
  assumes unset: "\<And>n. n \<notin> {''MICEWRITER_TABLE'', ''MINIO_URL'', ''MINIO_ACCESS_KEY'',
      ''MINIO_SECRET_KEY'', ''NESSIE_URI''} \<Longrightarrow> \<exists>e. env n = Err e"
    and "env ''MICEWRITER_TABLE'' = Ok t" and "env ''MINIO_URL'' = Ok url"
    and "env ''MINIO_ACCESS_KEY'' = Ok access" and "env ''MINIO_SECRET_KEY'' = Ok secret"
    and "env ''NESSIE_URI'' = Ok uri" and "load_field_defs J fs t ''./schemas'' = Ok defs"
  shows "from_env J fs p env = Ok
    \<lparr> catalog_type = Nessie, micewriter_table = t, grpc_port = 9090,
      minio_url = Some url, minio_access_key = Some access, minio_secret_key = Some secret,
      nessie_uri = Some uri, warehouse = ''s3://iceberg'', glue_catalog_id = None,
      flush_interval_secs = 300, flush_jitter_secs = 60,
      cfg_flush_size_bytes = 128 * 2 ^ 20, cfg_flush_size_jitter_bytes = 64 * 2 ^ 20,
      enable_manual_flush = True, rocksdb_path = ''/var/lib/rocksdb'', rocksdb_sync_writes = True,
      max_retained_frozen_cfs = 2, cfg_write_buffer_size = scaled_write_buffer p,
      concurrent_cf_flushes = 2, target_parquet_bytes = 64 * 2 ^ 20,
      parquet_row_group_bytes = 8 * 2 ^ 20, parquet_compression = SNAPPY, field_defs = defs \<rparr>"
proof -
  have none: "env_ok env n = None" if "n \<notin> {''MICEWRITER_TABLE'', ''MINIO_URL'', ''MINIO_ACCESS_KEY'',
      ''MINIO_SECRET_KEY'', ''NESSIE_URI''}" for n
    using unset [OF that] by (auto simp: env_ok_def)
  have some: "env_ok env ''MINIO_URL'' = Some url" "env_ok env ''MINIO_ACCESS_KEY'' = Some access"
    "env_ok env ''MINIO_SECRET_KEY'' = Some secret" "env_ok env ''NESSIE_URI'' = Some uri"
    using assms by (simp_all add: env_ok_def)
  have snappy: "parse_parquet_compression ''SNAPPY'' = Ok SNAPPY"
    by (simp add: parse_parquet_compression_def to_ascii_uppercase_def trim_visible ascii_upper_def)
  have lower: "to_lowercase ''nessie'' = ''nessie''" by (simp add: to_lowercase_def ascii_lower_def)
  show ?thesis
    using assms(2,7)
    by (simp add: from_env_def Let_def env_catalog_type_def env_or_def env_num_def env_flag_def
        none some snappy lower parse_word_defaults)
qed

lemma sample_defaults:
  "\<exists>c. from_env sample_json sample_fs (Some 8) sample_env = Ok c \<and> catalog_type c = Nessie \<and>
     concurrent_cf_flushes c = 2 \<and> max_retained_frozen_cfs c = 2 \<and> flush_interval_secs c = 300 \<and>
     field_defs c = telemetry_defs \<and> micewriter_table c = ''telemetry_events''"
  using from_env_defaults [where env = sample_env and J = sample_json and fs = sample_fs
      and p = "Some 8" and t = "''telemetry_events''" and url = "''x''" and access = "''x''"
      and secret = "''x''" and uri = "''x''" and defs = telemetry_defs]
  by (simp add: sample_env_def load_sample)

lemma sample_config:
  "\<exists>c. from_env sample_json sample_fs (Some 8) sample_env = Ok c \<and> catalog_type c = Nessie \<and> concurrent_cf_flushes c = 2"
  using sample_defaults by blast

theorem from_env_nessie_settings_witness:
  "\<exists>c. from_env sample_json sample_fs (Some 8) sample_env = Ok c \<and> minio_url c \<noteq> None"
  using sample_config from_env_nessie_settings by blast

theorem write_buffer_bounds_witness:
  "\<exists>c. from_env sample_json sample_fs (Some 8) sample_env = Ok c \<and>
     unat (cfg_write_buffer_size c) = 32 * 2 ^ 20"
  using sample_config write_buffer_bounds [of sample_json sample_fs "Some 8" sample_env] by fastforce

theorem write_buffer_setting_ignored_witness:
  "\<exists>c. from_env sample_json sample_fs (Some 8) sample_env = Ok c \<and>
     from_env sample_json sample_fs (Some 8) (sample_env(''WRITE_BUFFER_SIZE'' := Ok ''1'')) = Ok c"
proof -
  have "parse_uint (2 ^ 64) ''1'' = Inr 1" by (simp add: parse_uint_def digit_val_def)
  then show ?thesis using sample_config write_buffer_setting_ignored by metis
qed

theorem from_env_rejects_bad_number_witness:
  "\<exists>err. from_env sample_json sample_fs None (sample_env(''GRPC_PORT'' := Ok ''65536'')) = Err err"
proof -
  have "parse_uint (2 ^ 16) ''65536'' = Inl PosOverflow" by (simp add: parse_uint_def digit_val_def)
  then show ?thesis
    by (intro from_env_rejects_bad_number [of "''GRPC_PORT''" "2 ^ 16"]) (simp_all add: numeric_vars_def)
qed

end
