(* ===== verification/Rocks_Store.thy ===== *)
theory Rocks_Store
  imports Rust_Std "HOL-Library.Multiset"
begin

text \<open>
  src/src/rocksdb_store.rs: the buffer of records in RocksDB column families. RocksDB is a
  parameter, the record \<open>rocksdb\<close> of the calls the source makes; \<open>rocksdb_laws\<close> collects
  what its documentation promises about them. The store is a record with the source's fields;
  atomics and the values behind locks are plain fields, and every method is a function from
  store to store. The random draw of \<open>gen_range(0..=hi)\<close> is a function of \<open>hi\<close>, and the clock
  of \<open>rotate\<close> is the number of microseconds since the epoch.
\<close>

section \<open>The RocksDB interface\<close>

datatype compression_type = NoCompression

record cf_options =
  set_write_buffer_size :: usize
  set_max_write_buffer_number :: nat
  set_compression_type :: compression_type
  set_bottommost_compression_type :: compression_type
  set_disable_auto_compactions :: bool
  set_level_zero_slowdown_writes_trigger :: nat
  set_level_zero_stop_writes_trigger :: nat

record db_options =
  create_if_missing :: bool
  create_missing_column_families :: bool
  set_bytes_per_sync :: nat
  set_use_direct_reads :: bool
  set_use_direct_io_for_flush_and_compaction :: bool

type_synonym kv = "bytes \<times> bytes"
type_synonym put = "string \<times> bytes \<times> bytes"

text \<open>
  \<open>'p\<close> is what lies at a path on disk and \<open>'d\<close> an open database. The iterators give the
  items they would yield, an error item being the last one.
\<close>

record ('p, 'd) rocksdb =
  list_cf :: "'p \<Rightarrow> string list result"
  open_cf_descriptors :: "db_options \<Rightarrow> 'p \<Rightarrow> (string \<times> cf_options) list \<Rightarrow> 'd result"
  cf_handle :: "'d \<Rightarrow> string \<Rightarrow> bool"
  create_cf :: "'d \<Rightarrow> string \<Rightarrow> cf_options \<Rightarrow> unit result \<times> 'd"
  drop_cf :: "'d \<Rightarrow> string \<Rightarrow> unit result \<times> 'd"
  write_opt :: "'d \<Rightarrow> put list \<Rightarrow> bool \<Rightarrow> unit result \<times> 'd"
  iterator_start :: "'d \<Rightarrow> string \<Rightarrow> kv result list"
  iterator_end :: "'d \<Rightarrow> string \<Rightarrow> kv result list"

section \<open>The store\<close>

definition INITIAL_CF :: string where
  "INITIAL_CF = ''active''"

record 'd rocks_store =
  db :: 'd
  active_cf :: string
  counter :: u64
  active_cf_bytes :: u64
  active_cf_size_limit :: u64
  flush_size_bytes :: u64
  flush_size_jitter_bytes :: u64
  orphaned_cfs :: "string list"
  sync_writes :: bool
  unflushed_bytes :: u64
  frozen_cf_sizes :: "(string \<times> u64) list"
  write_buffer_size :: usize

definition active_cf_timestamp :: "string \<Rightarrow> u64 option" where
  "active_cf_timestamp n =
     (if n = ''active'' then Some 0
      else case strip_prefix ''active_'' n of
        None \<Rightarrow> None
      | Some suffix \<Rightarrow> parse_u64 suffix)"

definition make_cf_opts :: "usize \<Rightarrow> cf_options" where
  "make_cf_opts wbs =
     \<lparr> set_write_buffer_size = wbs,
       set_max_write_buffer_number = 3,
       set_compression_type = NoCompression,
       set_bottommost_compression_type = NoCompression,
       set_disable_auto_compactions = True,
       set_level_zero_slowdown_writes_trigger = 1000000,
       set_level_zero_stop_writes_trigger = 1000000 \<rparr>"

definition make_db_opts :: db_options where
  "make_db_opts =
     \<lparr> create_if_missing = True,
       create_missing_column_families = True,
       set_bytes_per_sync = 1048576,
       set_use_direct_reads = True,
       set_use_direct_io_for_flush_and_compaction = True \<rparr>"

definition reset_size_limit :: "(u64 \<Rightarrow> u64) \<Rightarrow> 'd rocks_store \<Rightarrow> 'd rocks_store" where
  "reset_size_limit gen_range s =
     (let jitter = gen_range (flush_size_jitter_bytes s * 2);
          new_limit = saturating_sub (saturating_add (flush_size_bytes s) jitter)
                        (flush_size_jitter_bytes s)
      in s\<lparr>active_cf_size_limit := max new_limit (1024 * 1024)\<rparr>)"

text \<open>Which of the existing column families is the active one, and which are orphans.\<close>

definition cf_candidates :: "string list \<Rightarrow> (u64 \<times> string) list" where
  "cf_candidates cfs =
     sort_key fst
       (map (\<lambda>n. (the (active_cf_timestamp n), n))
         (filter (\<lambda>n. n \<noteq> ''default'' \<and> active_cf_timestamp n \<noteq> None) cfs))"

definition select_cfs :: "string list \<Rightarrow> string \<times> string list" where
  "select_cfs cfs =
     (let candidates = cf_candidates cfs in
      if candidates = [] then (INITIAL_CF, [])
      else (snd (last candidates), map snd (take (length candidates - 1) candidates)))"

definition max_key :: "('p, 'd) rocksdb \<Rightarrow> 'd \<Rightarrow> string \<Rightarrow> u64" where
  "max_key A d cf =
     (if cf_handle A d cf then
        (case iterator_end A d cf of
           Inr (k, v) # _ \<Rightarrow> if length k = 8 then u64_from_be_bytes k else 0
         | _ \<Rightarrow> 0)
      else 0)"

definition new ::
    "('p, 'd) rocksdb \<Rightarrow> (u64 \<Rightarrow> u64) \<Rightarrow> 'p \<Rightarrow> u64 \<Rightarrow> u64 \<Rightarrow> bool \<Rightarrow> usize \<Rightarrow> 'd rocks_store result" where
  "new A gen_range path flush_size flush_jitter sync wbs =
     (let cfs = (case list_cf A path of Inr names \<Rightarrow> names | Inl _ \<Rightarrow> [INITIAL_CF]);
          cf_descriptors = map (\<lambda>n. (n, make_cf_opts wbs)) cfs
      in case open_cf_descriptors A make_db_opts path cf_descriptors of
           Inl e \<Rightarrow> Err e
         | Inr d \<Rightarrow>
             (let (active_name, orphans) = select_cfs cfs;
                  max_id = max_key A d active_name;
                  total_unflushed = of_nat (length orphans) * flush_size;
                  frozen_sizes = fold (\<lambda>n m. AList.update n flush_size m) orphans []
              in Ok (reset_size_limit gen_range
                   \<lparr> db = d, active_cf = active_name, counter = max_id + 1,
                     active_cf_bytes = 0, active_cf_size_limit = 0,
                     flush_size_bytes = flush_size, flush_size_jitter_bytes = flush_jitter,
                     orphaned_cfs = orphans, sync_writes = sync,
                     unflushed_bytes = total_unflushed, frozen_cf_sizes = frozen_sizes,
                     write_buffer_size = wbs \<rparr>)))"

text \<open>
  The loop of \<open>append_batch\<close>: sum the lengths, draw a key from the counter, add the put.
\<close>

fun append_loop :: "string \<Rightarrow> bytes list \<Rightarrow> u64 \<Rightarrow> u64 \<Rightarrow> put list \<Rightarrow> put list \<times> u64 \<times> u64" where
  "append_loop cf [] c n batch = (batch, n, c)"
| "append_loop cf (value # values) c n batch =
     append_loop cf values (c + 1) (n + of_nat (length value))
       (batch @ [(cf, to_be_bytes c, value)])"

text \<open>
  \<open>append_batch\<close> after the name of the active family has been read: the part that runs under
  the read lock of the database.
\<close>

definition append_to_cf ::
    "('p, 'd) rocksdb \<Rightarrow> string \<Rightarrow> bytes list \<Rightarrow> 'd rocks_store \<Rightarrow> bool result \<times> 'd rocks_store" where
  "append_to_cf A cf_name values s =
     (if \<not> cf_handle A (db s) cf_name then (Err [''CF '' @ quoted cf_name @ '' not found''], s)
      else
        (let (batch, batch_bytes, counter') = append_loop cf_name values (counter s) 0 [];
             (r, d') = write_opt A (db s) batch (sync_writes s);
             s1 = s\<lparr>db := d', counter := counter'\<rparr>
         in case r of
              Inl e \<Rightarrow> (Err e, s1)
            | Inr _ \<Rightarrow>
                (let new_size = active_cf_bytes s + batch_bytes
                 in (Ok (active_cf_size_limit s \<le> new_size),
                     s1\<lparr>active_cf_bytes := new_size,
                        unflushed_bytes := unflushed_bytes s + batch_bytes\<rparr>))))"

definition append_batch ::
    "('p, 'd) rocksdb \<Rightarrow> bytes list \<Rightarrow> 'd rocks_store \<Rightarrow> bool result \<times> 'd rocks_store" where
  "append_batch A values s =
     (if values = [] then (Ok False, s) else append_to_cf A (active_cf s) values s)"

definition rotated_cf_name :: "nat \<Rightarrow> string" where
  "rotated_cf_name now_micros = ''active_'' @ show_nat now_micros"

definition rotate ::
    "('p, 'd) rocksdb \<Rightarrow> (u64 \<Rightarrow> u64) \<Rightarrow> nat \<Rightarrow> 'd rocks_store \<Rightarrow> string result \<times> 'd rocks_store" where
  "rotate A gen_range now_micros s =
     (let frozen = active_cf s;
          new_cf = rotated_cf_name now_micros;
          (r, d') = create_cf A (db s) new_cf (make_cf_opts (write_buffer_size s))
      in case r of
           Inl e \<Rightarrow> (Err e, s\<lparr>db := d'\<rparr>)
         | Inr _ \<Rightarrow>
             (Ok frozen,
              reset_size_limit gen_range
                (s\<lparr>db := d', active_cf := new_cf, active_cf_bytes := 0,
                   frozen_cf_sizes := AList.update frozen (active_cf_bytes s) (frozen_cf_sizes s)\<rparr>)))"

definition get_orphaned_cfs :: "'d rocks_store \<Rightarrow> string list \<times> 'd rocks_store" where
  "get_orphaned_cfs s = (orphaned_cfs s, s\<lparr>orphaned_cfs := []\<rparr>)"

definition retain_frozen_cf :: "string \<Rightarrow> 'd rocks_store \<Rightarrow> 'd rocks_store" where
  "retain_frozen_cf n s = s\<lparr>orphaned_cfs := orphaned_cfs s @ [n]\<rparr>"

definition retained_cf_count :: "'d rocks_store \<Rightarrow> nat" where
  "retained_cf_count s = length (orphaned_cfs s)"

text \<open>
  The loop of \<open>iterate_cf\<close> over the iterator's items, with a callback that updates the state
  \<open>'x\<close> it captures: it stops at the first error of the iterator or of the callback.
\<close>

fun iterate_items ::
    "(bytes \<Rightarrow> 'x \<Rightarrow> unit result \<times> 'x) \<Rightarrow> kv result list \<Rightarrow> 'x \<Rightarrow> unit result \<times> 'x" where
  "iterate_items f [] x = (Ok (), x)"
| "iterate_items f (Inl e # items) x = (Err e, x)"
| "iterate_items f (Inr (k, v) # items) x =
     (case f v x of
        (Inl e, x') \<Rightarrow> (Err e, x')
      | (Inr _, x') \<Rightarrow> iterate_items f items x')"

definition iterate_cf ::
    "('p, 'd) rocksdb \<Rightarrow> 'd rocks_store \<Rightarrow> string \<Rightarrow>
     (bytes \<Rightarrow> 'x \<Rightarrow> unit result \<times> 'x) \<Rightarrow> 'x \<Rightarrow> unit result \<times> 'x" where
  "iterate_cf A s n f x =
     (if \<not> cf_handle A (db s) n then (Err [''CF '' @ quoted n @ '' not found''], x)
      else iterate_items f (iterator_start A (db s) n) x)"

definition drop_frozen_cf ::
    "('p, 'd) rocksdb \<Rightarrow> string \<Rightarrow> 'd rocks_store \<Rightarrow> unit result \<times> 'd rocks_store" where
  "drop_frozen_cf A n s =
     (case drop_cf A (db s) n of
        (Inl e, d') \<Rightarrow> (Err e, s\<lparr>db := d'\<rparr>)
      | (Inr _, d') \<Rightarrow>
          (let s1 = s\<lparr>db := d', frozen_cf_sizes := AList.delete n (frozen_cf_sizes s)\<rparr>
           in case map_of (frozen_cf_sizes s) n of
                Some sz \<Rightarrow> (Ok (), s1\<lparr>unflushed_bytes := unflushed_bytes s - sz\<rparr>)
              | None \<Rightarrow> (Ok (), s1)))"

definition total_unflushed_bytes :: "'d rocks_store \<Rightarrow> u64" where
  "total_unflushed_bytes s = unflushed_bytes s"

section \<open>What RocksDB promises\<close>

text \<open>
  \<open>contents d\<close> is the data of the open database \<open>d\<close>: the bindings of each existing column
  family in key order. Writes are atomic: a batch that fails changes nothing. Creating a family
  that exists is an error. An iterator yields the bindings in bytewise key order, or a part of
  them and then an error.
\<close>

type_synonym 'd contents = "'d \<Rightarrow> string \<Rightarrow> kv list option"

fun apply_puts :: "put list \<Rightarrow> (string \<Rightarrow> kv list option) \<Rightarrow> string \<Rightarrow> kv list option" where
  "apply_puts [] m = m"
| "apply_puts ((cf, k, v) # ps) m = apply_puts ps (m(cf := map_option (put_kv k v) (m cf)))"

definition handle_law :: "('p, 'd) rocksdb \<Rightarrow> 'd contents \<Rightarrow> bool" where
  "handle_law A contents \<longleftrightarrow> (\<forall>d n. cf_handle A d n = (contents d n \<noteq> None))"

definition create_law :: "('p, 'd) rocksdb \<Rightarrow> 'd contents \<Rightarrow> bool" where
  "create_law A contents \<longleftrightarrow>
     (\<forall>d n opts r d'. create_cf A d n opts = (r, d') \<longrightarrow>
        (if is_ok r then contents d n = None \<and> contents d' = (contents d)(n \<mapsto> [])
         else contents d' = contents d))"

definition drop_law :: "('p, 'd) rocksdb \<Rightarrow> 'd contents \<Rightarrow> bool" where
  "drop_law A contents \<longleftrightarrow>
     (\<forall>d n r d'. drop_cf A d n = (r, d') \<longrightarrow>
        contents d' = (if is_ok r then (contents d)(n := None) else contents d))"

definition write_law :: "('p, 'd) rocksdb \<Rightarrow> 'd contents \<Rightarrow> bool" where
  "write_law A contents \<longleftrightarrow>
     (\<forall>d puts sync r d'. write_opt A d puts sync = (r, d') \<longrightarrow>
        contents d' = (if is_ok r then apply_puts puts (contents d) else contents d))"

definition scan_law :: "('p, 'd) rocksdb \<Rightarrow> 'd contents \<Rightarrow> bool" where
  "scan_law A contents \<longleftrightarrow>
     (\<forall>d n kvs. contents d n = Some kvs \<longrightarrow>
        iterator_start A d n = map Inr kvs \<or>
        (\<exists>k e. iterator_start A d n = map Inr (take k kvs) @ [Inl e]))"

definition rocksdb_laws :: "('p, 'd) rocksdb \<Rightarrow> 'd contents \<Rightarrow> bool" where
  "rocksdb_laws A contents \<longleftrightarrow>
     handle_law A contents \<and> create_law A contents \<and> drop_law A contents \<and>
     write_law A contents \<and> scan_law A contents"

text \<open>
  Opening a database: the listed families are those on disk, and the open database has their
  data, in key order, and an empty family for every other name it was opened with. A read of
  the last binding sees it when the family has one.
\<close>

definition open_law ::
    "('p, 'd) rocksdb \<Rightarrow> 'd contents \<Rightarrow> 'p \<Rightarrow> (string \<Rightarrow> kv list option) \<Rightarrow> bool" where
  "open_law A contents path disk \<longleftrightarrow>
     (\<forall>names. list_cf A path = Ok names \<longrightarrow> set names = dom disk \<and> distinct names) \<and>
     (\<forall>opts descs d. open_cf_descriptors A opts path descs = Ok d \<longrightarrow>
        (\<forall>n. contents d n =
           (case disk n of
              Some kvs \<Rightarrow> Some kvs
            | None \<Rightarrow> if n \<in> fst ` set descs \<or> n = ''default'' then Some [] else None)) \<and>
        (\<forall>n kvs. disk n = Some kvs \<longrightarrow> sorted_wrt (<) (map fst kvs) \<and>
           (kvs \<noteq> [] \<longrightarrow> (\<exists>items. iterator_end A d n = Inr (last kvs) # items))))"

lemma cf_handle_iff: "rocksdb_laws A contents \<Longrightarrow> cf_handle A d n \<longleftrightarrow> contents d n \<noteq> None"
  by (simp add: rocksdb_laws_def handle_law_def)

lemma create_cf_contents:
  assumes "rocksdb_laws A contents" and "create_cf A d n opts = (r, d')"
  shows "contents d' = (if is_ok r then (contents d)(n \<mapsto> []) else contents d)"
    and "is_ok r \<Longrightarrow> contents d n = None"
  using assms unfolding rocksdb_laws_def create_law_def by presburger+

lemma drop_cf_contents:
  assumes "rocksdb_laws A contents" and "drop_cf A d n = (r, d')"
  shows "contents d' = (if is_ok r then (contents d)(n := None) else contents d)"
  using assms unfolding rocksdb_laws_def drop_law_def by blast

lemma write_opt_contents:
  assumes "rocksdb_laws A contents" and "write_opt A d puts sync = (r, d')"
  shows "contents d' = (if is_ok r then apply_puts puts (contents d) else contents d)"
  using assms unfolding rocksdb_laws_def write_law_def by blast

lemma iterator_start_cases:
  assumes "rocksdb_laws A contents" and "contents d n = Some kvs"
  obtains "iterator_start A d n = map Inr kvs"
    | k e where "iterator_start A d n = map Inr (take k kvs) @ [Inl e]"
  using assms unfolding rocksdb_laws_def scan_law_def by blast

section \<open>The batch of an append\<close>

fun keyed :: "u64 \<Rightarrow> bytes list \<Rightarrow> kv list" where
  "keyed c [] = []"
| "keyed c (v # vs) = (to_be_bytes c, v) # keyed (c + 1) vs"

lemma append_loop_eq:
  "append_loop cf vs c n batch =
     (batch @ map (Pair cf) (keyed c vs), n + of_nat (sum_list (map length vs)), c + of_nat (length vs))"
  by (induction cf vs c n batch rule: append_loop.induct) (simp_all add: algebra_simps)

lemma snd_keyed [simp]: "map snd (keyed c vs) = vs"
  by (induction c vs rule: keyed.induct) auto

text \<open>Every key of a family is below the next key to be drawn.\<close>

definition keys_below :: "u64 \<Rightarrow> kv list \<Rightarrow> bool" where
  "keys_below c kvs \<longleftrightarrow> (\<forall>(k, v) \<in> set kvs. k < to_be_bytes c)"

lemma keys_below_Nil [simp]: "keys_below c []"
  by (simp add: keys_below_def)

lemma keys_below_snoc:
  assumes "keys_below c kvs" and "unat c + 1 < 2 ^ 64"
  shows "keys_below (c + 1) (kvs @ [(to_be_bytes c, v)])"
proof -
  have "c < c + 1" using unat_Suc_u64 [of c 1] assms(2) by (simp add: word_less_nat_alt)
  then have "to_be_bytes c < to_be_bytes (c + 1)" by simp
  with assms(1) show ?thesis unfolding keys_below_def by (auto intro: less_trans)
qed

lemma apply_puts_keyed:
  "m cf = Some kvs \<Longrightarrow> keys_below c kvs \<Longrightarrow> unat c + length vs < 2 ^ 64 \<Longrightarrow>
   apply_puts (map (Pair cf) (keyed c vs)) m = m(cf \<mapsto> kvs @ keyed c vs) \<and>
   keys_below (c + of_nat (length vs)) (kvs @ keyed c vs)"
proof (induction c vs arbitrary: m kvs rule: keyed.induct)
  case (1 c)
  then show ?case by (auto simp: fun_eq_iff)
next
  case (2 c v vs)
  have put: "put_kv (to_be_bytes c) v kvs = kvs @ [(to_be_bytes c, v)]"
    using "2.prems"(2) by (intro put_kv_last) (auto simp: keys_below_def)
  let ?kvs = "kvs @ [(to_be_bytes c, v)]"
  have "unat (c + 1) = unat c + 1"
    using unat_Suc_u64 [of c 1] "2.prems"(3) by simp
  then have "unat (c + 1) + length vs < 2 ^ 64" using "2.prems"(3) by simp
  moreover have "keys_below (c + 1) ?kvs" using "2.prems" by (intro keys_below_snoc) auto
  ultimately have
    "apply_puts (map (Pair cf) (keyed (c + 1) vs)) (m(cf \<mapsto> ?kvs)) =
       (m(cf \<mapsto> ?kvs))(cf \<mapsto> ?kvs @ keyed (c + 1) vs) \<and>
     keys_below (c + 1 + of_nat (length vs)) (?kvs @ keyed (c + 1) vs)"
    by (intro "2.IH") simp_all
  then show ?case using "2.prems"(1) put by (simp add: add.assoc)
qed

section \<open>The invariant of the store\<close>

text \<open>
  The active family exists and holds only keys below the counter; the sizes of frozen families
  are recorded once per family, for existing families other than the active one; and the total
  of unflushed bytes is the size of the active family plus the recorded sizes.
\<close>

definition store_inv :: "'d contents \<Rightarrow> 'd rocks_store \<Rightarrow> bool" where
  "store_inv contents s \<longleftrightarrow>
     (\<exists>kvs. contents (db s) (active_cf s) = Some kvs \<and> keys_below (counter s) kvs) \<and>
     distinct (map fst (frozen_cf_sizes s)) \<and>
     active_cf s \<notin> keys_of (frozen_cf_sizes s) \<and>
     (\<forall>n \<in> keys_of (frozen_cf_sizes s). contents (db s) n \<noteq> None) \<and>
     unflushed_bytes s = active_cf_bytes s + total_of (frozen_cf_sizes s)"

text \<open>The values of a family, in the order in which an iterator visits them.\<close>

definition cf_values :: "'d contents \<Rightarrow> 'd rocks_store \<Rightarrow> string \<Rightarrow> bytes list" where
  "cf_values contents s n = (case contents (db s) n of None \<Rightarrow> [] | Some kvs \<Rightarrow> map snd kvs)"

lemma keys_below_mono: "keys_below c kvs \<Longrightarrow> c \<le> c' \<Longrightarrow> keys_below c' kvs"
  unfolding keys_below_def by (fastforce simp: le_less intro: less_trans)

lemma counter_mono:
  "unat (c :: u64) + n < 2 ^ 64 \<Longrightarrow> c \<le> c + of_nat n"
  by (simp add: word_le_nat_alt unat_Suc_u64)

text \<open>
  A write to any family whose keys are below the counter, the active one or one that was active
  when its name was read.
\<close>

lemma append_to_cf_cases:
  assumes laws: "rocksdb_laws A contents" and inv: "store_inv contents s"
    and room: "unat (counter s) + length values < 2 ^ 64"
    and below: "\<And>kvs. contents (db s) n = Some kvs \<Longrightarrow> keys_below (counter s) kvs"
    and run: "append_to_cf A n values s = (r, s')"
  shows "active_cf s' = active_cf s \<and> orphaned_cfs s' = orphaned_cfs s \<and>
         frozen_cf_sizes s' = frozen_cf_sizes s \<and>
         active_cf_size_limit s' = active_cf_size_limit s \<and>
         counter s' = (if contents (db s) n = None then counter s else counter s + of_nat (length values)) \<and>
         store_inv contents s' \<and>
         (case r of
            Inl e \<Rightarrow> contents (db s') = contents (db s)
          | Inr full \<Rightarrow>
              (\<exists>kvs. contents (db s) n = Some kvs \<and>
                contents (db s') = (contents (db s))(n \<mapsto> kvs @ keyed (counter s) values) \<and>
                keys_below (counter s') (kvs @ keyed (counter s) values)) \<and>
              active_cf_bytes s' = active_cf_bytes s + of_nat (sum_list (map length values)) \<and>
              full = (active_cf_size_limit s \<le> active_cf_bytes s'))"
proof (cases "contents (db s) n")
  case None
  then show ?thesis
    using run inv cf_handle_iff [OF laws] by (auto simp: append_to_cf_def)
next
  case (Some kvs)
  let ?c = "counter s + of_nat (length values)" and ?size = "of_nat (sum_list (map length values))"
  define puts where "puts = map (Pair n) (keyed (counter s) values)"
  obtain w d' where w: "write_opt A (db s) puts (sync_writes s) = (w, d')" by force
  have puts: "apply_puts puts (contents (db s)) = (contents (db s))(n \<mapsto> kvs @ keyed (counter s) values)"
    and below': "keys_below ?c (kvs @ keyed (counter s) values)"
    using apply_puts_keyed [of "contents (db s)", OF Some below [OF Some] room] by (simp_all add: puts_def)
  obtain akvs where active: "contents (db s) (active_cf s) = Some akvs" "keys_below ?c akvs"
    using inv keys_below_mono [OF _ counter_mono [OF room]] by (auto simp: store_inv_def)
  have step: "append_to_cf A n values s =
      (let s1 = s\<lparr>db := d', counter := ?c\<rparr>; new_size = active_cf_bytes s + ?size
       in case w of
            Inl e \<Rightarrow> (Err e, s1)
          | Inr _ \<Rightarrow> (Ok (active_cf_size_limit s \<le> new_size),
              s1\<lparr>active_cf_bytes := new_size, unflushed_bytes := unflushed_bytes s + ?size\<rparr>))"
    using Some w cf_handle_iff [OF laws]
    by (simp add: append_to_cf_def append_loop_eq puts_def Let_def split: sum.splits)
  show ?thesis
  proof (cases w)
    case (Inl e)
    then have "contents d' = contents (db s)" using write_opt_contents [OF laws w] by simp
    with Inl step run inv Some active show ?thesis by (auto simp: store_inv_def)
  next
    case (Inr u)
    then have d': "contents d' = (contents (db s))(n \<mapsto> kvs @ keyed (counter s) values)"
      using write_opt_contents [OF laws w] puts by simp
    have "store_inv contents (s\<lparr>db := d', counter := ?c, active_cf_bytes := active_cf_bytes s + ?size,
        unflushed_bytes := unflushed_bytes s + ?size\<rparr>)"
      using inv active below' Some by (auto simp: store_inv_def d' algebra_simps)
    with Inr step run Some d' below' show ?thesis by (auto simp: Let_def)
  qed
qed

lemma append_batch_cases:
  assumes "rocksdb_laws A contents" and "store_inv contents s"
    and "unat (counter s) + length values < 2 ^ 64"
    and "append_batch A values s = (r, s')"
  shows "active_cf s' = active_cf s \<and> orphaned_cfs s' = orphaned_cfs s \<and>
         frozen_cf_sizes s' = frozen_cf_sizes s \<and>
         active_cf_size_limit s' = active_cf_size_limit s \<and>
         counter s' = counter s + of_nat (length values) \<and>
         store_inv contents s' \<and>
         (case r of
            Inl e \<Rightarrow> contents (db s') = contents (db s)
          | Inr full \<Rightarrow>
              (\<exists>kvs. contents (db s) (active_cf s) = Some kvs \<and>
                contents (db s') = (contents (db s))(active_cf s \<mapsto> kvs @ keyed (counter s) values)) \<and>
              active_cf_bytes s' = active_cf_bytes s + of_nat (sum_list (map length values)) \<and>
              full = (values \<noteq> [] \<and> active_cf_size_limit s \<le> active_cf_bytes s'))"
proof (cases "values = []")
  case True
  then show ?thesis
    using assms(2,4) by (auto simp: append_batch_def store_inv_def fun_eq_iff)
next
  case False
  obtain kvs where kvs: "contents (db s) (active_cf s) = Some kvs" "keys_below (counter s) kvs"
    using assms(2) by (auto simp: store_inv_def)
  have "append_to_cf A (active_cf s) values s = (r, s')"
    using assms(4) False by (simp add: append_batch_def)
  from append_to_cf_cases [OF assms(1-3) _ this] kvs False show ?thesis
    by (auto split: sum.splits)
qed

lemma reset_size_limit_frame [store_simps]:
  "db (reset_size_limit g s) = db s"
  "active_cf (reset_size_limit g s) = active_cf s"
  "counter (reset_size_limit g s) = counter s"
  "active_cf_bytes (reset_size_limit g s) = active_cf_bytes s"
  "orphaned_cfs (reset_size_limit g s) = orphaned_cfs s"
  "unflushed_bytes (reset_size_limit g s) = unflushed_bytes s"
  "frozen_cf_sizes (reset_size_limit g s) = frozen_cf_sizes s"
  "sync_writes (reset_size_limit g s) = sync_writes s"
  by (simp_all add: reset_size_limit_def Let_def)

lemma store_inv_reset [store_simps]: "store_inv contents (reset_size_limit g s) = store_inv contents s"
  by (simp add: store_inv_def store_simps)

lemma rotate_cases:
  assumes laws: "rocksdb_laws A contents" and inv: "store_inv contents s"
    and rot: "rotate A g now s = (r, s')"
  shows "store_inv contents s' \<and> orphaned_cfs s' = orphaned_cfs s \<and>
         unflushed_bytes s' = unflushed_bytes s \<and> counter s' = counter s \<and>
         (case r of
            Inl e \<Rightarrow> contents (db s') = contents (db s) \<and> active_cf s' = active_cf s
          | Inr frozen \<Rightarrow>
              frozen = active_cf s \<and> active_cf s' = rotated_cf_name now \<and>
              contents (db s) (active_cf s') = None \<and>
              contents (db s') = (contents (db s))(active_cf s' \<mapsto> []) \<and>
              map_of (frozen_cf_sizes s') frozen = Some (active_cf_bytes s))"
proof -
  let ?new = "rotated_cf_name now"
  obtain c d' where c: "create_cf A (db s) ?new (make_cf_opts (write_buffer_size s)) = (c, d')"
    by force
  note created = create_cf_contents [OF laws c]
  show ?thesis
  proof (cases c)
    case (Inl e)
    then show ?thesis
      using rot inv c created by (auto simp: rotate_def store_inv_def Let_def)
  next
    case (Inr u)
    then have none: "contents (db s) ?new = None"
      and d': "contents d' = (contents (db s))(?new \<mapsto> [])" using created by simp_all
    have active: "contents (db s) (active_cf s) \<noteq> None"
      and fresh: "active_cf s \<notin> keys_of (frozen_cf_sizes s)"
      using inv by (auto simp: store_inv_def)
    define s1 where "s1 = s\<lparr>db := d', active_cf := ?new, active_cf_bytes := 0,
      frozen_cf_sizes := AList.update (active_cf s) (active_cf_bytes s) (frozen_cf_sizes s)\<rparr>"
    have out: "r = Ok (active_cf s)" "s' = reset_size_limit g s1"
      using rot c Inr by (auto simp: rotate_def Let_def s1_def)
    have "store_inv contents s1"
      using inv none d' active fresh
      by (auto simp: store_inv_def s1_def total_of_update_new distinct_update)
    then show ?thesis
      by (simp add: out store_simps) (simp add: s1_def none d' update_conv)
  qed
qed

lemma drop_frozen_cf_cases:
  assumes laws: "rocksdb_laws A contents" and inv: "store_inv contents s"
    and n: "n \<noteq> active_cf s" and drop: "drop_frozen_cf A n s = (r, s')"
  shows "store_inv contents s' \<and> orphaned_cfs s' = orphaned_cfs s \<and>
         active_cf s' = active_cf s \<and> counter s' = counter s \<and>
         active_cf_bytes s' = active_cf_bytes s \<and>
         contents (db s') = (if is_ok r then (contents (db s))(n := None) else contents (db s))"
proof -
  obtain c d' where c: "drop_cf A (db s) n = (c, d')" by force
  note dropped = drop_cf_contents [OF laws c]
  show ?thesis
  proof (cases "c")
    case (Inl e)
    then show ?thesis
      using drop inv c dropped by (auto simp: drop_frozen_cf_def store_inv_def)
  next
    case (Inr u)
    then have d': "contents d' = (contents (db s))(n := None)" using dropped by simp
    show ?thesis
    proof (cases "map_of (frozen_cf_sizes s) n")
      case None
      then have "n \<notin> keys_of (frozen_cf_sizes s)" by simp
      then show ?thesis
        using drop inv c Inr d' n None
        by (auto simp: drop_frozen_cf_def store_inv_def delete_notin)
    next
      case (Some sz)
      then have "total_of (AList.delete n (frozen_cf_sizes s)) = total_of (frozen_cf_sizes s) - sz"
        using inv by (intro total_of_delete) (auto simp: store_inv_def)
      then show ?thesis
        using drop inv c Inr d' n Some
        by (auto simp: drop_frozen_cf_def store_inv_def distinct_delete)
    qed
  qed
qed

lemma retain_frozen_cf_frame [store_simps]:
  "db (retain_frozen_cf n s) = db s"
  "active_cf (retain_frozen_cf n s) = active_cf s"
  "store_inv contents (retain_frozen_cf n s) = store_inv contents s"
  by (simp_all add: retain_frozen_cf_def store_inv_def)

lemma get_orphaned_cfs_frame [store_simps]:
  "db (snd (get_orphaned_cfs s)) = db s"
  "active_cf (snd (get_orphaned_cfs s)) = active_cf s"
  "store_inv contents (snd (get_orphaned_cfs s)) = store_inv contents s"
  by (simp_all add: get_orphaned_cfs_def store_inv_def)

section \<open>Iteration\<close>

text \<open>When the callback never fails, the iteration folds it over the values read.\<close>

lemma iterate_items_fold:
  assumes "\<And>v x. is_ok (fst (f v x))"
  shows "iterate_items f (map Inr kvs @ items) x =
         iterate_items f items (fold (\<lambda>v x. snd (f v x)) (map snd kvs) x)"
proof (induction kvs arbitrary: x)
  case (Cons kv kvs)
  obtain k v where kv: "kv = (k, v)" by force
  obtain r x' where f: "f v x = (r, x')" by force
  then have "is_ok r" using assms [of v x] by simp
  with Cons f kv show ?case by (cases r) auto
qed simp

section \<open>Opening a store\<close>

lemma active_cf_timestamp_default: "active_cf_timestamp ''default'' = None"
  by (simp add: active_cf_timestamp_def strip_prefix_def starts_with_def)

lemma rotated_cf_name_neq_initial: "rotated_cf_name now \<noteq> ''active''"
  by (simp add: rotated_cf_name_def)

lemma active_cf_timestamp_rotated:
  "now < 2 ^ 64 \<Longrightarrow> active_cf_timestamp (rotated_cf_name now) = Some (of_nat now)"
proof -
  assume "now < 2 ^ 64"
  then have "active_cf_timestamp (rotated_cf_name now) = parse_u64 (show_nat now)"
    using rotated_cf_name_neq_initial [of now]
    by (simp only: active_cf_timestamp_def rotated_cf_name_def strip_prefix_append) simp
  with \<open>now < 2 ^ 64\<close> show ?thesis by (simp add: parse_u64_show_nat)
qed

definition engine_cfs :: "string list \<Rightarrow> string list" where
  "engine_cfs cfs = filter (\<lambda>n. active_cf_timestamp n \<noteq> None) cfs"

lemma cf_candidates_alt:
  "cf_candidates cfs = sort_key fst (map (\<lambda>n. (the (active_cf_timestamp n), n)) (engine_cfs cfs))"
  unfolding cf_candidates_def engine_cfs_def
  by (intro arg_cong [where f = "sort_key fst"] arg_cong [where f = "map _"] filter_cong)
    (auto simp: active_cf_timestamp_default)

lemma cf_candidates_mset: "mset (map snd (cf_candidates cfs)) = mset (engine_cfs cfs)"
  by (simp add: cf_candidates_alt image_mset.compositionality o_def)

lemma cf_candidates_ts: "map fst (cf_candidates cfs) = map (\<lambda>n. the (active_cf_timestamp n)) (map snd (cf_candidates cfs))"
proof -
  have "\<forall>p \<in> set (cf_candidates cfs). fst p = the (active_cf_timestamp (snd p))"
    by (auto simp: cf_candidates_alt)
  then show ?thesis by (simp add: o_def)
qed

lemma select_cfs_spec:
  assumes "engine_cfs cfs \<noteq> []" and "select_cfs cfs = (a, orphans)"
  shows "mset (orphans @ [a]) = mset (engine_cfs cfs) \<and>
         sorted (map (\<lambda>n. the (active_cf_timestamp n)) (orphans @ [a]))"
proof -
  let ?cs = "cf_candidates cfs"
  have "length ?cs = length (engine_cfs cfs)"
    using arg_cong [OF cf_candidates_mset, of size] by simp
  then have ne: "?cs \<noteq> []" using assms(1) by auto
  have "orphans @ [a] = map snd (butlast ?cs @ [last ?cs])"
    using assms(2) ne by (auto simp: select_cfs_def Let_def butlast_conv_take)
  then have "orphans @ [a] = map snd ?cs" using ne by simp
  moreover have "sorted (map fst ?cs)" by (simp add: cf_candidates_alt)
  ultimately show ?thesis using cf_candidates_mset [of cfs] cf_candidates_ts [of cfs] by simp
qed

lemma fold_update_sizes:
  "distinct ns \<Longrightarrow> set ns \<inter> keys_of m = {} \<Longrightarrow> distinct (map fst m) \<Longrightarrow>
   keys_of (fold (\<lambda>n m. AList.update n sz m) ns m) = set ns \<union> keys_of m \<and>
   distinct (map fst (fold (\<lambda>n m. AList.update n sz m) ns m)) \<and>
   total_of (fold (\<lambda>n m. AList.update n sz m) ns m) = of_nat (length ns) * sz + total_of m"
proof (induction ns arbitrary: m)
  case (Cons n ns)
  then have "n \<notin> keys_of m" by auto
  with Cons.prems Cons.IH [of "AList.update n sz m"] show ?case
    by (auto simp: total_of_update_new distinct_update algebra_simps)
qed simp

lemma keys_below_max:
  assumes "sorted_wrt (<) (map fst kvs)" and "\<forall>(k, v) \<in> set kvs. length k = 8 \<and> k \<noteq> to_be_bytes (- 1)"
    and "kvs \<noteq> []"
  shows "keys_below (u64_from_be_bytes (fst (last kvs)) + 1) kvs"
proof -
  let ?k = "fst (last kvs)" and ?m = "u64_from_be_bytes (fst (last kvs))"
  have "last kvs \<in> set kvs" using assms(3) by simp
  then have k: "length ?k = 8" "?k \<noteq> to_be_bytes (- 1)" using assms(2) by (auto simp: split_beta)
  then have m: "to_be_bytes ?m = ?k" by (simp add: to_from_be_bytes)
  then have "?m \<noteq> - 1" using k by auto
  then have "?m < ?m + 1" by (rule u64_less_Suc)
  then have less: "?k < to_be_bytes (?m + 1)" using m to_be_bytes_less by metis
  obtain ys where ys: "kvs = ys @ [last kvs]" using assms(3) by (metis append_butlast_last_id)
  have "sorted_wrt (<) (map fst ys @ [?k])" using assms(1) by (subst (asm) ys) simp
  then have "\<forall>k \<in> set (map fst ys). k < ?k" by (simp add: sorted_wrt_append)
  moreover have "set kvs = insert (last kvs) (set ys)" by (subst ys) simp
  ultimately have "k \<le> ?k" if "(k, v) \<in> set kvs" for k v
    using that by (cases "last kvs") (auto intro: less_imp_le)
  then show ?thesis using less by (auto simp: keys_below_def intro: le_less_trans)
qed

text \<open>The families a store is opened with: those on disk, or the initial one for a new path.\<close>

definition opened_cfs :: "('p, 'd) rocksdb \<Rightarrow> 'p \<Rightarrow> string list" where
  "opened_cfs A path = (case list_cf A path of Inr names \<Rightarrow> names | Inl _ \<Rightarrow> [INITIAL_CF])"

text \<open>
  What a path must look like: it was written by this engine, so it holds one of its families
  and every key in them is an eight-byte counter value below the last one, or it is new.
\<close>

definition engine_path :: "('p, 'd) rocksdb \<Rightarrow> 'p \<Rightarrow> (string \<Rightarrow> kv list option) \<Rightarrow> bool" where
  "engine_path A path disk \<longleftrightarrow>
     (case list_cf A path of
        Inl _ \<Rightarrow> disk = Map.empty
      | Inr names \<Rightarrow> engine_cfs names \<noteq> []) \<and>
     (\<forall>n kvs. disk n = Some kvs \<longrightarrow>
        (\<forall>(k, v) \<in> set kvs. length k = 8 \<and> k \<noteq> to_be_bytes (- 1)))"

lemma opened_cfs_spec:
  assumes "open_law A contents path disk" and "engine_path A path disk"
  shows "distinct (opened_cfs A path)" and "engine_cfs (opened_cfs A path) \<noteq> []"
proof -
  have initial: "active_cf_timestamp INITIAL_CF \<noteq> None"
    by (simp add: active_cf_timestamp_def INITIAL_CF_def)
  show "distinct (opened_cfs A path)" and "engine_cfs (opened_cfs A path) \<noteq> []"
    using assms initial unfolding open_law_def engine_path_def opened_cfs_def
    by (auto simp: engine_cfs_def split: sum.splits)
qed

lemma new_fields:
  assumes "new A g path fs fj sync wbs = Ok s"
    and "select_cfs (opened_cfs A path) = (a, orphans)"
  shows "open_cf_descriptors A make_db_opts path (map (\<lambda>n. (n, make_cf_opts wbs)) (opened_cfs A path)) = Ok (db s)"
    and "active_cf s = a" and "orphaned_cfs s = orphans"
    and "counter s = max_key A (db s) a + 1" and "active_cf_bytes s = 0"
    and "unflushed_bytes s = of_nat (length orphans) * fs"
    and "frozen_cf_sizes s = fold (\<lambda>n m. AList.update n fs m) orphans []"
  using assms unfolding new_def opened_cfs_def [symmetric]
  by (auto simp: Let_def store_simps split: sum.splits prod.splits)

lemma keys_below_new:
  assumes laws: "rocksdb_laws A contents" and opn: "open_law A contents path disk"
    and path: "engine_path A path disk"
    and d: "open_cf_descriptors A opts path descs = Ok d"
    and n: "n \<in> fst ` set descs"
  shows "\<exists>kvs. contents d n = Some kvs \<and> keys_below (max_key A d n + 1) kvs"
proof (cases "disk n")
  case None
  then have "contents d n = Some []" using opn d n unfolding open_law_def by auto
  then show ?thesis by simp
next
  case (Some kvs)
  then have kvs: "contents d n = Some kvs" "sorted_wrt (<) (map fst kvs)"
    and last: "kvs \<noteq> [] \<Longrightarrow> \<exists>items. iterator_end A d n = Inr (last kvs) # items"
    using opn d unfolding open_law_def by auto
  have keys: "\<forall>(k, v) \<in> set kvs. length k = 8 \<and> k \<noteq> to_be_bytes (- 1)"
    using path Some unfolding engine_path_def by auto
  show ?thesis
  proof (cases "kvs = []")
    case True
    with kvs show ?thesis by simp
  next
    case False
    then obtain items where items: "iterator_end A d n = Inr (last kvs) # items" using last by blast
    have "last kvs \<in> set kvs" using False by simp
    then have "length (fst (last kvs)) = 8" using keys by (auto simp: split_beta)
    then have "max_key A d n = u64_from_be_bytes (fst (last kvs))"
      using kvs(1) items cf_handle_iff [OF laws] by (simp add: max_key_def split_beta)
    then show ?thesis using kvs keys_below_max [OF kvs(2) keys False] by simp
  qed
qed

text \<open>The active family and the orphans of an opened store are different, existing families.\<close>

lemma new_families:
  assumes laws: "rocksdb_laws A contents" and opn: "open_law A contents path disk"
    and path: "engine_path A path disk" and new: "new A g path fs fj sync wbs = Ok s"
  shows "distinct (active_cf s # orphaned_cfs s)"
    and "n \<in> set (active_cf s # orphaned_cfs s) \<Longrightarrow>
      \<exists>kvs. contents (db s) n = Some kvs \<and> keys_below (max_key A (db s) n + 1) kvs"
proof -
  obtain a orphans where sel: "select_cfs (opened_cfs A path) = (a, orphans)" by force
  note fields = new_fields [OF new sel]
  note cfs = opened_cfs_spec [OF opn path]
  have ms: "mset (orphans @ [a]) = mset (engine_cfs (opened_cfs A path))"
    using select_cfs_spec [OF cfs(2) sel] by blast
  then have "set (orphans @ [a]) \<subseteq> set (opened_cfs A path)"
    using mset_eq_setD [OF ms] by (auto simp: engine_cfs_def)
  moreover have "distinct (orphans @ [a])"
    using cfs(1) mset_eq_imp_distinct_iff [OF ms] by (simp add: engine_cfs_def)
  ultimately have sub: "insert a (set orphans) \<subseteq> set (opened_cfs A path)" and
    dist: "distinct orphans" "a \<notin> set orphans" by auto
  show "distinct (active_cf s # orphaned_cfs s)" using dist by (simp add: fields)
  show "\<exists>kvs. contents (db s) n = Some kvs \<and> keys_below (max_key A (db s) n + 1) kvs"
    if "n \<in> set (active_cf s # orphaned_cfs s)"
    using that sub
    by (intro keys_below_new [OF laws opn path fields(1)]) (auto simp: image_image fields)
qed

lemma new_store_inv:
  assumes laws: "rocksdb_laws A contents" and opn: "open_law A contents path disk"
    and path: "engine_path A path disk" and new: "new A g path fs fj sync wbs = Ok s"
  shows "store_inv contents s"
proof -
  obtain a orphans where sel: "select_cfs (opened_cfs A path) = (a, orphans)" by force
  note fields = new_fields [OF new sel]
  note fams = new_families [OF assms, unfolded fields(2,3)]
  show ?thesis
    using fams(2) [of a] fams fold_update_sizes [of orphans "[]" fs]
    by (fastforce simp: store_inv_def fields(2-7))
qed

text \<open>
  They are all the families of the engine in the database, which has what was on disk; its keys are
  counter values below the last one.
\<close>

definition counter_keys :: "kv list \<Rightarrow> bool" where
  "counter_keys kvs \<longleftrightarrow> (\<forall>(k, v) \<in> set kvs. length k = 8 \<and> k \<noteq> to_be_bytes (- 1))"

lemma counter_keys_simps [simp]:
  "counter_keys []" "counter_keys (kvs @ kvs') \<longleftrightarrow> counter_keys kvs \<and> counter_keys kvs'"
  by (auto simp: counter_keys_def)

lemma counter_keys_one: "unat (c :: u64) + 1 < 2 ^ 64 \<Longrightarrow> counter_keys (keyed c [v])"
proof -
  assume room: "unat c + 1 < 2 ^ 64"
  have "unat (- 1 :: u64) = 2 ^ 64 - 1" by (simp add: unsigned_minus_1_eq_mask mask_eq_exp_minus_1)
  with room have "c \<noteq> - 1" by auto
  then show ?thesis by (simp add: counter_keys_def)
qed

lemma new_engine_families:
  assumes laws: "rocksdb_laws A contents" and opn: "open_law A contents path disk"
    and path: "engine_path A path disk" and new: "new A g path fs fj sync wbs = Ok s"
  shows "n \<in> set (active_cf s # orphaned_cfs s) \<longleftrightarrow> contents (db s) n \<noteq> None \<and> active_cf_timestamp n \<noteq> None"
    and "disk n \<noteq> None \<Longrightarrow> contents (db s) n = disk n"
    and "contents (db s) n = Some kvs \<Longrightarrow> counter_keys kvs"
proof -
  obtain a orphans where sel: "select_cfs (opened_cfs A path) = (a, orphans)" by force
  note fields = new_fields [OF new sel]
  note cfs = opened_cfs_spec [OF opn path]
  have ms: "mset (orphans @ [a]) = mset (engine_cfs (opened_cfs A path))"
    using select_cfs_spec [OF cfs(2) sel] by blast
  have known: "set (active_cf s # orphaned_cfs s) = set (engine_cfs (opened_cfs A path))"
    using mset_eq_setD [OF ms] by (simp add: fields)
  have has: "contents (db s) n = (case disk n of Some kvs \<Rightarrow> Some kvs
      | None \<Rightarrow> if n \<in> set (opened_cfs A path) \<or> n = ''default'' then Some [] else None)" for n
    using opn fields(1) unfolding open_law_def by (fastforce simp: image_image)
  then show "disk n \<noteq> None \<Longrightarrow> contents (db s) n = disk n" by auto
  have sub: "disk n \<noteq> None \<Longrightarrow> n \<in> set (opened_cfs A path)"
    using opn path unfolding open_law_def engine_path_def opened_cfs_def by (auto split: sum.splits)
  show "n \<in> set (active_cf s # orphaned_cfs s) \<longleftrightarrow> contents (db s) n \<noteq> None \<and> active_cf_timestamp n \<noteq> None"
    unfolding known using has [of n] sub active_cf_timestamp_default
    by (auto simp: engine_cfs_def split: option.splits if_splits)
  show "contents (db s) n = Some kvs \<Longrightarrow> counter_keys kvs"
    using has [of n] path by (fastforce simp: engine_path_def counter_keys_def split: option.splits if_splits)
qed

section \<open>Interfaces\<close>

text \<open>
  The list of frozen families that await another attempt, as the flush engine uses it: taking
  the list empties it, and a family put back is found at its end.
\<close>

locale retention =
  fixes take_all :: "'s \<Rightarrow> string list \<times> 's"
    and retain :: "string \<Rightarrow> 's \<Rightarrow> 's"
    and held_count :: "'s \<Rightarrow> nat"
    and held :: "'s \<Rightarrow> string list"
  assumes fst_take_all: "fst (take_all s) = held s"
    and held_take_all: "held (snd (take_all s)) = []"
    and held_retain: "held (retain n s) = held s @ [n]"
    and held_count: "held_count s = length (held s)"
begin

lemma held_retain_all: "held (fold retain ns s) = held s @ ns"
  by (induction ns arbitrary: s) (simp_all add: held_retain)

lemma take_then_retain: "held (fold retain (fst (take_all s)) (snd (take_all s))) = held s"
  by (simp add: held_retain_all fst_take_all held_take_all)

lemma held_count_retain_all: "held_count (fold retain ns s) = held_count s + length ns"
  by (simp add: held_count held_retain_all)

end

interpretation orphans: retention get_orphaned_cfs retain_frozen_cf retained_cf_count orphaned_cfs
  by unfold_locales
    (simp_all add: get_orphaned_cfs_def retain_frozen_cf_def retained_cf_count_def)

text \<open>
  The store as an append-only log of records, as the ingest handler uses it: an append either
  fails and leaves the log alone or adds the record at its end. \<open>room\<close> bounds the number of
  appends that can follow before the 64-bit key counter runs out.
\<close>

fun append_each :: "('v \<Rightarrow> 's \<Rightarrow> 'r result \<times> 's) \<Rightarrow> 'v list \<Rightarrow> 's \<Rightarrow> 'r result list \<times> 's" where
  "append_each app [] s = ([], s)"
| "append_each app (v # vs) s =
     (let (r, s1) = app v s; (rs, s2) = append_each app vs s1 in (r # rs, s2))"

fun acked :: "'v list \<Rightarrow> 'r result list \<Rightarrow> 'v list" where
  "acked (v # vs) (r # rs) = (if is_ok r then v # acked vs rs else acked vs rs)"
| "acked vs rs = []"

locale record_log =
  fixes app :: "'v \<Rightarrow> 's \<Rightarrow> 'r result \<times> 's"
    and log :: "'s \<Rightarrow> 'v list"
    and inv :: "'s \<Rightarrow> bool"
    and room :: "'s \<Rightarrow> nat"
  assumes app_inv: "inv s \<Longrightarrow> 0 < room s \<Longrightarrow> app v s = (r, s') \<Longrightarrow> inv s'"
    and app_room: "inv s \<Longrightarrow> 0 < room s \<Longrightarrow> app v s = (r, s') \<Longrightarrow> room s \<le> Suc (room s')"
    and app_log: "inv s \<Longrightarrow> 0 < room s \<Longrightarrow> app v s = (r, s') \<Longrightarrow>
      log s' = (if is_ok r then log s @ [v] else log s)"
begin

lemma append_each_log:
  "inv s \<Longrightarrow> length vs \<le> room s \<Longrightarrow> append_each app vs s = (rs, s') \<Longrightarrow>
   inv s' \<and> log s' = log s @ acked vs rs"
proof (induction vs arbitrary: s rs)
  case (Cons v vs)
  obtain r s1 where app: "app v s = (r, s1)" by force
  obtain rs' where rest: "append_each app vs s1 = (rs', s')" and rs: "rs = r # rs'"
    using Cons.prems(3) app by (auto simp: split_beta prod_eq_iff)
  have room: "0 < room s" using Cons.prems(2) by simp
  have "inv s1" and "room s \<le> Suc (room s1)"
    and log: "log s1 = (if is_ok r then log s @ [v] else log s)"
    using app_inv app_room app_log Cons.prems(1) room app by blast+
  then have "inv s' \<and> log s' = log s1 @ acked vs rs'"
    using Cons.prems(2) rest by (intro Cons.IH) auto
  then show ?case by (simp add: log rs)
qed simp

end

lemma append_one:
  assumes "rocksdb_laws A contents" and "store_inv contents s" and "unat (counter s) + 1 < 2 ^ 64"
    and "append_batch A [v] s = (r, s')"
  shows "store_inv contents s'" and "unat (counter s') = unat (counter s) + 1"
    and "active_cf s' = active_cf s"
    and "cf_values contents s' (active_cf s') =
      (if is_ok r then cf_values contents s (active_cf s) @ [v] else cf_values contents s (active_cf s))"
proof -
  have "unat (counter s) + length [v] < 2 ^ 64" using assms(3) by simp
  note c = append_batch_cases [OF assms(1,2) this assms(4)]
  show "store_inv contents s'" and "active_cf s' = active_cf s" using c by blast+
  show "unat (counter s') = unat (counter s) + 1"
    using c unat_Suc_u64 [of "counter s" 1] assms(3) by simp
  show "cf_values contents s' (active_cf s') =
      (if is_ok r then cf_values contents s (active_cf s) @ [v] else cf_values contents s (active_cf s))"
    using c by (cases r) (auto simp: cf_values_def)
qed

interpretation buffer: record_log "\<lambda>v. append_batch A [v]"
  "\<lambda>s. cf_values contents s (active_cf s)"
  "\<lambda>s. rocksdb_laws A contents \<and> store_inv contents s"
  "\<lambda>s. 2 ^ 64 - 1 - unat (counter s)" for A contents
proof (unfold_locales, goal_cases)
  case (1 s v r s')
  then show ?case using append_one(1) [of A contents s v r s'] by simp
next
  case (2 s v r s')
  then show ?case using append_one(2) [of A contents s v r s'] by simp
next
  case (3 s v r s')
  then show ?case using append_one(4) [of A contents s v r s'] by simp
qed

section \<open>An in-memory database\<close>

text \<open>
  A database that keeps every family as a sorted list in memory and never fails otherwise than
  on a name that exists or does not exist. It satisfies the laws, so they are consistent; the
  witnesses below run the store on it.
\<close>

type_synonym mem = "string \<Rightarrow> kv list option"

definition mem_open :: "(string \<times> kv list) list \<Rightarrow> (string \<times> cf_options) list \<Rightarrow> mem" where
  "mem_open p descs n =
     (case map_of p n of
        Some kvs \<Rightarrow> Some kvs
      | None \<Rightarrow> if n \<in> fst ` set descs \<or> n = ''default'' then Some [] else None)"

definition mem_db :: "((string \<times> kv list) list, mem) rocksdb" where
  "mem_db =
     \<lparr> list_cf = (\<lambda>p. if p = [] then Err [''does not exist''] else Ok (map fst p)),
       open_cf_descriptors = (\<lambda>opts p descs. Ok (mem_open p descs)),
       cf_handle = (\<lambda>d n. d n \<noteq> None),
       create_cf = (\<lambda>d n opts. if d n = None then (Ok (), d(n \<mapsto> []))
                               else (Err [''Column family already exists''], d)),
       drop_cf = (\<lambda>d n. if d n = None then (Err [''Column family not found''], d)
                        else (Ok (), d(n := None))),
       write_opt = (\<lambda>d puts sync. (Ok (), apply_puts puts d)),
       iterator_start = (\<lambda>d n. map Inr (case d n of None \<Rightarrow> [] | Some kvs \<Rightarrow> kvs)),
       iterator_end = (\<lambda>d n. map Inr (rev (case d n of None \<Rightarrow> [] | Some kvs \<Rightarrow> kvs))) \<rparr>"

lemma mem_db_laws: "rocksdb_laws mem_db (\<lambda>d. d)"
  by (auto simp: rocksdb_laws_def handle_law_def create_law_def drop_law_def write_law_def
      scan_law_def mem_db_def split: if_splits)

definition mem_store :: "mem rocks_store" where
  "mem_store =
     \<lparr> db = [''active'' \<mapsto> [(to_be_bytes 1, [7, 8, 9])]], active_cf = ''active'', counter = 2,
       active_cf_bytes = 3, active_cf_size_limit = 5, flush_size_bytes = 4,
       flush_size_jitter_bytes = 1, orphaned_cfs = [], sync_writes = True,
       unflushed_bytes = 3, frozen_cf_sizes = [], write_buffer_size = 64 \<rparr>"

lemma mem_store_inv: "store_inv (\<lambda>d. d) mem_store"
  by (simp add: store_inv_def mem_store_def keys_below_def)

section \<open>Properties\<close>

text \<open>C16: A successful append puts the records behind those already in the active family, in
  order and overwriting none, leaves every other family alone, reports whether the family has
  reached its size limit, and keeps the invariant; a failed append changes no data.\<close>

theorem append_batch_correct:
  assumes "rocksdb_laws A contents" and "store_inv contents s"
    and "unat (counter s) + length values < 2 ^ 64" and "values \<noteq> []"
    and "append_batch A values s = (r, s')"
  shows "store_inv contents s' \<and>
    (case r of
       Inl e \<Rightarrow> \<forall>n. cf_values contents s' n = cf_values contents s n
     | Inr full \<Rightarrow>
         cf_values contents s' (active_cf s) = cf_values contents s (active_cf s) @ values \<and>
         (\<forall>n. n \<noteq> active_cf s \<longrightarrow> cf_values contents s' n = cf_values contents s n) \<and>
         full = (active_cf_size_limit s \<le> active_cf_bytes s + of_nat (sum_list (map length values))))"
  using append_batch_cases [OF assms(1-3,5)] assms(4)
  by (auto simp: cf_values_def split: sum.splits)

theorem append_batch_correct_witness:
  "fst (append_batch mem_db [[1], [2, 3]] mem_store) = Ok True \<and>
   cf_values (\<lambda>d. d) (snd (append_batch mem_db [[1], [2, 3]] mem_store)) ''active'' = [[7, 8, 9], [1], [2, 3]]"
proof -
  obtain r s' where app: "append_batch mem_db [[1], [2, 3]] mem_store = (r, s')" by force
  moreover have "r = Ok True"
    using app by (simp add: append_batch_def append_to_cf_def mem_db_def mem_store_def split: sum.splits)
  ultimately show ?thesis
    using append_batch_correct [OF mem_db_laws mem_store_inv _ _ app]
    by (simp add: mem_store_def cf_values_def)
qed

text \<open>C17: rotation freezes the active family with its data and recorded size and starts a new,
  empty one under the clock's name; when the family cannot be created nothing changes. Either
  way no record moves and the total of unflushed bytes stays.\<close>

theorem rotate_correct:
  assumes "rocksdb_laws A contents" and "store_inv contents s" and "rotate A g now s = (r, s')"
  shows "store_inv contents s' \<and>
    (\<forall>n. cf_values contents s' n = cf_values contents s n) \<and>
    total_unflushed_bytes s' = total_unflushed_bytes s \<and>
    (case r of
       Inl e \<Rightarrow> active_cf s' = active_cf s
     | Inr frozen \<Rightarrow>
         frozen = active_cf s \<and> active_cf s' \<noteq> frozen \<and>
         active_cf s' = rotated_cf_name now \<and> cf_values contents s' (active_cf s') = [] \<and>
         map_of (frozen_cf_sizes s') frozen = Some (active_cf_bytes s))"
  using rotate_cases [OF assms] assms(2)
  by (auto simp: cf_values_def total_unflushed_bytes_def store_inv_def split: sum.splits option.splits)

theorem rotate_correct_witness:
  "fst (rotate mem_db (\<lambda>hi. hi) 42 mem_store) = Ok ''active'' \<and>
   active_cf (snd (rotate mem_db (\<lambda>hi. hi) 42 mem_store)) = ''active_42'' \<and>
   cf_values (\<lambda>d. d) (snd (rotate mem_db (\<lambda>hi. hi) 42 mem_store)) ''active'' = [[7, 8, 9]]"
proof -
  obtain r s' where rot: "rotate mem_db (\<lambda>hi. hi) 42 mem_store = (r, s')" by force
  have name: "rotated_cf_name 42 = ''active_42''"
    by (simp add: rotated_cf_name_def show_nat.simps)
  have "is_ok r"
    using rot name by (auto simp: rotate_def mem_db_def mem_store_def Let_def split: if_splits)
  then show ?thesis
    using rotate_correct [OF mem_db_laws mem_store_inv rot] rot
    by (cases r) (simp_all add: name mem_store_def cf_values_def)
qed

text \<open>The size limit drawn after opening and after each rotation is within the jitter of the
  configured size, and at least one mebibyte.\<close>

theorem reset_size_limit_bounds:
  assumes "\<And>hi. g hi \<le> hi" and "unat (flush_size_jitter_bytes s) * 2 < 2 ^ 64"
  shows "unat (active_cf_size_limit (reset_size_limit g s)) \<in>
    {max (unat (flush_size_bytes s) - unat (flush_size_jitter_bytes s)) (2 ^ 20) ..
     max (unat (flush_size_bytes s) + unat (flush_size_jitter_bytes s)) (2 ^ 20)}"
proof -
  let ?j = "flush_size_jitter_bytes s"
  have "unat (g (?j * 2)) \<le> 2 * unat ?j"
    using assms(1) [of "?j * 2"] unat_double_u64 [OF assms(2)] by (simp add: word_le_nat_alt)
  from jittered_bounds [OF this, of "flush_size_bytes s"] show ?thesis
    by (auto simp: reset_size_limit_def Let_def unat_max_word le_max_iff_disj)
qed

theorem reset_size_limit_bounds_witness:
  "unat (active_cf_size_limit (reset_size_limit (\<lambda>hi. hi) mem_store)) = 2 ^ 20"
  using reset_size_limit_bounds [of "\<lambda>hi. hi" mem_store]
  by (simp add: mem_store_def)

text \<open>C24: after a restart on a path the engine wrote, the store satisfies its invariant, every
  family of the engine found on disk is tracked exactly once, as the active family or as an
  orphan, with the newest timestamp active, and every family has the records it had on disk.\<close>

theorem new_recovers:
  assumes "rocksdb_laws A contents" and "open_law A contents path disk"
    and "engine_path A path disk" and "list_cf A path = Ok names"
    and "new A g path fs fj sync wbs = Ok s"
  shows "store_inv contents s \<and>
    mset (orphaned_cfs s @ [active_cf s]) = mset (filter (\<lambda>n. active_cf_timestamp n \<noteq> None) names) \<and>
    sorted (map (\<lambda>n. the (active_cf_timestamp n)) (orphaned_cfs s @ [active_cf s])) \<and>
    (\<forall>n \<in> set (orphaned_cfs s @ [active_cf s]). contents (db s) n = disk n)"
proof -
  have names: "opened_cfs A path = names" by (simp add: opened_cfs_def assms(4))
  obtain a orphans where sel: "select_cfs names = (a, orphans)" by force
  note fields = new_fields [OF assms(5), unfolded names, OF sel]
  have spec: "mset (orphans @ [a]) = mset (engine_cfs names) \<and>
      sorted (map (\<lambda>n. the (active_cf_timestamp n)) (orphans @ [a]))"
    using opened_cfs_spec(2) [OF assms(2,3)] unfolding names by (intro select_cfs_spec [OF _ sel])
  have "contents (db s) n = disk n" if "n \<in> set (orphans @ [a])" for n
  proof -
    have "n \<in> set (engine_cfs names)"
      using that spec by (metis mset_eq_setD)
    then have "n \<in> dom disk" using assms(2,4) by (auto simp: open_law_def engine_cfs_def)
    then show ?thesis using assms(2) fields(1) by (auto simp: open_law_def)
  qed
  then show ?thesis
    using new_store_inv [OF assms(1-3,5)] spec by (simp only: fields(2,3) engine_cfs_def) blast
qed

definition demo_path :: "(string \<times> kv list) list" where
  "demo_path = [(''default'', []), (''active_12'', [(to_be_bytes 3, [5])]), (''active'', []),
     (''active_9'', [(to_be_bytes 7, [6])])]"

lemma active_cf_timestamp_demo:
  "active_cf_timestamp ''active'' = Some 0"
  "active_cf_timestamp ''active_9'' = Some 9"
  "active_cf_timestamp ''active_12'' = Some 12"
  by (simp_all add: active_cf_timestamp_def strip_prefix_def starts_with_def parse_u64_def
      parse_uint_def digit_val_def)

lemma demo_path_laws:
  "open_law mem_db (\<lambda>d. d) demo_path (map_of demo_path)"
  "engine_path mem_db demo_path (map_of demo_path)"
proof -
  have "set (map fst demo_path) = dom (map_of demo_path)" by (simp add: dom_map_of_conv_image_fst)
  moreover have "distinct (map fst demo_path)" by (simp add: demo_path_def)
  moreover have "map_of demo_path n = Some kvs \<Longrightarrow> sorted_wrt (<) (map fst kvs)" for n kvs
    by (auto simp: demo_path_def split: if_splits)
  moreover have "map_of demo_path n = Some kvs \<Longrightarrow> kvs \<noteq> [] \<Longrightarrow> rev kvs = last kvs # tl (rev kvs)" for n kvs
    by (auto simp: demo_path_def split: if_splits)
  ultimately show "open_law mem_db (\<lambda>d. d) demo_path (map_of demo_path)"
    by (auto simp: open_law_def mem_db_def mem_open_def demo_path_def split: if_splits)
  show "engine_path mem_db demo_path (map_of demo_path)"
    by (auto simp: engine_path_def mem_db_def demo_path_def engine_cfs_def
        active_cf_timestamp_demo split: if_splits)
qed

theorem new_recovers_witness:
  "\<exists>s. new mem_db (\<lambda>hi. hi) demo_path 100 10 True 64 = Ok s \<and> active_cf s = ''active_12'' \<and>
     orphaned_cfs s = [''active'', ''active_9''] \<and> counter s = 4"
proof -
  obtain s where s: "new mem_db (\<lambda>hi. hi) demo_path 100 10 True 64 = Ok s"
    by (simp add: new_def mem_db_def demo_path_def split_beta Let_def)
  have names: "list_cf mem_db demo_path = Ok (map fst demo_path)"
    by (simp add: mem_db_def demo_path_def)
  note rec = new_recovers [OF mem_db_laws demo_path_laws names s]
  have sel: "select_cfs (opened_cfs mem_db demo_path) = (''active_12'', [''active'', ''active_9''])"
    by (simp add: opened_cfs_def names)
      (simp add: select_cfs_def cf_candidates_def demo_path_def active_cf_timestamp_demo
        active_cf_timestamp_default)
  note fields = new_fields [OF s sel]
  have "db s ''active_12'' = Some [(to_be_bytes 3, [5])]"
    using rec by (simp add: fields demo_path_def)
  then have "max_key mem_db (db s) ''active_12'' = 3"
    by (simp add: max_key_def mem_db_def u64_from_to_be_bytes)
  then show ?thesis using s fields by simp
qed

end
