(* ===== verification/Socket_Addr.thy ===== *)
theory Socket_Addr
  imports Rust_Std
begin

text \<open>
  The part of \<open>std::net\<close> the engine uses: \<open>SocketAddr::from_str\<close> on an IPv4 address with a port.
  The parser of the library first tries this form; the other form, an IPv6 address, starts with
  an opening bracket. A number of an address has at most three digits and no leading zero; the
  number of a port may have leading zeros.
\<close>

section \<open>Definitions\<close>

record socket_addr =
  ip :: "u8 \<times> u8 \<times> u8 \<times> u8"
  port :: u16

definition is_digit :: "char \<Rightarrow> bool" where
  "is_digit c = (digit_val c \<noteq> None)"

text \<open>\<open>read_number\<close>: all digits that follow, refused where they are too many or too large.\<close>

definition read_number :: "nat option \<Rightarrow> bool \<Rightarrow> nat \<Rightarrow> string \<Rightarrow> (nat \<times> string) option" where
  "read_number max_digits allow_zero_prefix bound s =
     (let ds = takeWhile is_digit s in
      if ds = [] \<or> (case max_digits of None \<Rightarrow> False | Some m \<Rightarrow> m < length ds) \<or>
         \<not> allow_zero_prefix \<and> hd ds = CHR ''0'' \<and> 1 < length ds
      then None
      else case parse_digits bound 0 ds of
             Inl _ \<Rightarrow> None | Inr n \<Rightarrow> Some (n, dropWhile is_digit s))"

definition read_given_char :: "char \<Rightarrow> string \<Rightarrow> string option" where
  "read_given_char c s = (case s of [] \<Rightarrow> None | x # xs \<Rightarrow> if x = c then Some xs else None)"

text \<open>An octet, and a separator before it.\<close>

definition read_octet :: "string \<Rightarrow> (u8 \<times> string) option" where
  "read_octet s = map_option (\<lambda>(n, r). (of_nat n, r)) (read_number (Some 3) False 256 s)"

definition read_next_octet :: "string \<Rightarrow> (u8 \<times> string) option" where
  "read_next_octet s = Option.bind (read_given_char CHR ''.'' s) read_octet"

definition parse_socket_addr :: "string \<Rightarrow> socket_addr result" where
  "parse_socket_addr s =
     (case Option.bind (read_octet s) (\<lambda>(a, s1). Option.bind (read_next_octet s1) (\<lambda>(b, s2).
        Option.bind (read_next_octet s2) (\<lambda>(c, s3). Option.bind (read_next_octet s3) (\<lambda>(d, s4).
        Option.bind (read_given_char CHR '':'' s4) (\<lambda>s5.
        Option.bind (read_number None True 65536 s5) (\<lambda>(p, s6).
        if s6 = [] then Some \<lparr> ip = (a, b, c, d), port = of_nat p \<rparr> else None))))))
      of None \<Rightarrow> Err [''invalid socket address syntax'']
       | Some addr \<Rightarrow> Ok addr)"

section \<open>Printing and parsing\<close>

definition show_ip :: "u8 \<times> u8 \<times> u8 \<times> u8 \<Rightarrow> string" where
  "show_ip q = (case q of (a, b, c, d) \<Rightarrow>
     join ''.'' (map (\<lambda>x. show_nat (unat x)) [a, b, c, d]))"

definition show_socket_addr :: "socket_addr \<Rightarrow> string" where
  "show_socket_addr addr = show_ip (ip addr) @ '':'' @ show_nat (unat (port addr))"

lemma takeWhile_digits: "takeWhile is_digit (show_nat n @ rest) = show_nat n @ takeWhile is_digit rest"
  using digits_show_nat [where n = n] by (simp add: is_digit_def)

lemma dropWhile_digits: "dropWhile is_digit (show_nat n @ rest) = dropWhile is_digit rest"
  using digits_show_nat [where n = n] by (simp add: is_digit_def)

text \<open>A printed number is read back up to the first character that is no digit.\<close>

lemma read_number_show_nat:
  assumes "n < bound" and "rest = [] \<or> \<not> is_digit (hd rest)"
    and "case max_digits of None \<Rightarrow> True | Some m \<Rightarrow> length (show_nat n) \<le> m"
  shows "read_number max_digits zeros bound (show_nat n @ rest) = Some (n, rest)"
proof -
  have "takeWhile is_digit rest = []" "dropWhile is_digit rest = rest"
    using assms(2) by (cases rest; simp)+
  moreover have "\<not> (hd (show_nat n) = CHR ''0'' \<and> 1 < length (show_nat n))"
    using hd_show_nat_zero [of n] by (auto simp: show_nat.simps [of 0])
  ultimately show ?thesis
    using assms(1,3) parse_digits_show_nat [of n bound]
    by (auto simp: read_number_def Let_def takeWhile_digits dropWhile_digits split: option.splits)
qed

lemma read_octet_show:
  assumes "rest = [] \<or> \<not> is_digit (hd rest)"
  shows "read_octet (show_nat (unat (a :: u8)) @ rest) = Some (a, rest)"
proof -
  have a: "unat a < 256" using unsigned_less [of a, where ?'a = nat] by simp
  then have "length (show_nat (unat a)) \<le> 3" using length_show_nat [of "unat a" 2] by simp
  then show ?thesis
    using read_number_show_nat [of "unat a" 256 rest "Some 3" False] a assms by (simp add: read_octet_def)
qed

lemma separators: "\<not> is_digit CHR ''.''" "\<not> is_digit CHR '':''"
  by (simp_all add: is_digit_def digit_val_def)

lemma parse_show_socket_addr: "parse_socket_addr (show_socket_addr addr) = Ok addr"
proof -
  obtain a b c d p where addr: "addr = \<lparr> ip = (a, b, c, d), port = p \<rparr>"
    by (metis socket_addr.surjective old.unit.exhaust prod.exhaust)
  have "unat p < 65536" using unsigned_less [of p, where ?'a = nat] by simp
  then have "read_number None True 65536 (show_nat (unat p)) = Some (unat p, [])"
    using read_number_show_nat [of "unat p" 65536 "[]" None True] by simp
  then show ?thesis
    by (simp add: addr show_socket_addr_def show_ip_def parse_socket_addr_def read_next_octet_def
        read_given_char_def read_octet_show separators)
qed

end
