(* ===== verification/Grpc_Server.thy ===== *)
theory Grpc_Server
  imports Config Rocks_Store Socket_Addr
begin

text \<open>
  src/src/grpc_server.rs: the three calls of the service. \<open>register_schema\<close> validates a schema
  document against the field definitions; \<open>ingest\<close> reads a stream of framed records and
  answers each with an acknowledgement; \<open>flush_now\<close> triggers a flush. The stream is the list of
  messages it delivers before it ends, each with the outcome of sending its acknowledgement;
  calls of \<open>notify_one\<close> on the flush trigger are counted. \<open>run_server\<close> finds the address the service
  listens on.
\<close>

section \<open>Definitions\<close>

record ack =
  ack_ok :: bool
  ack_message :: string

text \<open>An em dash, in UTF-8.\<close>

definition em_dash :: string where
  "em_dash = map char_of [0xE2, 0x80, 0x94 :: nat]"

definition check_field ::
    "'j serde_json \<Rightarrow> string \<Rightarrow> field_def list \<Rightarrow> 'j \<Rightarrow> string + unit" where
  "check_field J engine_table defs field =
     (let nm = unwrap_or '''' (get_str J field ''name'');
          type_str = unwrap_or '''' (get_str J field ''type'')
      in case find (\<lambda>f. name f = nm) defs of
           None \<Rightarrow> Inl (''Unknown field '' @ quoted nm @ '' in table '' @ quoted engine_table @
             '': not present in AOT schema. The engine must be deployed and stabilized before the application.'')
         | Some aot \<Rightarrow>
             if from_str type_str \<noteq> from_str (field_type aot)
             then Inl (''Field '' @ quoted nm @ '' type mismatch: SDK sent '' @ quoted type_str @
               '', AOT schema has '' @ quoted (field_type aot))
             else Inr ())"

fun check_fields ::
    "'j serde_json \<Rightarrow> string \<Rightarrow> field_def list \<Rightarrow> 'j list \<Rightarrow> string + unit" where
  "check_fields J engine_table defs [] = Inr ()"
| "check_fields J engine_table defs (field # rest) =
     (case check_field J engine_table defs field of
        Inl msg \<Rightarrow> Inl msg
      | Inr _ \<Rightarrow> check_fields J engine_table defs rest)"

definition validate_register_schema ::
    "'j serde_json \<Rightarrow> string \<Rightarrow> string \<Rightarrow> field_def list \<Rightarrow> string + nat" where
  "validate_register_schema J schema_json engine_table defs =
     (case json_from_str J schema_json of
        Inl e \<Rightarrow> Inl (''Invalid schema JSON: '' @ e)
      | Inr incoming \<Rightarrow>
          let table_ok = (case get_str J incoming ''table'' of
                            Some table \<Rightarrow> table = engine_table | None \<Rightarrow> True)
          in if \<not> table_ok then
               Inl (''Table mismatch: engine is pinned to '' @ quoted engine_table @
                    '', schema is for '' @ quoted (the (get_str J incoming ''table'')))
             else case get_array J incoming ''fields'' of
               None \<Rightarrow> Inl (''Schema JSON missing '' @ quoted ''fields'' @ '' array'')
             | Some fds \<Rightarrow>
                 (case check_fields J engine_table defs fds of
                    Inl msg \<Rightarrow> Inl msg
                  | Inr _ \<Rightarrow> Inr (length fds)))"

definition register_schema :: "'j serde_json \<Rightarrow> config \<Rightarrow> string \<Rightarrow> ack" where
  "register_schema J cfg schema_json =
     (case validate_register_schema J schema_json (micewriter_table cfg) (field_defs cfg) of
        Inr field_count \<Rightarrow>
          \<lparr> ack_ok = True,
            ack_message = ''Schema validated '' @ em_dash @ '' '' @ show_nat field_count @
              '' fields match AOT schema'' \<rparr>
      | Inl msg \<Rightarrow> \<lparr> ack_ok = False, ack_message = msg \<rparr>)"

text \<open>
  The body of the ingest loop up to the acknowledgement: the acknowledgement, whether the flush
  trigger is notified, and the store.
\<close>

definition ingest_message ::
    "('p, 'd) rocksdb \<Rightarrow> string \<Rightarrow> bytes \<Rightarrow> 'd rocks_store \<Rightarrow> ack \<times> bool \<times> 'd rocks_store" where
  "ingest_message A expected_table payload s =
     (if length payload < 2 then
        (\<lparr> ack_ok = False, ack_message = ''Payload too small'' \<rparr>, False, s)
      else
        (let table_name_len = unat (u16_from_be_bytes (payload ! 0) (payload ! 1)) in
         if length payload < 2 + table_name_len then
           (\<lparr> ack_ok = False, ack_message = ''Invalid payload formatting'' \<rparr>, False, s)
         else
           (let table_name = from_utf8_lossy (take table_name_len (drop 2 payload)) in
            if table_name \<noteq> expected_table then
              (\<lparr> ack_ok = False,
                 ack_message = ''Cross-table write rejected. Engine is pinned to '' @ expected_table \<rparr>,
               False, s)
            else
              (let cbor_bytes = drop (2 + table_name_len) payload in
               case append_batch A [cbor_bytes] s of
                 (Inr size_exceeded, s') \<Rightarrow>
                   (\<lparr> ack_ok = True, ack_message = ''OK'' \<rparr>, size_exceeded, s')
               | (Inl e, s') \<Rightarrow>
                   (\<lparr> ack_ok = False, ack_message = ''Internal storage error'' \<rparr>, False, s')))))"

text \<open>
  The loop: the messages handled with their acknowledgements and whether those were sent, the
  number of notifications, and the store. The loop ends with the stream, or when a positive
  acknowledgement cannot be sent.
\<close>

fun ingest ::
    "('p, 'd) rocksdb \<Rightarrow> string \<Rightarrow> (bytes \<times> bool) list \<Rightarrow> 'd rocks_store \<Rightarrow>
     (bytes \<times> ack \<times> bool) list \<times> nat \<times> 'd rocks_store" where
  "ingest A expected_table [] s = ([], 0, s)"
| "ingest A expected_table ((payload, sent) # stream) s =
     (let (a, notify, s1) = ingest_message A expected_table payload s;
          n = (if notify then 1 else 0)
      in if ack_ok a \<and> \<not> sent then ([(payload, a, sent)], n, s1)
         else (let (handled, m, s2) = ingest A expected_table stream s1
               in ((payload, a, sent) # handled, n + m, s2)))"

text \<open>\<open>flush_now\<close>: the answer and whether the trigger is notified.\<close>

definition flush_now :: "config \<Rightarrow> ack \<times> bool" where
  "flush_now cfg =
     (if \<not> enable_manual_flush cfg then
        (\<lparr> ack_ok = False, ack_message = ''Manual flush is disabled in production'' \<rparr>, False)
      else (\<lparr> ack_ok = True, ack_message = ''Flush triggered'' \<rparr>, True))"

text \<open>
  \<open>run_server\<close>: the address is printed and parsed, then \<open>serve\<close>, which stands for the transport of
  tonic with the service, runs on it until it is told to stop or fails.
\<close>

definition run_server :: "(socket_addr \<Rightarrow> unit result) \<Rightarrow> config \<Rightarrow> unit result" where
  "run_server serve cfg =
     and_then (parse_socket_addr (''0.0.0.0:'' @ show_nat (unat (grpc_port cfg))))
       (\<lambda>addr. and_then (serve addr) (\<lambda>_. Ok ()))"

section \<open>Frames\<close>

text \<open>The frame the SDK sends: the length of the table name, the name, the record.\<close>

definition frame :: "string \<Rightarrow> bytes \<Rightarrow> bytes" where
  "frame table cbor = be_bytes 2 (length table) @ as_bytes table @ cbor"

text \<open>The record in a frame, for a payload long enough to have one.\<close>

definition frame_record :: "bytes \<Rightarrow> bytes" where
  "frame_record payload = drop (2 + unat (u16_from_be_bytes (payload ! 0) (payload ! 1))) payload"

text \<open>A table name as a Rust string that the length field of a frame can describe.\<close>

definition framable :: "string \<Rightarrow> bool" where
  "framable table \<longleftrightarrow>
     length table < 2 ^ 16 \<and> utf8_valid (as_bytes table) \<and> \<not> has_replacement (as_bytes table)"

lemma length_as_bytes [simp]: "length (as_bytes s) = length s"
  by (simp add: as_bytes_def)

lemma be_bytes_2: "\<exists>a b. be_bytes 2 n = [a, b]"
  unfolding numeral_2_eq_2 by (simp only: be_bytes.simps append_Nil append_Cons) blast

lemma u16_from_be_bytes_be: "n < 2 ^ 16 \<Longrightarrow> be_bytes 2 n = [a, b] \<Longrightarrow> unat (u16_from_be_bytes a b) = n"
  using be_value_be_bytes [of n 2] by (simp add: u16_from_be_bytes_def unat_of_nat)

lemma be_bytes_u16: "be_bytes 2 (unat (u16_from_be_bytes a b)) = [a, b]"
proof -
  have "be_value [a, b] < 2 ^ 16" using be_value_bound [of "[a, b]"] by simp
  then have "unat (u16_from_be_bytes a b) = be_value [a, b]"
    by (simp add: u16_from_be_bytes_def unat_of_nat)
  moreover have "be_bytes (length [a, b]) (be_value [a, b]) = [a, b]" by (rule be_bytes_be_value)
  moreover have "length [a, b] = 2" by simp
  ultimately show ?thesis by metis
qed

lemma payload_split:
  assumes "2 \<le> length payload"
  shows "payload = payload ! 0 # payload ! 1 # drop 2 payload"
  using assms by (cases payload; cases "tl payload") auto

lemma frame_iff:
  assumes "framable table" and "2 \<le> length payload"
    and "2 + unat (u16_from_be_bytes (payload ! 0) (payload ! 1)) \<le> length payload"
  shows "from_utf8_lossy (take (unat (u16_from_be_bytes (payload ! 0) (payload ! 1))) (drop 2 payload)) = table
         \<longleftrightarrow> payload = frame table (frame_record payload)"
proof -
  let ?n = "unat (u16_from_be_bytes (payload ! 0) (payload ! 1))"
  let ?t = "take ?n (drop 2 payload)"
  have lossy: "from_utf8_lossy ?t = table \<longleftrightarrow> ?t = as_bytes table"
    using assms(1) by (intro from_utf8_lossy_eq_iff) (auto simp: framable_def)
  have len: "length ?t = ?n" using assms(3) by simp
  have "?t @ frame_record payload = drop 2 payload"
    unfolding frame_record_def by (metis add.commute append_take_drop_id drop_drop)
  then have split: "payload = be_bytes 2 ?n @ ?t @ frame_record payload"
    unfolding be_bytes_u16 using payload_split [OF assms(2)] by (metis append_Cons append_Nil)
  show ?thesis
  proof
    assume "from_utf8_lossy ?t = table"
    then have "?t = as_bytes table" using lossy by blast
    moreover from this have "?n = length table" using len by (metis length_as_bytes)
    ultimately show "payload = frame table (frame_record payload)"
      using split by (simp add: frame_def)
  next
    assume eq: "payload = frame table (frame_record payload)"
    obtain a b where ab: "be_bytes 2 (length table) = [a, b]" using be_bytes_2 by blast
    have "?n = length table"
      using u16_from_be_bytes_be [OF _ ab] assms(1) by (subst (1 2) eq) (simp add: frame_def ab framable_def)
    moreover have "drop 2 payload = as_bytes table @ frame_record payload"
      by (subst eq) (simp add: frame_def ab)
    ultimately have "?t = as_bytes table" by simp
    then show "from_utf8_lossy ?t = table" using lossy by blast
  qed
qed

lemma frame_record_frame:
  assumes "length table < 2 ^ 16"
  shows "frame_record (frame table cbor) = cbor"
    and "2 \<le> length (frame table cbor)"
    and "unat (u16_from_be_bytes (frame table cbor ! 0) (frame table cbor ! 1)) = length table"
    and "2 + length table \<le> length (frame table cbor)"
proof -
  obtain a b where ab: "be_bytes 2 (length table) = [a, b]" using be_bytes_2 by blast
  note n = u16_from_be_bytes_be [OF assms ab]
  show "frame_record (frame table cbor) = cbor"
    and "2 \<le> length (frame table cbor)"
    and "unat (u16_from_be_bytes (frame table cbor ! 0) (frame table cbor ! 1)) = length table"
    and "2 + length table \<le> length (frame table cbor)"
    by (simp_all add: frame_def frame_record_def ab n)
qed

lemma ingest_message_frame:
  assumes "framable table"
  shows "ingest_message A table (frame table cbor) s =
    (case append_batch A [cbor] s of
       (Inr full, s') \<Rightarrow> (\<lparr> ack_ok = True, ack_message = ''OK'' \<rparr>, full, s')
     | (Inl e, s') \<Rightarrow> (\<lparr> ack_ok = False, ack_message = ''Internal storage error'' \<rparr>, False, s'))"
proof -
  have "length table < 2 ^ 16" using assms by (simp add: framable_def)
  note fr = frame_record_frame [OF this, of cbor]
  have name: "from_utf8_lossy (take (length table) (drop 2 (frame table cbor))) = table"
    using frame_iff [OF assms fr(2)] fr by simp
  have rec: "drop (2 + length table) (frame table cbor) = cbor"
    using fr(1) unfolding frame_record_def fr(3) .
  show ?thesis
    using fr(2,4) name rec unfolding ingest_message_def fr(3) Let_def by simp
qed

lemma ingest_message_not_frame:
  assumes "framable table" and "payload \<noteq> frame table (frame_record payload)"
  shows "\<exists>msg. ingest_message A table payload s = (\<lparr> ack_ok = False, ack_message = msg \<rparr>, False, s)"
  using frame_iff [OF assms(1), of payload] assms(2)
  by (auto simp: ingest_message_def Let_def not_less)

lemma ingest_message_log:
  assumes "rocksdb_laws A contents" and "store_inv contents s" and "unat (counter s) + 1 < 2 ^ 64"
    and "framable table" and "ingest_message A table payload s = (a, notify, s')"
  shows "store_inv contents s' \<and> unat (counter s') \<le> unat (counter s) + 1 \<and>
    active_cf s' = active_cf s \<and>
    cf_values contents s' (active_cf s) = cf_values contents s (active_cf s) @
      (if ack_ok a then [frame_record payload] else [])"
proof (cases "payload = frame table (frame_record payload)")
  case True
  obtain r s1 where app: "append_batch A [frame_record payload] s = (r, s1)" by force
  note one = append_one [OF assms(1-3) app]
  have "ingest_message A table payload s =
    (case (r, s1) of
       (Inr full, s') \<Rightarrow> (\<lparr> ack_ok = True, ack_message = ''OK'' \<rparr>, full, s')
     | (Inl e, s') \<Rightarrow> (\<lparr> ack_ok = False, ack_message = ''Internal storage error'' \<rparr>, False, s'))"
    using ingest_message_frame [OF assms(4), of A "frame_record payload" s] True app by simp
  with assms(5) one show ?thesis by (cases r) auto
next
  case False
  with ingest_message_not_frame [OF assms(4) False, of A s] assms(2,5) show ?thesis by auto
qed

lemma check_fields_Ok_iff:
  "check_fields J t defs fds = Inr u \<longleftrightarrow> (\<forall>f \<in> set fds. check_field J t defs f = Inr ())"
  by (induction fds) (auto split: sum.splits)

section \<open>Properties\<close>

text \<open>C26: A record framed for the engine's table reaches the store unchanged: the handler appends
  exactly the bytes after the table name and acknowledges with the outcome of the append.\<close>

theorem ingest_frame_roundtrip:
  assumes "framable table"
  shows "ingest_message A table (frame table cbor) s =
    (case append_batch A [cbor] s of
       (Inr full, s') \<Rightarrow> (\<lparr> ack_ok = True, ack_message = ''OK'' \<rparr>, full, s')
     | (Inl e, s') \<Rightarrow> (\<lparr> ack_ok = False, ack_message = ''Internal storage error'' \<rparr>, False, s'))"
  using assms by (rule ingest_message_frame)

text \<open>C27: A payload that is not a frame for the engine's own table, truncated, malformed or meant
  for another table, is refused and leaves the store and the flush trigger alone.\<close>

theorem ingest_refuses_other_payloads:
  assumes "framable table" and "\<forall>cbor. payload \<noteq> frame table cbor"
  shows "\<exists>msg. ingest_message A table payload s = (\<lparr> ack_ok = False, ack_message = msg \<rparr>, False, s)"
  using assms by (intro ingest_message_not_frame) auto

text \<open>C25: over a whole stream, the records acknowledged positively are exactly the ones added to
  the active family, in the order in which they arrived, and the store keeps its invariant.\<close>

theorem ingest_stores_acknowledged:
  assumes "rocksdb_laws A contents" and "store_inv contents s"
    and "unat (counter s) + length stream < 2 ^ 64" and "framable table"
    and "ingest A table stream s = (handled, n, s')"
  shows "store_inv contents s' \<and> active_cf s' = active_cf s \<and>
    cf_values contents s' (active_cf s) = cf_values contents s (active_cf s) @
      [frame_record p. (p, a, sent) \<leftarrow> handled, ack_ok a]"
  using assms(2,3,5)
proof (induction stream arbitrary: s handled n)
  case Nil
  then show ?case by simp
next
  case (Cons m stream)
  obtain payload sent where m: "m = (payload, sent)" by force
  obtain a notify s1 where msg: "ingest_message A table payload s = (a, notify, s1)"
    by (metis prod_cases3)
  have one: "unat (counter s) + 1 < 2 ^ 64" using Cons.prems(2) by simp
  note log = ingest_message_log [OF assms(1) Cons.prems(1) one assms(4) msg]
  show ?case
  proof (cases "ack_ok a \<and> \<not> sent")
    case True
    with Cons.prems(3) m msg log show ?thesis by (auto simp: Let_def)
  next
    case False
    then obtain handled' n' where rest: "ingest A table stream s1 = (handled', n', s')"
      and h: "handled = (payload, a, sent) # handled'"
      using Cons.prems(3) m msg by (auto simp: Let_def split: prod.splits)
    have "unat (counter s1) + length stream < 2 ^ 64" using log Cons.prems(2) by simp
    with Cons.IH [OF _ this rest] log h show ?thesis by simp
  qed
qed

text \<open>The number of frozen families that await a flush does not change what the ingest handler
  answers: no limit on retained families is applied when records are accepted.\<close>

theorem ingest_has_no_backpressure:
  "\<exists>s2. ingest_message A table payload (s\<lparr>orphaned_cfs := cfs\<rparr>) =
     (fst (ingest_message A table payload s), fst (snd (ingest_message A table payload s)), s2)"
  by (auto simp: ingest_message_def append_batch_def append_to_cf_def append_loop_eq Let_def
      split: prod.splits sum.splits)

text \<open>C38: A schema document is accepted exactly if it parses, names the engine's table or no table,
  has an array of fields, and each field is found by name among the definitions with a type that
  maps to the same type; the answer is the number of its fields.\<close>

theorem validate_register_schema_iff:
  "validate_register_schema J doc table defs = Inr n \<longleftrightarrow>
     (\<exists>j fds. json_from_str J doc = Inr j \<and> get_str J j ''table'' \<in> {None, Some table} \<and>
        get_array J j ''fields'' = Some fds \<and> n = length fds \<and>
        (\<forall>f \<in> set fds. \<exists>aot.
           find (\<lambda>d. name d = unwrap_or '''' (get_str J f ''name'')) defs = Some aot \<and>
           from_str (unwrap_or '''' (get_str J f ''type'')) = from_str (field_type aot)))"
proof -
  have field: "check_field J table defs f = Inr () \<longleftrightarrow>
    (\<exists>aot. find (\<lambda>d. name d = unwrap_or '''' (get_str J f ''name'')) defs = Some aot \<and>
       from_str (unwrap_or '''' (get_str J f ''type'')) = from_str (field_type aot))" for f
    by (auto simp: check_field_def Let_def split: option.splits)
  show ?thesis
    unfolding field [symmetric] check_fields_Ok_iff [symmetric, where t = table and u = "()"]
    by (auto simp: validate_register_schema_def Let_def split: sum.splits option.splits if_splits)
qed

text \<open>A field whose type neither side can parse is accepted, whatever the two type names are:
  both parses fail, and the two failures compare equal.\<close>

theorem check_field_accepts_unknown_types:
  assumes "find (\<lambda>d. name d = unwrap_or '''' (get_str J f ''name'')) defs = Some aot"
    and "from_str (field_type aot) = None"
    and "from_str (unwrap_or '''' (get_str J f ''type'')) = None"
  shows "check_field J table defs f = Inr ()"
  using assms by (simp add: check_field_def)

section \<open>Witnesses\<close>

lemma framable_ascii:
  assumes "length table < 2 ^ 16" and "\<forall>c \<in> set table. of_char c < (128 :: nat)"
  shows "framable table"
proof -
  have "\<forall>b \<in> set (as_bytes table). b < 0x80"
    using assms(2) by (auto simp: as_bytes_def word_less_nat_alt unat_of_nat)
  then show ?thesis using assms(1) by (simp add: framable_def utf8_valid_ascii no_replacement_ascii)
qed

lemma framable_t: "framable ''t''"
  by (rule framable_ascii) simp_all

lemma frame_t: "frame ''t'' cbor = [0, 1, 0x74] @ cbor"
proof -
  have "be_bytes 2 1 = [0, 1]" and "as_bytes ''t'' = [0x74]" by code_simp+
  then show ?thesis by (simp add: frame_def)
qed

theorem ingest_frame_roundtrip_witness:
  "frame ''t'' [5, 6] = [0, 1, 0x74, 5, 6] \<and>
   fst (ingest_message mem_db ''t'' (frame ''t'' [5, 6]) mem_store) = \<lparr> ack_ok = True, ack_message = ''OK'' \<rparr>"
proof -
  have "is_ok (fst (append_batch mem_db [[5, 6]] mem_store))"
    by (simp add: append_batch_def append_to_cf_def mem_db_def mem_store_def)
  then show ?thesis
    unfolding ingest_frame_roundtrip [OF framable_t]
    by (auto simp: is_ok_iff frame_t split: prod.splits)
qed

theorem ingest_refuses_other_payloads_witness:
  "\<not> ack_ok (fst (ingest_message mem_db ''t'' [0, 1, 0x75, 9] mem_store)) \<and>
   snd (snd (ingest_message mem_db ''t'' [0, 1, 0x75, 9] mem_store)) = mem_store"
proof -
  have "\<forall>cbor. [0, 1, 0x75, 9] \<noteq> frame ''t'' cbor"
    by (simp add: frame_t)
  from ingest_refuses_other_payloads [OF framable_t this, of mem_db mem_store] show ?thesis by auto
qed

theorem ingest_stores_acknowledged_witness:
  "\<exists>handled n s'. ingest mem_db ''t'' [([0, 1, 0x74, 5], True), ([9], True), ([0, 1, 0x74, 6], False)] mem_store
     = (handled, n, s') \<and> store_inv (\<lambda>d. d) s'"
proof -
  let ?stream = "[([0, 1, 0x74, 5], True), ([9 :: u8], True), ([0, 1, 0x74, 6], False)]"
  obtain handled n s' where run: "ingest mem_db ''t'' ?stream mem_store = (handled, n, s')"
    by (metis prod_cases3)
  have "unat (counter mem_store) + length ?stream < 2 ^ 64" by (simp add: mem_store_def)
  from ingest_stores_acknowledged [OF mem_db_laws mem_store_inv this framable_t run] run
  show ?thesis by blast
qed

definition sample_document :: json where
  "sample_document = JObject [(''table'', JString ''t''), (''fields'', JArray
     [JObject [(''name'', JString ''occurred_at''), (''type'', JString ''int64'')]])]"

theorem validate_register_schema_iff_witness:
  "validate_register_schema (demo_json [(''doc'', sample_document)]) ''doc'' ''t'' telemetry_defs = Inr 1"
  unfolding validate_register_schema_iff
  by (simp add: demo_json_def sample_document_def telemetry_defs_def get_str_def get_array_def
      from_str_primitive)

theorem check_field_accepts_unknown_types_witness:
  "check_field (demo_json []) ''t'' [\<lparr> name = ''k'', field_type = ''uuid'', required = True \<rparr>]
     (JObject [(''name'', JString ''k''), (''type'', JString ''decimal'')]) = Inr ()"
proof -
  have "from_str ''uuid'' = None" and "from_str ''decimal'' = None"
    by (simp_all add: from_str.simps starts_with_def)
  then show ?thesis
    by (intro check_field_accepts_unknown_types
          [where aot = "\<lparr> name = ''k'', field_type = ''uuid'', required = True \<rparr>"])
      (simp_all add: demo_json_def get_str_def)
qed

text \<open>Whatever port is configured, the server listens on that port of every interface: the address
  it prints is always parsed back to the same port, so the server fails only when the transport
  does.\<close>

theorem run_server_listens:
  "run_server serve cfg = serve \<lparr> ip = (0, 0, 0, 0), port = grpc_port cfg \<rparr>"
proof -
  have "''0.0.0.0:'' @ show_nat (unat (grpc_port cfg)) =
      show_socket_addr \<lparr> ip = (0, 0, 0, 0), port = grpc_port cfg \<rparr>"
    by (simp add: show_socket_addr_def show_ip_def show_nat.simps [of 0])
  then show ?thesis
    by (simp add: run_server_def parse_show_socket_addr del: append.simps) (simp add: and_then_def split: sum.splits)
qed

end
