(* ===== verification/Schemas.thy ===== *)
theory Schemas
  imports Field_Type
begin

text \<open>
  The two schemas derived from the field definitions: \<open>build_iceberg_schema\<close>
  (src/src/iceberg_writer.rs) for the catalog and \<open>field_defs_to_arrow_schema\<close>
  (src/src/flush_engine.rs) for the record batches. Both walk the definitions with a closure
  over a mutable \<open>next_id\<close>. The locale \<open>column_builder\<close> is what such a closure promises about
  the ids it takes; it is interpreted on both closures.
\<close>

section \<open>Walking the definitions with a counter\<close>

text \<open>\<open>fields.iter().map(|f| ..).collect()\<close> with a closure that updates a captured counter.\<close>

fun map_next_id :: "('f \<Rightarrow> i32 \<Rightarrow> 'c \<times> i32) \<Rightarrow> 'f list \<Rightarrow> i32 \<Rightarrow> 'c list \<times> i32" where
  "map_next_id column [] n = ([], n)"
| "map_next_id column (f # fs) n =
     (let (c, n') = column f n; (cs, n'') = map_next_id column fs n' in (c # cs, n''))"

definition mapped_of :: "field_def \<Rightarrow> mapped_type" where
  "mapped_of f = from_str_or_string (field_type f) (name f)"

definition iceberg_column :: "field_def \<Rightarrow> i32 \<Rightarrow> nested_field \<times> i32" where
  "iceberg_column f next_id =
     (let field_id = next_id;
          (ty, next_id') = to_iceberg (mapped_of f) (next_id + 1)
      in (if required f then NestedField field_id (name f) True ty
          else NestedField field_id (name f) False ty, next_id'))"

text \<open>
  \<open>schema_build\<close> stands for \<open>Schema::builder().with_fields(..).build()\<close> of the iceberg crate.
\<close>

definition build_iceberg_schema ::
    "(nested_field list \<Rightarrow> 's result) \<Rightarrow> field_def list \<Rightarrow> 's result" where
  "build_iceberg_schema schema_build defs =
     (let (nested, _) = map_next_id iceberg_column defs 1
      in context_err ''Failed to build Iceberg schema'' (schema_build nested))"

definition arrow_column :: "field_def \<Rightarrow> i32 \<Rightarrow> arrow_field \<times> i32" where
  "arrow_column f next_id =
     (let (ty, next_id') = to_arrow (mapped_of f) next_id
      in (Field (name f) ty (\<not> required f) [], next_id'))"

definition field_defs_to_arrow_schema :: "field_def list \<Rightarrow> arrow_field list" where
  "field_defs_to_arrow_schema field_defs = fst (map_next_id arrow_column field_defs 1)"

section \<open>The contract of a column closure\<close>

locale column_builder =
  fixes column :: "field_def \<Rightarrow> i32 \<Rightarrow> 'c \<times> i32"
    and ids_taken :: "field_def \<Rightarrow> nat"
  assumes column_next: "snd (column f n) = n + of_nat (ids_taken f)"
begin

lemma length_columns: "length (fst (map_next_id column fs n)) = length fs"
  by (induction fs arbitrary: n) (auto simp: split_beta)

lemma columns_next: "snd (map_next_id column fs n) = n + of_nat (sum_list (map ids_taken fs))"
  by (induction fs arbitrary: n) (auto simp: split_beta column_next algebra_simps)

text \<open>The \<open>i\<close>-th column starts after the ids of the columns before it.\<close>

lemma nth_column:
  "i < length fs \<Longrightarrow>
   fst (map_next_id column fs n) ! i =
   fst (column (fs ! i) (n + of_nat (sum_list (map ids_taken (take i fs)))))"
proof (induction fs arbitrary: n i)
  case (Cons f fs)
  show ?case
  proof (cases i)
    case 0
    then show ?thesis by (simp add: split_beta)
  next
    case (Suc j)
    with Cons.IH [of j "snd (column f n)"] Cons.prems show ?thesis
      by (simp add: split_beta column_next algebra_simps)
  qed
qed simp

end

definition iceberg_ids_taken :: "field_def \<Rightarrow> nat" where
  "iceberg_ids_taken f = Suc (list_depth (mapped_of f))"

definition arrow_ids_taken :: "field_def \<Rightarrow> nat" where
  "arrow_ids_taken f = list_depth (mapped_of f)"

interpretation iceberg_cols: column_builder iceberg_column iceberg_ids_taken
  by unfold_locales
    (simp add: iceberg_column_def Let_def iceberg_ids_taken_def split_beta to_iceberg_next)

interpretation arrow_cols: column_builder arrow_column arrow_ids_taken
  by unfold_locales (simp add: arrow_column_def arrow_ids_taken_def split_beta to_arrow_next)

lemma iceberg_column_sel:
  "nf_id (fst (iceberg_column f n)) = n"
  "nf_name (fst (iceberg_column f n)) = name f"
  "nf_required (fst (iceberg_column f n)) = required f"
  "nf_type (fst (iceberg_column f n)) = fst (to_iceberg (mapped_of f) (n + 1))"
  by (simp_all add: iceberg_column_def Let_def split_beta)

lemma arrow_column_sel:
  "af_name (fst (arrow_column f n)) = name f"
  "af_nullable (fst (arrow_column f n)) = (\<not> required f)"
  "af_type (fst (arrow_column f n)) = fst (to_arrow (mapped_of f) n)"
  by (simp_all add: arrow_column_def split_beta)

lemma build_iceberg_schema_Ok_iff:
  "build_iceberg_schema Ok defs = Ok nested \<longleftrightarrow> nested = fst (map_next_id iceberg_column defs 1)"
  by (auto simp: build_iceberg_schema_def split_beta)

lemmas column_facts =
  arrow_cols.length_columns iceberg_cols.length_columns
  arrow_cols.nth_column iceberg_cols.nth_column arrow_column_sel iceberg_column_sel

section \<open>The ids of an Iceberg schema\<close>

text \<open>All field ids of a column, outermost first.\<close>

fun type_ids :: "iceberg_type \<Rightarrow> i32 list" and field_ids :: "nested_field \<Rightarrow> i32 list" where
  "type_ids (Primitive p) = []"
| "type_ids (TList f) = field_ids f"
| "field_ids (NestedField i n r t) = i # type_ids t"

lemma word_upt_append:
  "map (\<lambda>k. n + of_nat k) [0..<a] @ map (\<lambda>k. n + of_nat a + of_nat k) [0..<b] =
   map (\<lambda>k. n + of_nat k :: i32) [0..<a + b]"
  by (induction b) (simp_all add: algebra_simps)

lemma word_upt_Cons:
  "n # map (\<lambda>k. n + 1 + of_nat k) [0..<b] = map (\<lambda>k. n + of_nat k :: i32) [0..<Suc b]"
  using word_upt_append [of n 1 b] by simp

lemma type_ids_to_iceberg:
  "type_ids (fst (to_iceberg t n)) = map (\<lambda>k. n + of_nat k) [0..<list_depth t]"
  by (induction t arbitrary: n) (auto simp: split_beta word_upt_Cons simp del: upt_Suc)

lemma field_ids_iceberg_column:
  "field_ids (fst (iceberg_column f n)) = map (\<lambda>k. n + of_nat k) [0..<iceberg_ids_taken f]"
  by (simp add: iceberg_column_def Let_def iceberg_ids_taken_def split_beta type_ids_to_iceberg
      word_upt_Cons del: upt_Suc)

lemma iceberg_schema_ids_from:
  "concat (map field_ids (fst (map_next_id iceberg_column fs n))) =
   map (\<lambda>k. n + of_nat k) [0..<sum_list (map iceberg_ids_taken fs)]"
  by (induction fs arbitrary: n)
    (simp_all add: split_beta field_ids_iceberg_column iceberg_cols.column_next word_upt_append)

lemma inj_on_small_words: "m \<le> 2 ^ 32 \<Longrightarrow> inj_on (\<lambda>k. n + of_nat k :: i32) {0..<m}"
  by (auto intro!: inj_onI simp: of_nat_inverse word_of_nat_eq_iff take_bit_nat_eq_self)

lemma sum_iceberg_ids:
  "sum_list (map iceberg_ids_taken fs) = length fs + sum_list (map arrow_ids_taken fs)"
  by (induction fs) (simp_all add: iceberg_ids_taken_def arrow_ids_taken_def)

section \<open>Properties\<close>

text \<open>C35: the field ids of the Iceberg schema, list elements included, are consecutive from 1 and
  pairwise distinct, as long as they fit the 32-bit counter.\<close>

theorem build_iceberg_schema_ids:
  assumes "sum_list (map iceberg_ids_taken defs) \<le> 2 ^ 32"
    and "build_iceberg_schema Ok defs = Ok nested"
  shows "concat (map field_ids nested) =
           map (\<lambda>k. 1 + of_nat k) [0..<sum_list (map iceberg_ids_taken defs)] \<and>
         distinct (concat (map field_ids nested))"
proof -
  have nested: "nested = fst (map_next_id iceberg_column defs 1)"
    using assms(2) by (simp only: build_iceberg_schema_Ok_iff)
  have ids: "concat (map field_ids nested) =
      map (\<lambda>k. 1 + of_nat k) [0..<sum_list (map iceberg_ids_taken defs)]"
    by (simp add: nested iceberg_schema_ids_from)
  show ?thesis
    unfolding ids distinct_map by (auto intro: inj_on_small_words [OF assms(1)])
qed

text \<open>C36: the Arrow schema and the Iceberg schema of the same definitions have the same columns:
  the same names in the same order, nullable exactly where the field is not required, and
  types of the same shape.\<close>

theorem schemas_same_columns:
  assumes "build_iceberg_schema Ok defs = Ok nested"
  shows "map af_name (field_defs_to_arrow_schema defs) = map name defs \<and>
         map nf_name nested = map name defs \<and>
         map af_nullable (field_defs_to_arrow_schema defs) = map (\<lambda>f. \<not> nf_required f) nested \<and>
         list_all2 (type_agrees False) (map af_type (field_defs_to_arrow_schema defs))
           (map nf_type nested)"
proof -
  have nested: "nested = fst (map_next_id iceberg_column defs 1)"
    using assms by (simp only: build_iceberg_schema_Ok_iff)
  show ?thesis
    unfolding nested field_defs_to_arrow_schema_def
    by (simp add: list_eq_iff_nth_eq list_all2_conv_all_nth column_facts translations_same_shape)
qed

text \<open>C37: the element ids of list columns do not agree between the two schemas. The Iceberg walk
  takes an id for every top-level field and the Arrow walk does not, so the element id recorded
  in the \<open>i\<close>-th Arrow column is \<open>i + 1\<close> less than the one of the Iceberg column.\<close>

theorem list_element_ids_differ:
  assumes "build_iceberg_schema Ok defs = Ok nested" and "i < length defs" and "Suc i < 2 ^ 32"
    and "mapped_of (defs ! i) = MList t"
  shows "(\<exists>a dt it.
      af_type (field_defs_to_arrow_schema defs ! i) =
        DList (Field ''item'' dt True [(''PARQUET:field_id'', show_i32 a)]) \<and>
      nf_type (nested ! i) = TList (NestedField (a + of_nat (Suc i)) ''element'' False it)) \<and>
    \<not> type_agrees True (af_type (field_defs_to_arrow_schema defs ! i)) (nf_type (nested ! i))"
proof -
  have nested: "nested = fst (map_next_id iceberg_column defs 1)"
    using assms(1) by (simp only: build_iceberg_schema_Ok_iff)
  define a :: i32 where "a = 1 + of_nat (sum_list (map arrow_ids_taken (take i defs)))"
  have "length (take i defs) = i" using assms(2) by simp
  with sum_iceberg_ids [of "take i defs"]
  have start: "1 + of_nat (sum_list (map iceberg_ids_taken (take i defs))) + 1 = a + of_nat (Suc i)"
    by (simp add: a_def algebra_simps)
  have arrow: "af_type (field_defs_to_arrow_schema defs ! i) = fst (to_arrow (MList t) a)"
    and iceberg: "nf_type (nested ! i) = fst (to_iceberg (MList t) (a + of_nat (Suc i)))"
    using assms(2,4) start
    by (simp_all add: nested field_defs_to_arrow_schema_def column_facts a_def [symmetric]
        del: of_nat_Suc to_arrow.simps to_iceberg.simps)
  have "a + of_nat (Suc i) \<noteq> a"
    using assms(3) by (simp add: word_of_nat_eq_0_iff nat_dvd_not_less del: of_nat_Suc)
  then show ?thesis
    unfolding arrow iceberg by (simp add: split_beta show_i32_inj del: of_nat_Suc)
qed

section \<open>Witnesses\<close>

definition demo_defs :: "field_def list" where
  "demo_defs =
     [\<lparr> name = ''id'', field_type = ''string'', required = True \<rparr>,
      \<lparr> name = ''tags'', field_type = ''list(list(int))'', required = False \<rparr>]"

lemma mapped_of_demo: "map mapped_of demo_defs = [MString, MList (MList MInt)]"
  by (simp add: demo_defs_def mapped_of_def from_str_or_string_def from_str_primitive
      from_str_type_names [of "''list(list(int))''" "MList (MList MInt)"])

lemma demo_schema:
  "build_iceberg_schema Ok demo_defs =
     Ok [NestedField 1 ''id'' True (Primitive PString),
         NestedField 2 ''tags'' False (TList (NestedField 3 ''element'' False
           (TList (NestedField 4 ''element'' False (Primitive PInt)))))]"
  using mapped_of_demo
  by (simp add: build_iceberg_schema_def demo_defs_def iceberg_column_def Let_def)

theorem build_iceberg_schema_ids_witness:
  "\<exists>nested. build_iceberg_schema Ok demo_defs = Ok nested \<and>
     concat (map field_ids nested) = [1, 2, 3, 4] \<and> distinct (concat (map field_ids nested))"
proof -
  have "sum_list (map iceberg_ids_taken demo_defs) \<le> 2 ^ 32"
    using mapped_of_demo by (simp add: iceberg_ids_taken_def demo_defs_def)
  from conjunct2 [OF build_iceberg_schema_ids [OF this demo_schema]] demo_schema show ?thesis
    by (simp del: One_nat_def)
qed

theorem schemas_same_columns_witness:
  "map af_name (field_defs_to_arrow_schema demo_defs) = [''id'', ''tags''] \<and>
   map af_nullable (field_defs_to_arrow_schema demo_defs) = [False, True]"
  using schemas_same_columns [OF demo_schema] by (simp add: demo_defs_def)

theorem list_element_ids_differ_witness:
  "\<exists>nested. build_iceberg_schema Ok demo_defs = Ok nested \<and>
     \<not> type_agrees True (af_type (field_defs_to_arrow_schema demo_defs ! 1)) (nf_type (nested ! 1))"
proof -
  have "mapped_of (demo_defs ! 1) = MList (MList MInt)"
    using mapped_of_demo by (simp add: demo_defs_def)
  from list_element_ids_differ [OF demo_schema _ _ this] demo_schema show ?thesis
    by (simp add: demo_defs_def)
qed

end
