(* ===== verification/Metrics.thy ===== *)
theory Metrics
  imports Rust_Std
begin

text \<open>
  src/src/metrics.rs: the counters of the engine. The three plain counters are a record of 64-bit
  values; the two labelled ones are only registered, nothing increments them. The Prometheus
  registry is a parameter: \<open>register\<close> adds a collector of a name or fails, and the source turns a
  failure into a panic, here \<open>None\<close>. The registry's
  families and the text encoder are parameters as well.
\<close>

record metrics =
  PARQUET_FILES_WRITTEN :: u64
  PARQUET_BYTES_WRITTEN :: u64
  CATALOG_COMMITS :: u64

definition zero_metrics :: metrics where
  "zero_metrics = \<lparr> PARQUET_FILES_WRITTEN = 0, PARQUET_BYTES_WRITTEN = 0, CATALOG_COMMITS = 0 \<rparr>"

definition metric_names :: "string list" where
  "metric_names =
     [''engine_parquet_files_written_total'', ''engine_parquet_bytes_written_total'',
      ''engine_catalog_commits_total'', ''engine_ipc_requests_total'', ''engine_ipc_responses_total'']"

fun register_all :: "(string \<Rightarrow> 'r \<Rightarrow> 'r result) \<Rightarrow> string list \<Rightarrow> 'r \<Rightarrow> 'r option" where
  "register_all register [] r = Some r"
| "register_all register (n # ns) r =
     (case register n r of Inl _ \<Rightarrow> None | Inr r' \<Rightarrow> register_all register ns r')"

definition register_custom_metrics :: "(string \<Rightarrow> 'r \<Rightarrow> 'r result) \<Rightarrow> 'r \<Rightarrow> 'r option" where
  "register_custom_metrics register r = register_all register metric_names r"

text \<open>
  \<open>gather_metrics\<close>: the registry's metric families through the text encoder, as a string. Both the
  encoder's error and bytes that are no UTF-8 are panics.
\<close>

definition from_utf8 :: "bytes \<Rightarrow> string option" where
  "from_utf8 bs = (if utf8_valid bs then Some (map (\<lambda>b. char_of (unat b)) bs) else None)"

definition gather_metrics :: "('r \<Rightarrow> 'm) \<Rightarrow> ('m \<Rightarrow> bytes result) \<Rightarrow> 'r \<Rightarrow> string option" where
  "gather_metrics gather encode registry =
     (case encode (gather registry) of
        Inl _ \<Rightarrow> None
      | Inr buffer \<Rightarrow> from_utf8 buffer)"

lemma from_utf8_as_bytes: "utf8_valid (as_bytes s) \<Longrightarrow> from_utf8 (as_bytes s) = Some s"
  by (simp add: from_utf8_def)

lemma from_utf8_inverse: "from_utf8 bs = Some s \<Longrightarrow> as_bytes s = bs"
  by (auto simp: from_utf8_def split: if_splits)

text \<open>
  A registry refuses a name it already has. The engine registers five different names, so on a
  new registry it does not panic.
\<close>

lemma register_all_distinct:
  assumes "\<And>n r. n \<notin> names r \<Longrightarrow> \<exists>r'. register n r = Ok r' \<and> names r' = insert n (names r)"
  shows "distinct ns \<Longrightarrow> set ns \<inter> names r = {} \<Longrightarrow>
    \<exists>r'. register_all register ns r = Some r' \<and> names r' = set ns \<union> names r"
proof (induction ns arbitrary: r)
  case (Cons n ns)
  then obtain r1 where "register n r = Ok r1" "names r1 = insert n (names r)"
    using assms [of n r] by auto
  with Cons.IH [of r1] Cons.prems show ?case by auto
qed simp

end
