(* ===== verification/Iceberg_Writer.thy ===== *)
theory Iceberg_Writer
  imports Schemas Config Metrics
begin

text \<open>
  src/src/iceberg_writer.rs: the catalog handle, the caches of confirmed namespaces and tables,
  creation of the table on first use, and the commit with retries. The iceberg crates are a
  parameter, the record \<open>catalog\<close> of the calls the source makes on a catalog and on a table;
  \<open>catalog_laws\<close> collects what their documentation promises. A call that talks to the catalog
  maps the catalog's state \<open>'c\<close> to a result and a new state.
\<close>

section \<open>The catalog interface\<close>

type_synonym table_ident = "string list \<times> string"

text \<open>
  \<open>'t\<close> are loaded tables, \<open>'s\<close> schemas, \<open>'io\<close> file handles and \<open>'f\<close> data files.
  \<open>append_commit t files\<close> is a transaction on \<open>t\<close> that adds the files with \<open>fast_append\<close> and is
  committed.
\<close>

record ('c, 't, 's, 'io, 'f) catalog =
  namespace_from_vec :: "string list \<Rightarrow> string list result"
  namespace_exists :: "string list \<Rightarrow> 'c \<Rightarrow> bool result \<times> 'c"
  create_namespace :: "string list \<Rightarrow> 'c \<Rightarrow> unit result \<times> 'c"
  table_exists :: "table_ident \<Rightarrow> 'c \<Rightarrow> bool result \<times> 'c"
  load_table :: "table_ident \<Rightarrow> 'c \<Rightarrow> 't result \<times> 'c"
  create_table :: "string list \<Rightarrow> string \<Rightarrow> 's \<Rightarrow> 'c \<Rightarrow> 't result \<times> 'c"
  schema_build :: "nested_field list \<Rightarrow> 's result"
  table_identifier :: "'t \<Rightarrow> table_ident"
  file_io :: "'t \<Rightarrow> 'io"
  location :: "'t \<Rightarrow> string"
  current_schema :: "'t \<Rightarrow> 's"
  append_commit :: "'t \<Rightarrow> 'f list \<Rightarrow> 'c \<Rightarrow> unit result \<times> 'c"

datatype 'k catalog_handle = Glue_Handle 'k | Nessie_Handle 'k

section \<open>State\<close>

record iceberg_state =
  known_namespaces :: "string set"
  known_tables :: "string set"

text \<open>
  What the writer's functions change: the catalog, the caches, the metrics and the log of the
  delays slept, in milliseconds.
\<close>

record 'c world =
  cat :: 'c
  ice :: iceberg_state
  mets :: metrics
  sleeps :: "nat list"

text \<open>Run a catalog call on the world.\<close>

definition on_cat :: "('c \<Rightarrow> 'a result \<times> 'c) \<Rightarrow> 'c world \<Rightarrow> 'a result \<times> 'c world" where
  "on_cat f w = (case f (cat w) of (r, c) \<Rightarrow> (r, w\<lparr>cat := c\<rparr>))"

text \<open>Sequencing with the question-mark operator.\<close>

definition bind_w ::
    "('w \<Rightarrow> 'a result \<times> 'w) \<Rightarrow> ('a \<Rightarrow> 'w \<Rightarrow> 'b result \<times> 'w) \<Rightarrow> 'w \<Rightarrow> 'b result \<times> 'w" where
  "bind_w f g w = (case f w of (Inl e, w') \<Rightarrow> (Inl e, w') | (Inr x, w') \<Rightarrow> g x w')"

definition return_w :: "'a \<Rightarrow> 'w \<Rightarrow> 'a result \<times> 'w" where
  "return_w x w = (Inr x, w)"

section \<open>Operations\<close>

definition note_namespace :: "string \<Rightarrow> 'c world \<Rightarrow> unit result \<times> 'c world" where
  "note_namespace key w =
     (Ok (), w\<lparr>ice := (ice w)\<lparr>known_namespaces := insert key (known_namespaces (ice w))\<rparr>\<rparr>)"

definition note_table :: "string \<Rightarrow> 'c world \<Rightarrow> unit result \<times> 'c world" where
  "note_table key w =
     (Ok (), w\<lparr>ice := (ice w)\<lparr>known_tables := insert key (known_tables (ice w))\<rparr>\<rparr>)"

definition ensure_namespace ::
    "('c, 't, 's, 'io, 'f) catalog \<Rightarrow> string list \<Rightarrow> string list \<Rightarrow> 'c world \<Rightarrow> unit result \<times> 'c world" where
  "ensure_namespace K namespace ns_ident w =
     (let ns_key = join ''/'' namespace in
      if ns_key \<notin> known_namespaces (ice w) then
        bind_w (on_cat (namespace_exists K ns_ident)) (\<lambda>exists.
        bind_w (if \<not> exists then on_cat (create_namespace K ns_ident) else return_w ()) (\<lambda>_.
        note_namespace ns_key)) w
      else (Ok (), w))"

definition table_key :: "string list \<Rightarrow> string \<Rightarrow> string" where
  "table_key namespace table_name = join ''/'' namespace @ ''/'' @ table_name"

definition get_or_create_table ::
    "('c, 't, 's, 'io, 'f) catalog \<Rightarrow> string \<Rightarrow> string list \<Rightarrow> field_def list \<Rightarrow> 'c world \<Rightarrow> 't result \<times> 'c world" where
  "get_or_create_table K table_name namespace defs w =
     (case namespace_from_vec K namespace of
        Inl e \<Rightarrow> (Err e, w)
      | Inr ns_ident \<Rightarrow>
          (let table_ident = (ns_ident, table_name); key = table_key namespace table_name in
           bind_w (ensure_namespace K namespace ns_ident) (\<lambda>_ w1.
             if key \<in> known_tables (ice w1) then on_cat (load_table K table_ident) w1
             else
               bind_w (on_cat (table_exists K table_ident)) (\<lambda>exists.
               bind_w
                 (if exists then on_cat (load_table K table_ident)
                  else (\<lambda>w2. case build_iceberg_schema (schema_build K) defs of
                          Inl e \<Rightarrow> (Err e, w2)
                        | Inr schema \<Rightarrow> on_cat (create_table K ns_ident table_name schema) w2)) (\<lambda>t.
               bind_w (note_table key) (\<lambda>_. return_w t))) w1) w))"

definition get_table_write_context ::
    "('c, 't, 's, 'io, 'f) catalog catalog_handle \<Rightarrow> string \<Rightarrow> string list \<Rightarrow> field_def list \<Rightarrow> 'c world \<Rightarrow>
     ('io \<times> string \<times> 's) result \<times> 'c world" where
  "get_table_write_context h table_name namespace defs =
     (case h of
        Glue_Handle K \<Rightarrow>
          bind_w (get_or_create_table K table_name namespace defs)
            (\<lambda>t. return_w (file_io K t, location K t, current_schema K t))
      | Nessie_Handle K \<Rightarrow>
          bind_w (get_or_create_table K table_name namespace defs)
            (\<lambda>t. return_w (file_io K t, location K t, current_schema K t)))"

text \<open>
  The loop of \<open>commit_with_retry\<close> over the attempts that are left; \<open>None\<close> is the
  \<open>unreachable!()\<close> after the loop.
\<close>

definition max_attempts :: nat where
  "max_attempts = 5"

fun retry_loop ::
    "('c, 't, 's, 'io, 'f) catalog \<Rightarrow> 't \<Rightarrow> 'f list \<Rightarrow> nat list \<Rightarrow> nat \<Rightarrow> 'c world \<Rightarrow>
     unit result option \<times> 'c world" where
  "retry_loop K table data_files [] delay w = (None, w)"
| "retry_loop K table data_files (attempt # attempts) delay w =
     (case (if attempt > 1 then on_cat (load_table K (table_identifier K table)) w else (Ok table, w)) of
        (Inl e, w1) \<Rightarrow> (Some (Err e), w1)
      | (Inr fresh_table, w1) \<Rightarrow>
          (case on_cat (append_commit K fresh_table data_files) w1 of
             (Inr _, w2) \<Rightarrow> (Some (Ok ()), w2)
           | (Inl e, w2) \<Rightarrow>
               if attempt < max_attempts
               then retry_loop K table data_files attempts (min (delay * 2) 30000)
                      (w2\<lparr>sleeps := sleeps w2 @ [delay]\<rparr>)
               else (Some (Err (''Iceberg commit failed after all retries'' # e)), w2)))"

definition commit_with_retry ::
    "('c, 't, 's, 'io, 'f) catalog \<Rightarrow> 't \<Rightarrow> 'f list \<Rightarrow> 'c world \<Rightarrow> unit result \<times> 'c world" where
  "commit_with_retry K table data_files w =
     (case retry_loop K table data_files [1..<max_attempts + 1] 200 w of
        (Some r, w') \<Rightarrow> (r, w')
      | (None, w') \<Rightarrow> (Err [''internal error: entered unreachable code''], w'))"

definition do_commit_data_files ::
    "('c, 't, 's, 'io, 'f) catalog \<Rightarrow> string \<Rightarrow> string list \<Rightarrow> 'f list \<Rightarrow> field_def list \<Rightarrow> 'c world \<Rightarrow>
     unit result \<times> 'c world" where
  "do_commit_data_files K table_name namespace data_files defs =
     bind_w (get_or_create_table K table_name namespace defs) (\<lambda>table.
     bind_w (commit_with_retry K table data_files) (\<lambda>_ w.
     (Ok (), w\<lparr>mets := (mets w)\<lparr>CATALOG_COMMITS := CATALOG_COMMITS (mets w) + 1\<rparr>\<rparr>)))"

definition commit_data_files ::
    "('c, 't, 's, 'io, 'f) catalog catalog_handle \<Rightarrow> string \<Rightarrow> string list \<Rightarrow> 'f list \<Rightarrow> field_def list \<Rightarrow>
     'c world \<Rightarrow> unit result \<times> 'c world" where
  "commit_data_files h table_name namespace data_files defs w =
     (if data_files = [] then (Ok (), w)
      else case h of
        Glue_Handle K \<Rightarrow> do_commit_data_files K table_name namespace data_files defs w
      | Nessie_Handle K \<Rightarrow> do_commit_data_files K table_name namespace data_files defs w)"

text \<open>
  Building the catalog: the properties passed to the catalog builders. A \<open>None\<close> is the panic of
  an \<open>unwrap\<close>. \<open>load_rest\<close> and \<open>load_glue\<close> stand for the builders' \<open>load\<close>, that of the REST catalog
  with the S3 storage factory it is given.
\<close>

definition nessie_props :: "config \<Rightarrow> (string \<times> string) list option" where
  "nessie_props cfg =
     (case (minio_url cfg, minio_access_key cfg, minio_secret_key cfg, nessie_uri cfg) of
        (Some url, Some access, Some secret, Some uri) \<Rightarrow>
          Some [(''s3.endpoint'', url), (''s3.access-key-id'', access),
                (''s3.secret-access-key'', secret), (''s3.path-style-access'', ''true''),
                (''warehouse'', warehouse cfg), (''uri'', uri)]
      | _ \<Rightarrow> None)"

definition glue_props :: "config \<Rightarrow> (string \<times> string) list" where
  "glue_props cfg =
     (''warehouse'', warehouse cfg) #
     (case glue_catalog_id cfg of Some i \<Rightarrow> [(''catalog_id'', i)] | None \<Rightarrow> [])"

definition build_nessie_catalog ::
    "(string \<Rightarrow> (string \<times> string) list \<Rightarrow> 'k result) \<Rightarrow> config \<Rightarrow> 'k result option" where
  "build_nessie_catalog load_rest cfg =
     (case nessie_props cfg of
        None \<Rightarrow> None
      | Some props \<Rightarrow> Some (load_rest ''rest_catalog'' props))"

definition build_glue_catalog ::
    "(string \<Rightarrow> (string \<times> string) list \<Rightarrow> 'k result) \<Rightarrow> config \<Rightarrow> 'k result" where
  "build_glue_catalog load_glue cfg = load_glue ''glue_catalog'' (glue_props cfg)"

definition build_catalog ::
    "(string \<Rightarrow> (string \<times> string) list \<Rightarrow> 'k result) \<Rightarrow> (string \<Rightarrow> (string \<times> string) list \<Rightarrow> 'k result) \<Rightarrow>
     config \<Rightarrow> 'k catalog_handle result option" where
  "build_catalog load_rest load_glue cfg =
     (case catalog_type cfg of
        Glue \<Rightarrow> Some (and_then (build_glue_catalog load_glue cfg) (\<lambda>k. Ok (Glue_Handle k)))
      | Nessie \<Rightarrow>
          (case build_nessie_catalog load_rest cfg of
             None \<Rightarrow> None
           | Some r \<Rightarrow> Some (and_then r (\<lambda>k. Ok (Nessie_Handle k)))))"

lemmas build_catalog_defs = build_catalog_def build_nessie_catalog_def build_glue_catalog_def

section \<open>What the catalog promises\<close>

text \<open>
  The catalog's state as the engine sees it: the data files of the current snapshot of every
  table, and the namespaces. Queries change nothing; a namespace or table that is created
  exists afterwards; a commit that succeeds has added its files to the table it was made on. A commit
  that fails has added all of them or none: the response may be what failed. A catalog is
  \<open>truthful\<close> if a commit that fails has added none.
\<close>

type_synonym ('c, 'f) snapshots = "'c \<Rightarrow> table_ident \<Rightarrow> 'f list option"
type_synonym 'c namespaces = "'c \<Rightarrow> string list set"

definition same_catalog :: "('c, 'f) snapshots \<Rightarrow> 'c namespaces \<Rightarrow> 'c \<Rightarrow> 'c \<Rightarrow> bool" where
  "same_catalog tabs nss c c' \<longleftrightarrow> tabs c' = tabs c \<and> nss c' = nss c"

definition query_law ::
    "('c, 't, 's, 'io, 'f) catalog \<Rightarrow> ('c, 'f) snapshots \<Rightarrow> 'c namespaces \<Rightarrow> bool" where
  "query_law K tabs nss \<longleftrightarrow>
     (\<forall>ns ns'. namespace_from_vec K ns = Ok ns' \<longrightarrow> ns' = ns) \<and>
     (\<forall>ns c r c'. namespace_exists K ns c = (r, c') \<longrightarrow>
        same_catalog tabs nss c c' \<and> (\<forall>b. r = Ok b \<longrightarrow> b = (ns \<in> nss c))) \<and>
     (\<forall>i c r c'. table_exists K i c = (r, c') \<longrightarrow>
        same_catalog tabs nss c c' \<and> (\<forall>b. r = Ok b \<longrightarrow> b = (tabs c i \<noteq> None))) \<and>
     (\<forall>i c r c'. load_table K i c = (r, c') \<longrightarrow>
        same_catalog tabs nss c c' \<and>
        (\<forall>t. r = Ok t \<longrightarrow> table_identifier K t = i \<and> tabs c i \<noteq> None))"

definition creation_law ::
    "('c, 't, 's, 'io, 'f) catalog \<Rightarrow> ('c, 'f) snapshots \<Rightarrow> 'c namespaces \<Rightarrow> bool" where
  "creation_law K tabs nss \<longleftrightarrow>
     (\<forall>ns c r c'. create_namespace K ns c = (r, c') \<longrightarrow>
        tabs c' = tabs c \<and> nss c' = (if is_ok r then insert ns (nss c) else nss c)) \<and>
     (\<forall>ns n schema c r c'. create_table K ns n schema c = (r, c') \<longrightarrow>
        nss c' = nss c \<and>
        (case r of
           Inl e \<Rightarrow> tabs c' = tabs c
         | Inr t \<Rightarrow> table_identifier K t = (ns, n) \<and> tabs c (ns, n) = None \<and>
             tabs c' = (tabs c)((ns, n) \<mapsto> [])))"

definition commit_law ::
    "('c, 't, 's, 'io, 'f) catalog \<Rightarrow> ('c, 'f) snapshots \<Rightarrow> 'c namespaces \<Rightarrow> bool" where
  "commit_law K tabs nss \<longleftrightarrow>
     (\<forall>t files c r c'. append_commit K t files c = (r, c') \<longrightarrow>
        nss c' = nss c \<and>
        (\<not> is_ok r \<and> tabs c' = tabs c \<or>
         (\<exists>old. tabs c (table_identifier K t) = Some old \<and>
            tabs c' = (tabs c)(table_identifier K t \<mapsto> old @ files))))"

definition truthful :: "('c, 't, 's, 'io, 'f) catalog \<Rightarrow> ('c, 'f) snapshots \<Rightarrow> bool" where
  "truthful K tabs \<longleftrightarrow>
     (\<forall>t files c r c'. append_commit K t files c = (r, c') \<longrightarrow> \<not> is_ok r \<longrightarrow> tabs c' = tabs c)"

definition catalog_laws ::
    "('c, 't, 's, 'io, 'f) catalog \<Rightarrow> ('c, 'f) snapshots \<Rightarrow> 'c namespaces \<Rightarrow> bool" where
  "catalog_laws K tabs nss \<longleftrightarrow>
     query_law K tabs nss \<and> creation_law K tabs nss \<and> commit_law K tabs nss"

primrec handle_catalog :: "'k catalog_handle \<Rightarrow> 'k" where
  "handle_catalog (Glue_Handle k) = k"
| "handle_catalog (Nessie_Handle k) = k"

text \<open>
  The caches are sound: what they remember of a namespace exists in the catalog.
\<close>

definition cache_inv ::
    "('c, 'f) snapshots \<Rightarrow> 'c namespaces \<Rightarrow> string list \<Rightarrow> 'c world \<Rightarrow> bool" where
  "cache_inv tabs nss ns w \<longleftrightarrow>
     (join ''/'' ns \<in> known_namespaces (ice w) \<longrightarrow> ns \<in> nss (cat w)) \<and>
     (\<forall>n. table_key ns n \<in> known_tables (ice w) \<longrightarrow> tabs (cat w) (ns, n) \<noteq> None)"

text \<open>The data files of a table; none where the table does not exist.\<close>

definition files_of :: "('c, 'f) snapshots \<Rightarrow> 'c world \<Rightarrow> table_ident \<Rightarrow> 'f list" where
  "files_of tabs w i = (case tabs (cat w) i of None \<Rightarrow> [] | Some fs \<Rightarrow> fs)"

lemma table_key_inj [simp]: "table_key ns n = table_key ns m \<longleftrightarrow> n = m"
  by (simp add: table_key_def)

lemma load_table_law:
  assumes "catalog_laws K tabs nss" and "load_table K i c = (r, c')"
  shows "tabs c' = tabs c" and "nss c' = nss c"
    and "r = Ok t \<Longrightarrow> table_identifier K t = i \<and> tabs c i \<noteq> None"
  using assms unfolding catalog_laws_def query_law_def same_catalog_def by blast+

lemma namespace_exists_law:
  assumes "catalog_laws K tabs nss" and "namespace_exists K ns c = (r, c')"
  shows "tabs c' = tabs c" and "nss c' = nss c" and "r = Ok b \<Longrightarrow> b = (ns \<in> nss c)"
  using assms unfolding catalog_laws_def query_law_def same_catalog_def by simp_all

lemma table_exists_law:
  assumes "catalog_laws K tabs nss" and "table_exists K i c = (r, c')"
  shows "tabs c' = tabs c" and "nss c' = nss c" and "r = Ok b \<Longrightarrow> b = (tabs c i \<noteq> None)"
  using assms unfolding catalog_laws_def query_law_def same_catalog_def by blast+

lemma create_namespace_law:
  assumes "catalog_laws K tabs nss" and "create_namespace K ns c = (r, c')"
  shows "tabs c' = tabs c" and "nss c' = (if is_ok r then insert ns (nss c) else nss c)"
  using assms unfolding catalog_laws_def creation_law_def by simp_all

lemma create_table_law:
  assumes "catalog_laws K tabs nss" and "create_table K ns n schema c = (r, c')"
  shows "nss c' = nss c" and "r = Err e \<Longrightarrow> tabs c' = tabs c"
    and "r = Ok t \<Longrightarrow> table_identifier K t = (ns, n) \<and> tabs c (ns, n) = None \<and>
      tabs c' = (tabs c)((ns, n) \<mapsto> [])"
  using assms unfolding catalog_laws_def creation_law_def by (fastforce split: sum.splits)+

text \<open>Files added to a table a number of times.\<close>

definition copies :: "nat \<Rightarrow> 'f list \<Rightarrow> 'f list" where
  "copies k files = concat (replicate k files)"

lemma copies_simps [simp]:
  "copies 0 files = []" "copies (Suc k) files = files @ copies k files" "copies k [] = []"
  by (simp_all add: copies_def concat_replicate_trivial)

lemma copies_one [simp]: "copies 1 files = files"
  by (simp add: copies_def)

lemma copies_add: "copies (j + k) files = copies j files @ copies k files"
  by (induction j) simp_all

definition appended ::
    "('c, 'f) snapshots \<Rightarrow> table_ident \<Rightarrow> 'f list \<Rightarrow> nat \<Rightarrow> 'c \<Rightarrow> 'c \<Rightarrow> bool" where
  "appended tabs i files k c c' \<longleftrightarrow>
     tabs c' = (tabs c)(i := map_option (\<lambda>old. old @ copies k files) (tabs c i)) \<and>
     (0 < k \<longrightarrow> tabs c i \<noteq> None)"

lemma appended_none: "tabs c' = tabs c \<Longrightarrow> appended tabs i files 0 c c'"
  by (simp add: appended_def option.map_ident fun_upd_idem)

lemma appended_trans: "appended tabs i files j c c1 \<Longrightarrow> appended tabs i files k c1 c2 \<Longrightarrow> appended tabs i files (j + k) c c2"
  by (auto simp: appended_def copies_add option.map_comp o_def)

text \<open>How often a result allows: once at least if it is a success, and just so often if \<open>exact\<close>.\<close>

definition times_ok :: "bool \<Rightarrow> 'a result \<Rightarrow> nat \<Rightarrow> bool" where
  "times_ok exact r k \<longleftrightarrow> (is_ok r \<longrightarrow> 0 < k) \<and> (exact \<longrightarrow> k = (if is_ok r then 1 else 0))"

lemma append_commit_law:
  assumes "catalog_laws K tabs nss" and "append_commit K t files c = (r, c')"
  shows "nss c' = nss c"
    and "\<exists>k \<le> 1. appended tabs (table_identifier K t) files k c c' \<and> times_ok (truthful K tabs) r k"
proof -
  have law: "nss c' = nss c \<and> (\<not> is_ok r \<and> tabs c' = tabs c \<or>
      (\<exists>old. tabs c (table_identifier K t) = Some old \<and> tabs c' = (tabs c)(table_identifier K t \<mapsto> old @ files)))"
    using assms unfolding catalog_laws_def commit_law_def by simp
  then show "nss c' = nss c" by simp
  have tr: "truthful K tabs \<Longrightarrow> \<not> is_ok r \<Longrightarrow> tabs c' = tabs c"
    using assms(2) unfolding truthful_def by blast
  show "\<exists>k \<le> 1. appended tabs (table_identifier K t) files k c c' \<and> times_ok (truthful K tabs) r k"
  proof (cases "\<not> is_ok r \<and> tabs c' = tabs c")
    case True
    then show ?thesis by (intro exI [of _ 0]) (simp add: appended_none times_ok_def)
  next
    case False
    with law tr show ?thesis by (intro exI [of _ 1]) (auto simp: appended_def times_ok_def)
  qed
qed

section \<open>Rules for sequences of calls\<close>

text \<open>
  \<open>ensures P f Q\<close>: from a world with \<open>P\<close>, the call \<open>f\<close> ends with a result and a world that
  satisfy \<open>Q\<close>.
\<close>

definition ensures :: "('w \<Rightarrow> bool) \<Rightarrow> ('w \<Rightarrow> 'a result \<times> 'w) \<Rightarrow> ('a result \<Rightarrow> 'w \<Rightarrow> bool) \<Rightarrow> bool" where
  "ensures P f Q \<longleftrightarrow> (\<forall>w r w'. P w \<longrightarrow> f w = (r, w') \<longrightarrow> Q r w')"

lemma ensuresD: "ensures P f Q \<Longrightarrow> P w \<Longrightarrow> f w = (r, w') \<Longrightarrow> Q r w'"
  by (simp add: ensures_def)

lemma ensures_mono: "ensures P f Q \<Longrightarrow> (\<And>r w. Q r w \<Longrightarrow> Q' r w) \<Longrightarrow> ensures P f Q'"
  by (auto simp: ensures_def)

lemma ensures_pre: "ensures P f Q \<Longrightarrow> (\<And>w. P' w \<Longrightarrow> P w) \<Longrightarrow> ensures P' f Q"
  by (auto simp: ensures_def)

lemma ensures_bind:
  assumes "ensures P f (\<lambda>r w. case r of Inl e \<Rightarrow> Q (Inl e) w | Inr x \<Rightarrow> R x w)"
    and "\<And>x. ensures (R x) (g x) Q"
  shows "ensures P (bind_w f g) Q"
  using assms unfolding ensures_def bind_w_def by (fastforce split: prod.splits sum.splits)

lemma ensures_on_cat:
  "ensures P (on_cat f) Q \<longleftrightarrow> (\<forall>w r c. P w \<longrightarrow> f (cat w) = (r, c) \<longrightarrow> Q r (w\<lparr>cat := c\<rparr>))"
  by (fastforce simp: ensures_def on_cat_def split: prod.splits)

lemma ensures_return: "(\<And>w. P w \<Longrightarrow> Q (Inr x) w) \<Longrightarrow> ensures P (return_w x) Q"
  by (simp add: ensures_def return_w_def)

lemma ensures_if:
  "(b \<Longrightarrow> ensures P f Q) \<Longrightarrow> (\<not> b \<Longrightarrow> ensures P g Q) \<Longrightarrow> ensures P (if b then f else g) Q"
  by simp

section \<open>Creating the table\<close>

text \<open>
  What the calls before a commit keep, compared with the world \<open>w0\<close> they started from: sound
  caches, the files of every table, and the metrics and delays.
\<close>

definition keeps ::
    "('c, 'f) snapshots \<Rightarrow> 'c namespaces \<Rightarrow> string list \<Rightarrow> 'c world \<Rightarrow> 'c world \<Rightarrow> bool" where
  "keeps tabs nss ns w0 w \<longleftrightarrow>
     cache_inv tabs nss ns w \<and> (\<forall>i. files_of tabs w i = files_of tabs w0 i) \<and>
     mets w = mets w0 \<and> sleeps w = sleeps w0"

lemma keeps_query:
  "keeps tabs nss ns w0 w \<Longrightarrow> tabs c = tabs (cat w) \<Longrightarrow> nss (cat w) \<subseteq> nss c \<Longrightarrow>
   keeps tabs nss ns w0 (w\<lparr>cat := c\<rparr>)"
  by (auto simp: keeps_def cache_inv_def files_of_def)

lemma ensure_namespace_keeps:
  assumes laws: "catalog_laws K tabs nss"
  shows "ensures (keeps tabs nss ns w0) (ensure_namespace K ns ns) (\<lambda>r. keeps tabs nss ns w0)"
proof -
  let ?I = "keeps tabs nss ns w0"
  have ex: "ensures ?I (on_cat (namespace_exists K ns))
      (\<lambda>r w. case r of Inl e \<Rightarrow> ?I w | Inr b \<Rightarrow> ?I w \<and> b = (ns \<in> nss (cat w)))"
    unfolding ensures_on_cat
    by (auto simp: namespace_exists_law [OF laws] intro!: keeps_query split: sum.splits)
  have create: "ensures (\<lambda>w. ?I w \<and> b = (ns \<in> nss (cat w)))
      (if \<not> b then on_cat (create_namespace K ns) else return_w ())
      (\<lambda>r w. case r of Inl e \<Rightarrow> ?I w | Inr _ \<Rightarrow> ?I w \<and> ns \<in> nss (cat w))" for b
    by (rule ensures_if)
      (auto simp: ensures_on_cat create_namespace_law [OF laws] intro!: keeps_query ensures_return
        split: sum.splits)
  have note_ns: "ensures (\<lambda>w. ?I w \<and> ns \<in> nss (cat w)) (note_namespace (join ''/'' ns)) (\<lambda>r. ?I)"
    by (auto simp: ensures_def note_namespace_def keeps_def cache_inv_def files_of_def)
  have "ensures ?I
      (bind_w (on_cat (namespace_exists K ns)) (\<lambda>b.
       bind_w (if \<not> b then on_cat (create_namespace K ns) else return_w ()) (\<lambda>_.
       note_namespace (join ''/'' ns)))) (\<lambda>r. ?I)"
    by (rule ensures_bind [OF ex], rule ensures_bind [OF create], rule note_ns)
  then show ?thesis
    unfolding ensures_def ensure_namespace_def Let_def by (auto split: if_splits)
qed

lemma ensures_cond:
  "ensures (\<lambda>w. P w \<and> b w) f Q \<Longrightarrow> ensures (\<lambda>w. P w \<and> \<not> b w) g Q \<Longrightarrow>
   ensures P (\<lambda>w. if b w then f w else g w) Q"
  by (auto simp: ensures_def)

lemma load_keeps:
  assumes "catalog_laws K tabs nss"
  shows "ensures (keeps tabs nss ns w0) (on_cat (load_table K i))
    (\<lambda>r w. keeps tabs nss ns w0 w \<and> (\<forall>t. r = Ok t \<longrightarrow> table_identifier K t = i \<and> tabs (cat w) i \<noteq> None))"
  unfolding ensures_on_cat
  by (auto simp: load_table_law [OF assms] intro!: keeps_query)

lemma create_keeps:
  assumes laws: "catalog_laws K tabs nss"
  shows "ensures (keeps tabs nss ns w0) (on_cat (create_table K ns n schema))
    (\<lambda>r w. keeps tabs nss ns w0 w \<and>
       (\<forall>t. r = Ok t \<longrightarrow> table_identifier K t = (ns, n) \<and> tabs (cat w) (ns, n) \<noteq> None))"
  unfolding ensures_on_cat
proof (intro allI impI)
  fix w r c
  assume keep: "keeps tabs nss ns w0 w" and run: "create_table K ns n schema (cat w) = (r, c)"
  note law = create_table_law [OF laws run]
  show "keeps tabs nss ns w0 (w\<lparr>cat := c\<rparr>) \<and> (\<forall>t. r = Ok t \<longrightarrow>
      table_identifier K t = (ns, n) \<and> tabs (cat (w\<lparr>cat := c\<rparr>)) (ns, n) \<noteq> None)"
  proof (cases r)
    case (Inl e)
    with keep law show ?thesis by (auto intro: keeps_query)
  next
    case (Inr t)
    have "files_of tabs (w\<lparr>cat := c\<rparr>) i = files_of tabs w i" for i
      using law(3) [OF Inr] by (auto simp: files_of_def)
    with keep law Inr show ?thesis by (auto simp: keeps_def cache_inv_def)
  qed
qed

lemma get_or_create_table_keeps:
  assumes laws: "catalog_laws K tabs nss"
  shows "ensures (keeps tabs nss ns w0) (get_or_create_table K n ns defs)
    (\<lambda>r w. keeps tabs nss ns w0 w \<and>
       (\<forall>t. r = Ok t \<longrightarrow> table_identifier K t = (ns, n) \<and> tabs (cat w) (ns, n) \<noteq> None))"
proof (cases "namespace_from_vec K ns")
  case (Inl e)
  then show ?thesis by (auto simp: ensures_def get_or_create_table_def)
next
  case (Inr ns')
  then have ns': "ns' = ns" using laws by (auto simp: catalog_laws_def query_law_def)
  let ?I = "keeps tabs nss ns w0" and ?key = "table_key ns n"
  let ?Q = "\<lambda>r w. ?I w \<and> (\<forall>t. r = Ok t \<longrightarrow> table_identifier K t = (ns, n) \<and> tabs (cat w) (ns, n) \<noteq> None)"
  let ?make = "\<lambda>b. if b then on_cat (load_table K (ns, n))
    else (\<lambda>w. case build_iceberg_schema (schema_build K) defs of Inl e \<Rightarrow> (Err e, w)
           | Inr schema \<Rightarrow> on_cat (create_table K ns n schema) w)"
  have ex: "ensures ?I (on_cat (table_exists K (ns, n))) (\<lambda>r w. ?I w)"
    unfolding ensures_on_cat by (auto simp: table_exists_law [OF laws] intro!: keeps_query)
  have make: "ensures ?I (?make b) ?Q" for b
  proof (rule ensures_if)
    show "ensures ?I (on_cat (load_table K (ns, n))) ?Q" by (rule load_keeps [OF laws])
    show "ensures ?I (\<lambda>w. case build_iceberg_schema (schema_build K) defs of Inl e \<Rightarrow> (Err e, w)
        | Inr schema \<Rightarrow> on_cat (create_table K ns n schema) w) ?Q"
    proof (cases "build_iceberg_schema (schema_build K) defs")
      case (Inl e)
      then show ?thesis by (simp add: ensures_def)
    next
      case (Inr schema)
      then show ?thesis using create_keeps [OF laws, of ns w0 n schema] by simp
    qed
  qed
  have noted: "ensures (\<lambda>w. ?I w \<and> table_identifier K t = (ns, n) \<and> tabs (cat w) (ns, n) \<noteq> None)
      (bind_w (note_table ?key) (\<lambda>_. return_w t)) ?Q" for t
    by (auto simp: ensures_def bind_w_def note_table_def return_w_def keeps_def cache_inv_def files_of_def)
  have slow: "ensures ?I (bind_w (on_cat (table_exists K (ns, n))) (\<lambda>b. bind_w (?make b)
      (\<lambda>t. bind_w (note_table ?key) (\<lambda>_. return_w t)))) ?Q"
  proof (rule ensures_bind [where R = "\<lambda>_. ?I"])
    show "ensures ?I (on_cat (table_exists K (ns, n))) (\<lambda>r w. case r of Inl e \<Rightarrow> ?Q (Inl e) w | Inr x \<Rightarrow> ?I w)"
      by (rule ensures_mono [OF ex]) (auto split: sum.splits)
    show "ensures ?I (bind_w (?make b) (\<lambda>t. bind_w (note_table ?key) (\<lambda>_. return_w t))) ?Q" for b
      by (rule ensures_bind [OF ensures_mono [OF make] noted]) (auto split: sum.splits)
  qed
  have "ensures ?I (bind_w (ensure_namespace K ns ns) (\<lambda>_ w1.
      if ?key \<in> known_tables (ice w1) then on_cat (load_table K (ns, n)) w1
      else bind_w (on_cat (table_exists K (ns, n))) (\<lambda>b. bind_w (?make b)
        (\<lambda>t. bind_w (note_table ?key) (\<lambda>_. return_w t))) w1)) ?Q"
  proof (rule ensures_bind [where R = "\<lambda>_. ?I"], goal_cases)
    case 1
    show ?case by (rule ensures_mono [OF ensure_namespace_keeps [OF laws]]) (auto split: sum.splits)
  next
    case (2 x)
    show ?case
      by (rule ensures_cond [OF ensures_pre [OF load_keeps [OF laws]] ensures_pre [OF slow]]) simp_all
  qed
  then show ?thesis
    unfolding ensures_def get_or_create_table_def by (simp add: Inr ns' Let_def)
qed

section \<open>Committing with retries\<close>

text \<open>The delays between attempts.\<close>

fun backoff :: "nat \<Rightarrow> nat \<Rightarrow> nat list" where
  "backoff 0 d = []"
| "backoff (Suc n) d = d # backoff n (min (d * 2) 30000)"

text \<open>
  What a number of attempts comes to: the caches and counters stay, the engine has slept for
  some of the delays, and the files were appended to the table as often as the result allows.
\<close>

definition attempted ::
    "bool \<Rightarrow> ('c, 'f) snapshots \<Rightarrow> 'c namespaces \<Rightarrow> table_ident \<Rightarrow> 'f list \<Rightarrow> nat \<Rightarrow> nat list \<Rightarrow> 'c world \<Rightarrow>
     unit result \<Rightarrow> 'c world \<Rightarrow> bool" where
  "attempted exact tabs nss ident files n delays w r w' \<longleftrightarrow>
     ice w' = ice w \<and> mets w' = mets w \<and> nss (cat w') = nss (cat w) \<and>
     (\<exists>k. sleeps w' = sleeps w @ take k delays) \<and>
     (\<exists>k \<le> n. appended tabs ident files k (cat w) (cat w') \<and> times_ok exact r k)"

text \<open>One attempt, and whether its error is one to retry after.\<close>

definition attempt ::
    "('c, 't, 's, 'io, 'f) catalog \<Rightarrow> 't \<Rightarrow> 'f list \<Rightarrow> nat \<Rightarrow> 'c world \<Rightarrow> unit result \<times> bool \<times> 'c world" where
  "attempt K t files a w =
     (case (if a > 1 then on_cat (load_table K (table_identifier K t)) w else (Ok t, w)) of
        (Inl e, w1) \<Rightarrow> (Err e, False, w1)
      | (Inr t', w1) \<Rightarrow> (case on_cat (append_commit K t' files) w1 of (r, w2) \<Rightarrow> (r, True, w2)))"

lemma retry_loop_attempt:
  "retry_loop K t files (a # as) delay w =
     (case attempt K t files a w of
        (Inr _, _, w2) \<Rightarrow> (Some (Ok ()), w2)
      | (Inl e, False, w2) \<Rightarrow> (Some (Err e), w2)
      | (Inl e, True, w2) \<Rightarrow>
          if a < max_attempts
          then retry_loop K t files as (min (delay * 2) 30000) (w2\<lparr>sleeps := sleeps w2 @ [delay]\<rparr>)
          else (Some (Err (''Iceberg commit failed after all retries'' # e)), w2))"
  by (simp add: attempt_def split: prod.splits sum.splits)

lemma attempt_spec:
  assumes laws: "catalog_laws K tabs nss" and run: "attempt K t files a w = (r, again, w')"
  shows "attempted (truthful K tabs) tabs nss (table_identifier K t) files 1 delays w r w'" and "sleeps w' = sleeps w"
proof -
  let ?i = "table_identifier K t"
  obtain lr w1 where load: "(if a > 1 then on_cat (load_table K ?i) w else (Ok t, w)) = (lr, w1)"
    by force
  have w1: "tabs (cat w1) = tabs (cat w)" "nss (cat w1) = nss (cat w)" "ice w1 = ice w" "mets w1 = mets w"
      "sleeps w1 = sleeps w" "\<forall>t'. lr = Ok t' \<longrightarrow> table_identifier K t' = ?i"
    using load by (auto simp: on_cat_def load_table_law [OF laws] split: if_splits prod.splits)
  have none: "\<exists>k. xs = xs @ take k delays" for xs :: "nat list" by (rule exI [of _ 0]) simp
  have "attempted (truthful K tabs) tabs nss ?i files 1 delays w r w' \<and> sleeps w' = sleeps w"
  proof (cases lr)
    case (Inl e)
    then have "r = Err e" "w' = w1" using run load by (auto simp: attempt_def)
    with w1 none show ?thesis
      by (auto simp: attempted_def times_ok_def intro!: exI [of _ 0] appended_none)
  next
    case (Inr t')
    obtain cr c where commit: "append_commit K t' files (cat w1) = (cr, c)" by force
    have out: "r = cr" "w' = w1\<lparr>cat := c\<rparr>" using run load Inr commit by (auto simp: attempt_def on_cat_def)
    have "appended tabs ?i files k (cat w) c" if "appended tabs ?i files k (cat w1) c" for k
      using that by (simp add: appended_def w1)
    with append_commit_law [OF laws commit] w1 Inr none out show ?thesis
      by (auto simp: attempted_def)
  qed
  then show "attempted (truthful K tabs) tabs nss ?i files 1 delays w r w'" "sleeps w' = sleeps w" by simp_all
qed

lemma attempted_mono:
  assumes "attempted exact tabs nss i files n delays w r w'" and "n \<le> n'" and "is_ok r' = is_ok r"
  shows "attempted exact tabs nss i files n' delays w r' w'"
proof -
  from assms(1) obtain k where "k \<le> n" "appended tabs i files k (cat w) (cat w')" "times_ok exact r k"
    unfolding attempted_def by blast
  moreover from this(1) have "k \<le> n'" using assms(2) by simp
  moreover have "times_ok exact r' k = times_ok exact r k" using assms(3) by (simp add: times_ok_def)
  ultimately show ?thesis using assms(1) unfolding attempted_def by blast
qed

lemma attempted_again:
  assumes "attempted exact tabs nss i files 1 [] w (Err e) w2" and "sleeps w2 = sleeps w"
    and "attempted exact tabs nss i files n delays (w2\<lparr>sleeps := sleeps w2 @ [d]\<rparr>) r w'"
  shows "attempted exact tabs nss i files (Suc n) (d # delays) w r w'"
proof -
  obtain k where "sleeps w' = sleeps w @ take (Suc k) (d # delays)" using assms(2,3) by (auto simp: attempted_def)
  then have sl: "\<exists>k. sleeps w' = sleeps w @ take k (d # delays)" by blast
  from assms(1) obtain j where j: "j \<le> 1" "appended tabs i files j (cat w) (cat w2)" "exact \<longrightarrow> j = 0"
    by (auto simp: attempted_def times_ok_def)
  from assms(3) obtain k where k: "k \<le> n" "appended tabs i files k (cat w2) (cat w')" "times_ok exact r k"
    by (auto simp: attempted_def)
  have "\<exists>k \<le> Suc n. appended tabs i files k (cat w) (cat w') \<and> times_ok exact r k"
    using appended_trans [OF j(2) k(2)] j k by (intro exI [of _ "j + k"]) (auto simp: times_ok_def)
  with assms(1,3) sl show ?thesis by (simp add: attempted_def)
qed

lemma retry_loop_spec:
  assumes laws: "catalog_laws K tabs nss"
  shows "attempts = [a..<max_attempts + 1] \<Longrightarrow> 1 \<le> a \<Longrightarrow> a \<le> max_attempts \<Longrightarrow>
    retry_loop K t files attempts delay w = (ro, w') \<Longrightarrow>
    \<exists>r. ro = Some r \<and>
      attempted (truthful K tabs) tabs nss (table_identifier K t) files (Suc (max_attempts - a))
        (backoff (max_attempts - a) delay) w r w'"
proof (induction attempts arbitrary: a delay w)
  case Nil
  then show ?case by simp
next
  case (Cons x rest)
  have "[a..<max_attempts + 1] = a # [Suc a..<max_attempts + 1]"
    using Cons.prems(3) by (intro upt_conv_Cons) simp
  then have x: "x = a" and rest: "rest = [Suc a..<max_attempts + 1]"
    using Cons.prems(1) by simp_all
  obtain r again w2 where att: "attempt K t files a w = (r, again, w2)" by (metis prod_cases3)
  note spec = attempt_spec [OF laws att]
  show ?case
  proof (cases "is_ok r \<or> \<not> again \<or> \<not> a < max_attempts")
    case True
    then have "\<exists>r'. ro = Some r' \<and> w' = w2 \<and> is_ok r' = is_ok r"
      using Cons.prems(4) att x by (auto simp: retry_loop_attempt simp del: retry_loop.simps split: sum.splits bool.splits)
    with attempted_mono [OF spec(1)] show ?thesis by fastforce
  next
    case False
    then obtain e where r: "r = Err e" by (cases r) auto
    let ?w3 = "w2\<lparr>sleeps := sleeps w2 @ [delay]\<rparr>"
    have run: "retry_loop K t files rest (min (delay * 2) 30000) ?w3 = (ro, w')"
      using Cons.prems(4) att x r False by (simp add: retry_loop_attempt del: retry_loop.simps)
    have "max_attempts - a = Suc (max_attempts - Suc a)" using False by auto
    then have "backoff (max_attempts - a) delay =
        delay # backoff (max_attempts - Suc a) (min (delay * 2) 30000)" by simp
    with Cons.IH [OF rest _ _ run] False attempted_again [OF spec(1) [unfolded r] spec(2)]
      \<open>max_attempts - a = Suc (max_attempts - Suc a)\<close> show ?thesis by fastforce
  qed
qed

lemma commit_with_retry_spec:
  assumes laws: "catalog_laws K tabs nss" and run: "commit_with_retry K t files w = (r, w')"
  shows "retry_loop K t files [1..<max_attempts + 1] 200 w = (Some r, w')"
    and "ice w' = ice w" and "mets w' = mets w" and "nss (cat w') = nss (cat w)"
    and "\<exists>k. sleeps w' = sleeps w @ take k [200, 400, 800, 1600]"
    and "\<exists>k \<le> 5. appended tabs (table_identifier K t) files k (cat w) (cat w') \<and> times_ok (truthful K tabs) r k"
proof -
  obtain ro w1 where loop: "retry_loop K t files [1..<max_attempts + 1] 200 w = (ro, w1)" by force
  have "max_attempts - 1 = Suc (Suc (Suc (Suc 0)))" by (simp add: max_attempts_def)
  then have delays: "backoff (max_attempts - 1) 200 = [200, 400, 800, 1600]"
    by (simp only: backoff.simps) simp
  have "1 \<le> max_attempts" by (simp add: max_attempts_def)
  from retry_loop_spec [OF laws refl _ this loop, unfolded delays] obtain r1 where
    r1: "ro = Some r1" and spec: "ice w1 = ice w" "mets w1 = mets w" "nss (cat w1) = nss (cat w)"
      "\<exists>k. sleeps w1 = sleeps w @ take k [200, 400, 800, 1600]"
      "\<exists>k \<le> 5. appended tabs (table_identifier K t) files k (cat w) (cat w1) \<and> times_ok (truthful K tabs) r1 k"
    by (auto simp: attempted_def max_attempts_def)
  have eq: "r = r1" "w' = w1" using run loop r1 by (simp_all add: commit_with_retry_def)
  show "retry_loop K t files [1..<max_attempts + 1] 200 w = (Some r, w')"
    using loop r1 eq by simp
  show "ice w' = ice w" and "mets w' = mets w" and "nss (cat w') = nss (cat w)"
    and "\<exists>k. sleeps w' = sleeps w @ take k [200, 400, 800, 1600]"
    and "\<exists>k \<le> 5. appended tabs (table_identifier K t) files k (cat w) (cat w') \<and> times_ok (truthful K tabs) r k"
    using spec by (simp_all only: eq)
qed

text \<open>What a commit of files to one table has done to the tables.\<close>

definition commit_effect ::
    "bool \<Rightarrow> ('k \<Rightarrow> 'f list) \<Rightarrow> 'k \<Rightarrow> 'f list \<Rightarrow> unit result \<Rightarrow> ('k \<Rightarrow> 'f list) \<Rightarrow> bool" where
  "commit_effect exact before k files r after \<longleftrightarrow>
     (\<exists>j. j \<le> 5 \<and> times_ok exact r j \<and>
        (\<forall>k'. after k' = before k' @ (if k' = k then copies j files else [])))"

lemma do_commit_data_files_spec:
  assumes laws: "catalog_laws K tabs nss" and inv: "cache_inv tabs nss ns w"
    and run: "do_commit_data_files K n ns files defs w = (r, w')"
  shows "cache_inv tabs nss ns w' \<and>
    commit_effect (truthful K tabs) (files_of tabs w) (ns, n) files r (files_of tabs w')"
proof -
  obtain r1 w1 where get: "get_or_create_table K n ns defs w = (r1, w1)" by force
  have "keeps tabs nss ns w w" using inv by (simp add: keeps_def)
  note g = ensuresD [OF get_or_create_table_keeps [OF laws] this get]
  show ?thesis
  proof (cases r1)
    case (Inl e)
    with run get g show ?thesis
      by (auto simp: do_commit_data_files_def bind_w_def keeps_def commit_effect_def times_ok_def intro: exI [of _ 0])
  next
    case (Inr t)
    obtain r2 w2 where com: "commit_with_retry K t files w1 = (r2, w2)" by force
    note c = commit_with_retry_spec [OF laws com]
    have t: "table_identifier K t = (ns, n)" using g Inr by simp
    have out: "is_ok r = is_ok r2" "cat w' = cat w2" "ice w' = ice w2"
      using run get Inr com by (auto simp: do_commit_data_files_def bind_w_def split: sum.splits)
    from c(6) obtain k where k: "k \<le> 5" "appended tabs (ns, n) files k (cat w1) (cat w2)" "times_ok (truthful K tabs) r2 k"
      by (auto simp: t)
    have "cache_inv tabs nss ns w'"
      using g c(2,4) k(2) by (auto simp: keeps_def cache_inv_def out appended_def)
    moreover have "files_of tabs w' i = files_of tabs w1 i @ (if i = (ns, n) then copies k files else [])" for i
      using k(2) by (auto simp: files_of_def out appended_def split: option.splits)
    ultimately show ?thesis
      using g k by (auto simp: keeps_def commit_effect_def times_ok_def out(1) intro: exI [of _ k])
  qed
qed

lemma commit_data_files_spec:
  assumes "catalog_laws (handle_catalog h) tabs nss" and "cache_inv tabs nss ns w"
    and "commit_data_files h n ns files defs w = (r, w')"
  shows "cache_inv tabs nss ns w' \<and>
    commit_effect (truthful (handle_catalog h) tabs) (files_of tabs w) (ns, n) files r (files_of tabs w')"
proof (cases "files = []")
  case True
  with assms show ?thesis
    by (auto simp: commit_data_files_def commit_effect_def times_ok_def intro!: exI [of _ 1])
next
  case False
  then have "do_commit_data_files (handle_catalog h) n ns files defs w = (r, w')"
    using assms(3) by (cases h) (simp_all add: commit_data_files_def)
  from do_commit_data_files_spec [OF assms(1,2) this] show ?thesis .
qed

section \<open>The interface of the committer\<close>

text \<open>
  What the committer relies on: a commit that succeeds has added its files to its table, and no
  commit changes another table.
\<close>

locale table_committer =
  fixes commit :: "'k \<Rightarrow> 'f list \<Rightarrow> 'w \<Rightarrow> unit result \<times> 'w"
    and table_files :: "'w \<Rightarrow> 'k \<Rightarrow> 'f list"
    and inv :: "'w \<Rightarrow> bool"
    and exact :: bool
  assumes commit_inv: "inv w \<Longrightarrow> commit k fs w = (r, w') \<Longrightarrow> inv w'"
    and commit_files: "inv w \<Longrightarrow> commit k fs w = (r, w') \<Longrightarrow>
      commit_effect exact (table_files w) k fs r (table_files w')"

interpretation iceberg: table_committer
  "\<lambda>n files. commit_data_files h n ns files defs"
  "\<lambda>w n. files_of tabs w (ns, n)"
  "\<lambda>w. catalog_laws (handle_catalog h) tabs nss \<and> cache_inv tabs nss ns w"
  "truthful (handle_catalog h) tabs"
  for h ns defs tabs nss
  by unfold_locales (use commit_data_files_spec in \<open>fastforce simp: commit_effect_def\<close>)+

section \<open>An in-memory catalog\<close>

text \<open>
  A catalog that keeps the tables in memory and refuses the first \<open>failures\<close> commits.
\<close>

record 'f mem_catalog_state =
  mem_tables :: "table_ident \<Rightarrow> 'f list option"
  mem_namespaces :: "string list set"
  failures :: nat

definition mem_catalog :: "('f mem_catalog_state, table_ident, nested_field list, unit, 'f) catalog" where
  "mem_catalog =
     \<lparr> namespace_from_vec = (\<lambda>ns. if ns = [] then Err [''empty namespace''] else Ok ns),
       namespace_exists = (\<lambda>ns c. (Ok (ns \<in> mem_namespaces c), c)),
       create_namespace = (\<lambda>ns c. (Ok (), c\<lparr>mem_namespaces := insert ns (mem_namespaces c)\<rparr>)),
       table_exists = (\<lambda>i c. (Ok (mem_tables c i \<noteq> None), c)),
       load_table = (\<lambda>i c. (if mem_tables c i = None then Err [''no such table''] else Ok i, c)),
       create_table = (\<lambda>ns n schema c.
         if mem_tables c (ns, n) = None
         then (Ok (ns, n), c\<lparr>mem_tables := (mem_tables c)((ns, n) \<mapsto> [])\<rparr>)
         else (Err [''table exists''], c)),
       schema_build = Ok,
       table_identifier = (\<lambda>t. t),
       file_io = (\<lambda>t. ()),
       location = (\<lambda>t. snd t),
       current_schema = (\<lambda>t. []),
       append_commit = (\<lambda>t files c.
         if 0 < failures c then (Err [''conflict''], c\<lparr>failures := failures c - 1\<rparr>)
         else case mem_tables c t of
           None \<Rightarrow> (Err [''no such table''], c)
         | Some old \<Rightarrow> (Ok (), c\<lparr>mem_tables := (mem_tables c)(t \<mapsto> old @ files)\<rparr>)) \<rparr>"

lemma mem_catalog_laws: "catalog_laws mem_catalog mem_tables mem_namespaces"
  unfolding catalog_laws_def
proof (intro conjI)
  show "query_law mem_catalog mem_tables mem_namespaces"
    by (auto simp: query_law_def mem_catalog_def same_catalog_def split: if_splits)
  show "creation_law mem_catalog mem_tables mem_namespaces"
    by (auto simp: creation_law_def mem_catalog_def split: if_splits)
  show "commit_law mem_catalog mem_tables mem_namespaces"
    by (auto simp: commit_law_def mem_catalog_def split: if_splits option.splits)
qed

lemma mem_catalog_truthful: "truthful mem_catalog mem_tables"
  by (auto simp: truthful_def mem_catalog_def split: if_splits option.splits)

definition mem_world :: "nat \<Rightarrow> 'f mem_catalog_state world" where
  "mem_world n =
     \<lparr> cat = \<lparr> mem_tables = Map.empty, mem_namespaces = {}, failures = n \<rparr>,
       ice = \<lparr> known_namespaces = {}, known_tables = {} \<rparr>, mets = zero_metrics, sleeps = [] \<rparr>"

lemma mem_world_inv: "cache_inv mem_tables mem_namespaces ns (mem_world n)"
  by (simp add: cache_inv_def mem_world_def)

section \<open>Transient failures\<close>

text \<open>
  A catalog that is down for a while: \<open>fails c\<close> more commits are refused from the state \<open>c\<close>
  on, and then commits succeed; the table can be loaded all the time.
\<close>

definition transient ::
    "('c, 't, 's, 'io, 'f) catalog \<Rightarrow> ('c \<Rightarrow> nat) \<Rightarrow> table_ident \<Rightarrow> ('c \<Rightarrow> bool) \<Rightarrow> bool" where
  "transient K fails i up \<longleftrightarrow>
     (\<forall>c. up c \<longrightarrow> (\<exists>t c'. load_table K i c = (Ok t, c') \<and> table_identifier K t = i \<and> fails c' = fails c \<and> up c')) \<and>
     (\<forall>t files c. up c \<longrightarrow> table_identifier K t = i \<longrightarrow>
        (\<exists>r c'. append_commit K t files c = (r, c') \<and> up c' \<and>
           (if fails c = 0 then is_ok r else \<not> is_ok r \<and> fails c' = fails c - 1)))"

lemma retry_loop_succeeds:
  assumes tr: "transient K fails (table_identifier K t) up"
  shows "attempts = [a..<max_attempts + 1] \<Longrightarrow> up (cat w) \<Longrightarrow> fails (cat w) + a \<le> max_attempts \<Longrightarrow>
    fst (retry_loop K t files attempts delay w) = Some (Ok ())"
proof (induction attempts arbitrary: a delay w)
  case Nil
  then show ?case by simp
next
  case (Cons x rest)
  let ?i = "table_identifier K t"
  have "[a..<max_attempts + 1] = a # [Suc a..<max_attempts + 1]"
    using Cons.prems(3) by (intro upt_conv_Cons) simp
  then have x: "x = a" and rest: "rest = [Suc a..<max_attempts + 1]" using Cons.prems(1) by simp_all
  obtain t0 c0 where l0: "load_table K ?i (cat w) = (Ok t0, c0)" "table_identifier K t0 = ?i"
      "fails c0 = fails (cat w)" "up c0"
    using tr Cons.prems(2) unfolding transient_def by blast
  obtain t' w1 where load: "(if a > 1 then on_cat (load_table K ?i) w else (Ok t, w)) = (Ok t', w1)"
    and t': "table_identifier K t' = ?i" and w1: "fails (cat w1) = fails (cat w)" "up (cat w1)"
  proof (cases "a > 1")
    case True
    then show ?thesis using that [of t0 "w\<lparr>cat := c0\<rparr>"] l0 by (simp add: on_cat_def)
  next
    case False
    then show ?thesis using that [of t w] Cons.prems(2) by simp
  qed
  obtain r c where commit: "append_commit K t' files (cat w1) = (r, c)" and up: "up c"
    and res: "if fails (cat w1) = 0 then is_ok r else \<not> is_ok r \<and> fails c = fails (cat w1) - 1"
    using tr w1(2) t' unfolding transient_def by blast
  show ?case
  proof (cases "fails (cat w1) = 0")
    case True
    with res obtain u where "r = Inr u" by (auto simp: is_ok_iff)
    with load x commit show ?thesis by (simp add: on_cat_def)
  next
    case False
    with res obtain e where e: "r = Inl e" and fc: "fails c = fails (cat w1) - 1" by (cases r) auto
    from False w1 Cons.prems(3) have "a < max_attempts" by simp
    moreover have "fst (retry_loop K t files rest (min (delay * 2) 30000)
        (w1\<lparr>cat := c, sleeps := sleeps w1 @ [delay]\<rparr>)) = Some (Ok ())"
      using up fc w1 False Cons.prems(3) by (intro Cons.IH [OF rest]) simp_all
    ultimately show ?thesis using load x commit e by (simp add: on_cat_def)
  qed
qed

section \<open>Properties\<close>

text \<open>C22: committing data files touches one table only. A commit that succeeds has added the files
  behind those the table had, a commit that fails has added all of them or none, at most five times in
  either case; if the catalog reports no error for a commit it has made, they are added exactly once on
  success and not at all on failure. The caches only name what exists.\<close>

theorem commit_data_files_effect:
  assumes "catalog_laws (handle_catalog h) tabs nss" and "cache_inv tabs nss ns w"
    and "commit_data_files h n ns files defs w = (r, w')"
  shows "cache_inv tabs nss ns w' \<and>
    (\<exists>k \<le> 5. (is_ok r \<longrightarrow> 0 < k) \<and> (truthful (handle_catalog h) tabs \<longrightarrow> k = (if is_ok r then 1 else 0)) \<and>
       (\<forall>i. files_of tabs w' i = files_of tabs w i @ (if i = (ns, n) then copies k files else [])))"
  using commit_data_files_spec [OF assms] unfolding commit_effect_def times_ok_def by blast

theorem commit_data_files_effect_witness:
  "\<exists>r w'. commit_data_files (Nessie_Handle mem_catalog) ''t'' [''analytics''] [7, 8 :: nat] [] (mem_world 2) = (r, w') \<and>
     files_of mem_tables w' ([''analytics''], ''t'') = (if is_ok r then [7, 8] else [])"
proof -
  obtain r w' where run:
    "commit_data_files (Nessie_Handle mem_catalog) ''t'' [''analytics''] [7, 8 :: nat] [] (mem_world 2) = (r, w')" by force
  have "catalog_laws (handle_catalog (Nessie_Handle mem_catalog)) mem_tables mem_namespaces"
    by (simp add: mem_catalog_laws)
  from commit_data_files_effect [OF this mem_world_inv run] run show ?thesis
    by (auto simp: files_of_def mem_world_def mem_catalog_truthful)
qed

text \<open>
  A catalog that makes the first commit of files but whose response is lost, and that refuses files the
  table has.
\<close>

definition silent_catalog :: "('f mem_catalog_state, table_ident, nested_field list, unit, 'f) catalog" where
  "silent_catalog = mem_catalog\<lparr>append_commit := \<lambda>t files c.
     case mem_tables c t of
       None \<Rightarrow> (Err [''no such table''], c)
     | Some old \<Rightarrow>
         if set files \<inter> set old \<noteq> {} then (Err [''Cannot add files that are already referenced by table''], c)
         else (Err [''timeout''], c\<lparr>mem_tables := (mem_tables c)(t \<mapsto> old @ files)\<rparr>)\<rparr>"

lemma silent_catalog_laws: "catalog_laws silent_catalog mem_tables mem_namespaces"
  unfolding catalog_laws_def
proof (intro conjI)
  show "query_law silent_catalog mem_tables mem_namespaces"
    by (auto simp: query_law_def silent_catalog_def mem_catalog_def same_catalog_def split: if_splits)
  show "creation_law silent_catalog mem_tables mem_namespaces"
    by (auto simp: creation_law_def silent_catalog_def mem_catalog_def split: if_splits)
  show "commit_law silent_catalog mem_tables mem_namespaces"
    by (auto simp: commit_law_def silent_catalog_def mem_catalog_def split: if_splits option.splits)
qed

lemma silent_catalog_simps:
  "namespace_from_vec silent_catalog ns = (if ns = [] then Err [''empty namespace''] else Ok ns)"
  "namespace_exists silent_catalog ns c = (Ok (ns \<in> mem_namespaces c), c)"
  "create_namespace silent_catalog ns c = (Ok (), c\<lparr>mem_namespaces := insert ns (mem_namespaces c)\<rparr>)"
  "table_exists silent_catalog i c = (Ok (mem_tables c i \<noteq> None), c)"
  "mem_tables c (ns, n) = None \<Longrightarrow> create_table silent_catalog ns n schema c =
     (Ok (ns, n), c\<lparr>mem_tables := (mem_tables c)((ns, n) \<mapsto> [])\<rparr>)"
  "schema_build silent_catalog fs = Ok fs"
  by (simp_all add: silent_catalog_def mem_catalog_def)

lemma silent_creates:
  "\<exists>w. get_or_create_table silent_catalog ''t'' [''analytics''] [] (mem_world 0 :: nat mem_catalog_state world) =
     (Ok ([''analytics''], ''t''), w) \<and> mem_tables (cat w) = [([''analytics''], ''t'') \<mapsto> []]"
  by (simp add: get_or_create_table_def ensure_namespace_def mem_world_def silent_catalog_simps
      bind_w_def on_cat_def return_w_def note_namespace_def note_table_def build_iceberg_schema_def Let_def)

lemma silent_retry:
  assumes "mem_tables (cat w) = [([''analytics''], ''t'') \<mapsto> []]"
  shows "\<exists>e w'. commit_with_retry silent_catalog ([''analytics''], ''t'') [7, 8 :: nat] w = (Err e, w') \<and>
    mem_tables (cat w') = [([''analytics''], ''t'') \<mapsto> [7, 8]]"
proof -
  have "[1..<max_attempts + 1] = [1, 2, 3, 4, 5]" by (simp add: max_attempts_def upt_rec)
  then show ?thesis
    using assms unfolding commit_with_retry_def
    by (simp add: silent_catalog_def mem_catalog_def on_cat_def max_attempts_def)
qed


text \<open>C32: A commit never falls out of its retry loop; it sleeps 200, 400, 800 and 1600
  milliseconds at most, so it makes at most five attempts.\<close>

theorem commit_with_retry_bounded:
  assumes "catalog_laws K tabs nss" and "commit_with_retry K t files w = (r, w')"
  shows "retry_loop K t files [1..<max_attempts + 1] 200 w = (Some r, w') \<and>
    (\<exists>k. sleeps w' = sleeps w @ take k [200, 400, 800, 1600])"
  using commit_with_retry_spec(1,5) [OF assms] by blast

theorem commit_with_retry_bounded_witness:
  "\<exists>k. sleeps (snd (commit_with_retry mem_catalog ([''analytics''], ''t'') [7 :: nat] (mem_world 9))) =
     take k [200, 400, 800, 1600]"
proof -
  obtain r w' where run: "commit_with_retry mem_catalog ([''analytics''], ''t'') [7 :: nat] (mem_world 9) = (r, w')"
    by force
  from commit_with_retry_bounded [OF mem_catalog_laws run] run show ?thesis
    by (simp add: mem_world_def)
qed

text \<open>C31: A commit survives up to four refusals of the catalog: when fewer commits than there are
  attempts are refused before the catalog recovers, the commit succeeds.\<close>

theorem commit_survives_transient_failures:
  assumes "transient K fails (table_identifier K t) up" and "up (cat w)"
    and "fails (cat w) < max_attempts"
  shows "fst (commit_with_retry K t files w) = Ok ()"
  using retry_loop_succeeds [OF assms(1) refl assms(2), of 1 files 200] assms(3)
  by (auto simp: commit_with_retry_def split: prod.splits option.splits)

definition mem_world_with_table :: "nat \<Rightarrow> nat mem_catalog_state world" where
  "mem_world_with_table n =
     (mem_world n)\<lparr>cat := \<lparr> mem_tables = [([''analytics''], ''t'') \<mapsto> [1]],
        mem_namespaces = {[''analytics'']}, failures = n \<rparr>\<rparr>"

theorem commit_survives_transient_failures_witness:
  "fst (commit_with_retry mem_catalog ([''analytics''], ''t'') [7] (mem_world_with_table 4)) = Ok ()"
proof (rule commit_survives_transient_failures
    [where fails = failures and up = "\<lambda>c. mem_tables c ([''analytics''], ''t'') \<noteq> None"])
  show "transient mem_catalog failures (table_identifier mem_catalog ([''analytics''], ''t''))
      (\<lambda>c. mem_tables c ([''analytics''], ''t'') \<noteq> None)"
    by (auto simp: transient_def mem_catalog_def)
qed (simp_all add: mem_world_with_table_def max_attempts_def)

text \<open>With a configuration accepted from the environment, building the catalog does not panic on a
  missing setting, whichever catalog is chosen.\<close>

lemma build_catalog_no_panic:
  assumes "from_env J fs p env = Ok cfg"
  shows "build_catalog load_rest load_glue cfg \<noteq> None"
  using from_env_catalog(2) [OF assms]
  by (auto simp: build_catalog_defs nessie_props_def split: catalog_type.splits option.splits)

end
