(* ===== verification/Flush_Engine.thy ===== *)
theory Flush_Engine
  imports Rocks_Store Iceberg_Writer
begin

text \<open>
  src/src/flush_engine.rs: the flush cycle, the pipeline that turns a frozen column family into
  Parquet data files, and the committer. The CBOR decoder, the Arrow encoder and the Parquet
  writer are a parameter, the record \<open>parquet\<close> of the calls the source makes on them, and
  \<open>writer_laws\<close> collects what their documentation promises. A background task is the value it
  was spawned with; the step relation of the theory \<open>Engine\<close> says when it runs.
\<close>

section \<open>The writer interface\<close>

text \<open>
  \<open>'w\<close> is an open data file writer, \<open>'e\<close> the generated struct of the table, \<open>'b\<close> a record batch.
  \<open>build_writer\<close> takes the compression, the row group size, the data location, the unique prefix
  of the file names, the Iceberg schema, the target file size and the file handle.
\<close>

record ('w, 'e, 'b, 's, 'io, 'f) parquet =
  build_writer :: "compression \<Rightarrow> usize \<Rightarrow> string \<Rightarrow> string \<Rightarrow> 's \<Rightarrow> usize \<Rightarrow> 'io \<Rightarrow> 'w result"
  from_reader :: "bytes \<Rightarrow> 'e result"
  to_record_batch :: "arrow_field list \<Rightarrow> 'e list \<Rightarrow> 'b result"
  write_batch :: "'w \<Rightarrow> 'b \<Rightarrow> unit result \<times> 'w"
  close_writer :: "'w \<Rightarrow> 'f list result"
  file_size_in_bytes :: "'f \<Rightarrow> u64"

section \<open>The pipeline\<close>

definition flush_events_to_writer ::
    "('w, 'e, 'b, 's, 'io, 'f) parquet \<Rightarrow> arrow_field list \<Rightarrow> 'w \<times> 'e list \<Rightarrow> unit result \<times> 'w \<times> 'e list" where
  "flush_events_to_writer P arrow_schema x =
     (case x of (w, events) \<Rightarrow>
        (case context_err ''Failed to encode struct to Arrow RecordBatch''
                (to_record_batch P arrow_schema events) of
           Inl e \<Rightarrow> (Err e, w, events)
         | Inr batch \<Rightarrow>
             (case write_batch P w batch of
                (Inl e, w') \<Rightarrow> (context_err ''IcebergWriter::write failed'' (Err e), w', events)
              | (Inr _, w') \<Rightarrow> (Ok (), w', []))))"

text \<open>What the callback of the iteration captures: the writer, the buffered events and \<open>io_err\<close>.\<close>

record ('w, 'e) pipeline =
  writer :: 'w
  events :: "'e list"
  io_err :: "error option"

definition batch_limit :: nat where
  "batch_limit = 10000"

definition on_record ::
    "('w, 'e, 'b, 's, 'io, 'f) parquet \<Rightarrow> arrow_field list \<Rightarrow> bytes \<Rightarrow> ('w, 'e) pipeline \<Rightarrow>
     unit result \<times> ('w, 'e) pipeline" where
  "on_record P arrow_schema cbor_bytes x =
     (let x1 = (case from_reader P cbor_bytes of
                  Inr event \<Rightarrow> x\<lparr>events := events x @ [event]\<rparr>
                | Inl e \<Rightarrow> x)
      in if batch_limit \<le> length (events x1) then
           (case flush_events_to_writer P arrow_schema (writer x1, events x1) of
              (Inl e, w', evs) \<Rightarrow>
                (Err [''Writer error''], x1\<lparr>writer := w', events := evs, io_err := Some e\<rparr>)
            | (Inr _, w', evs) \<Rightarrow> (Ok (), x1\<lparr>writer := w', events := evs\<rparr>))
         else (Ok (), x1))"

definition count_files ::
    "('w, 'e, 'b, 's, 'io, 'f) parquet \<Rightarrow> 'f list \<Rightarrow> metrics \<Rightarrow> metrics" where
  "count_files P data_files m =
     (if data_files \<noteq> [] then
        m\<lparr>PARQUET_FILES_WRITTEN := PARQUET_FILES_WRITTEN m + of_nat (length data_files),
          PARQUET_BYTES_WRITTEN := PARQUET_BYTES_WRITTEN m + sum_list (map (file_size_in_bytes P) data_files)\<rparr>
      else m)"

definition compile_cf_pipeline ::
    "('p, 'd) rocksdb \<Rightarrow> ('w, 'e, 'b, 's, 'io, 'f) parquet \<Rightarrow> string \<Rightarrow> 'd rocks_store \<Rightarrow> string \<Rightarrow>
     usize \<Rightarrow> compression \<Rightarrow> 'io \<times> string \<times> 's \<Rightarrow> arrow_field list \<Rightarrow> metrics \<Rightarrow> 'f list result \<times> metrics" where
  "compile_cf_pipeline A P uuid s cf_name target_bytes compr write_context arrow_schema m =
     (case write_context of (io, loc, iceberg_schema) \<Rightarrow>
      case context_err ''DataFileWriterBuilder::build failed''
             (build_writer P compr (1024 * 1024) (loc @ ''/data'') uuid iceberg_schema
                target_bytes io) of
        Inl e \<Rightarrow> (Err e, m)
      | Inr w \<Rightarrow>
          (let x = snd (iterate_cf A s cf_name (on_record P arrow_schema)
                          \<lparr> writer = w, events = [], io_err = None \<rparr>)
           in case io_err x of
                Some e \<Rightarrow> (Err e, m)
              | None \<Rightarrow>
                  (case (if events x \<noteq> []
                         then flush_events_to_writer P arrow_schema (writer x, events x)
                         else (Ok (), writer x, events x)) of
                     (Inl e, _) \<Rightarrow> (Err e, m)
                   | (Inr _, w', _) \<Rightarrow>
                       (case context_err ''IcebergWriter::close failed'' (close_writer P w') of
                          Inl e \<Rightarrow> (Err e, m)
                        | Inr data_files \<Rightarrow> (Ok data_files, count_files P data_files m)))))"

section \<open>The flush cycle\<close>

record 'f commit_request =
  cf_name :: string
  table_data_files :: "(string \<times> 'f list) list"

text \<open>What a spawned flush task captures.\<close>

record ('io, 's) flush_task =
  task_cf :: string
  task_table :: string
  task_target_parquet_bytes :: usize
  task_parquet_compression :: compression
  task_write_context :: "'io \<times> string \<times> 's"
  task_arrow_schema :: "arrow_field list"

definition analytics :: "string list" where
  "analytics = [''analytics'']"

text \<open>
  \<open>do_flush\<close> up to its first call of the catalog: the families to flush, with the store. Other tasks
  may run between this part and the rest.
\<close>

definition freeze_cfs ::
    "('p, 'd) rocksdb \<Rightarrow> (u64 \<Rightarrow> u64) \<Rightarrow> nat \<Rightarrow> 'd rocks_store \<Rightarrow> string list result \<times> 'd rocks_store" where
  "freeze_cfs A gen_range now_micros s =
     (let (orphans, s1) = get_orphaned_cfs s;
          (rotated, s2) = rotate A gen_range now_micros s1
      in case rotated of
           Inl e \<Rightarrow> (Err e, s2)
         | Inr frozen_cf \<Rightarrow> (Ok (orphans @ [frozen_cf]), s2))"

text \<open>
  The rest of \<open>do_flush\<close>: the tasks it spawns, with the world; \<open>None\<close> is the panic of
  \<open>build_catalog\<close>.
\<close>

definition spawn_tasks ::
    "(string \<Rightarrow> (string \<times> string) list \<Rightarrow> ('c, 't, 's, 'io, 'f) catalog result) \<Rightarrow>
     (string \<Rightarrow> (string \<times> string) list \<Rightarrow> ('c, 't, 's, 'io, 'f) catalog result) \<Rightarrow>
     config \<Rightarrow> string list \<Rightarrow> 'c world \<Rightarrow> ('io, 's) flush_task list result option \<times> 'c world" where
  "spawn_tasks load_rest load_glue cfg cfs_to_flush w =
     (case build_catalog load_rest load_glue cfg of
        None \<Rightarrow> (None, w)
      | Some (Inl e) \<Rightarrow> (Some (Err e), w)
      | Some (Inr catalog) \<Rightarrow>
          (let table_name = micewriter_table cfg;
               (ctx, w1) = get_table_write_context catalog table_name analytics (field_defs cfg) w
           in case context_err ''Failed to get table write context'' ctx of
                Inl e \<Rightarrow> (Some (Err e), w1)
              | Inr write_context \<Rightarrow>
                  (let arrow_schema = field_defs_to_arrow_schema (field_defs cfg)
                   in (Some (Ok (map (\<lambda>cf.
                         \<lparr> task_cf = cf, task_table = table_name,
                           task_target_parquet_bytes = target_parquet_bytes cfg,
                           task_parquet_compression = parquet_compression cfg,
                           task_write_context = write_context,
                           task_arrow_schema = arrow_schema \<rparr>) cfs_to_flush)), w1))))"

text \<open>The whole of \<open>do_flush\<close>, with the store and the world it leaves.\<close>

definition do_flush ::
    "('p, 'd) rocksdb \<Rightarrow> (u64 \<Rightarrow> u64) \<Rightarrow>
     (string \<Rightarrow> (string \<times> string) list \<Rightarrow> ('c, 't, 's, 'io, 'f) catalog result) \<Rightarrow>
     (string \<Rightarrow> (string \<times> string) list \<Rightarrow> ('c, 't, 's, 'io, 'f) catalog result) \<Rightarrow>
     nat \<Rightarrow> config \<Rightarrow> 'd rocks_store \<Rightarrow> 'c world \<Rightarrow>
     ('io, 's) flush_task list result option \<times> 'd rocks_store \<times> 'c world" where
  "do_flush A gen_range load_rest load_glue now_micros cfg s w =
     (case freeze_cfs A gen_range now_micros s of
        (Inl e, s2) \<Rightarrow> (Some (Err e), s2, w)
      | (Inr cfs_to_flush, s2) \<Rightarrow>
          (case spawn_tasks load_rest load_glue cfg cfs_to_flush w of (r, w1) \<Rightarrow> (r, s2, w1)))"

text \<open>
  The body of a flush task once it has its permit: compile, then send the commit request over
  the channel if its receiver is still there, or put the family back.
\<close>

definition run_flush_task ::
    "('p, 'd) rocksdb \<Rightarrow> ('w, 'e, 'b, 's, 'io, 'f) parquet \<Rightarrow> string \<Rightarrow> bool \<Rightarrow> ('io, 's) flush_task \<Rightarrow>
     'd rocks_store \<Rightarrow> metrics \<Rightarrow> 'f commit_request option \<times> 'd rocks_store \<times> metrics" where
  "run_flush_task A P uuid receiver_alive t s m =
     (case compile_cf_pipeline A P uuid s (task_cf t) (task_target_parquet_bytes t)
             (task_parquet_compression t) (task_write_context t) (task_arrow_schema t) m of
        (Inr data_files, m') \<Rightarrow>
          (if receiver_alive
           then (Some \<lparr> cf_name = task_cf t, table_data_files = [(task_table t, data_files)] \<rparr>, s, m')
           else (None, retain_frozen_cf (task_cf t) s, m'))
      | (Inl e, m') \<Rightarrow> (None, retain_frozen_cf (task_cf t) s, m'))"

definition jittered_interval :: "(u64 \<Rightarrow> u64) \<Rightarrow> config \<Rightarrow> u64" where
  "jittered_interval gen_range cfg =
     (let jitter = gen_range (flush_jitter_secs cfg * 2);
          secs = saturating_sub (saturating_add (flush_interval_secs cfg) jitter) (flush_jitter_secs cfg)
      in max secs 60)"

text \<open>The delay before the next cycle, and what the loop does when it wakes up.\<close>

definition sleep_secs :: "(u64 \<Rightarrow> u64) \<Rightarrow> config \<Rightarrow> 'd rocks_store \<Rightarrow> u64" where
  "sleep_secs gen_range cfg s =
     (if retained_cf_count s > 0 then 10 else jittered_interval gen_range cfg)"

datatype wake = Timer | Notified | Shutdown_Changed bool
datatype loop_action = Flush | Continue | Return

fun flush_loop_action :: "wake \<Rightarrow> loop_action" where
  "flush_loop_action Timer = Flush"
| "flush_loop_action Notified = Flush"
| "flush_loop_action (Shutdown_Changed b) = (if b then Return else Continue)"

section \<open>The committer\<close>

text \<open>\<open>all_data_files.entry(table).or_default().extend(dfs)\<close>\<close>

definition extend_entry :: "string \<Rightarrow> 'f list \<Rightarrow> (string \<times> 'f list) list \<Rightarrow> (string \<times> 'f list) list" where
  "extend_entry table dfs m =
     AList.update table ((case map_of m table of None \<Rightarrow> [] | Some fs \<Rightarrow> fs) @ dfs) m"

definition collect_data_files :: "'f commit_request list \<Rightarrow> (string \<times> 'f list) list" where
  "collect_data_files batch =
     fold (\<lambda>req m. fold (\<lambda>(table, dfs). extend_entry table dfs) (table_data_files req) m) batch []"

text \<open>The loop over the tables; the flag is \<open>fully_committed\<close>.\<close>

fun commit_each ::
    "('k \<Rightarrow> 'f list \<Rightarrow> 'w \<Rightarrow> unit result \<times> 'w) \<Rightarrow> ('k \<times> 'f list) list \<Rightarrow> bool \<Rightarrow> 'w \<Rightarrow> bool \<times> 'w" where
  "commit_each commit [] fully_committed w = (fully_committed, w)"
| "commit_each commit ((table_name, data_files) # rest) fully_committed w =
     (if data_files = [] then commit_each commit rest fully_committed w
      else case commit table_name data_files w of
             (Inl e, w') \<Rightarrow> commit_each commit rest False w'
           | (Inr _, w') \<Rightarrow> commit_each commit rest fully_committed w')"

text \<open>
  A round of the committer on the batch it drained from the channel, first the commit of the tables;
  \<open>hash_order\<close> is the order in which the hash map of tables is visited.
\<close>

definition commit_batch ::
    "((string \<times> 'f list) list \<Rightarrow> (string \<times> 'f list) list) \<Rightarrow>
     ('c, 't, 's, 'io, 'f) catalog catalog_handle \<Rightarrow> config \<Rightarrow> 'f commit_request list \<Rightarrow>
     'c world \<Rightarrow> bool \<times> 'c world" where
  "commit_batch hash_order h cfg batch w =
     commit_each (\<lambda>n files. commit_data_files h n analytics files (field_defs cfg))
       (hash_order (collect_data_files batch)) True w"

text \<open>
  Then the families: dropped one after the other, whatever \<open>drop_frozen_cf\<close> returns, or put back.
\<close>

definition committer_round ::
    "('p, 'd) rocksdb \<Rightarrow> ((string \<times> 'f list) list \<Rightarrow> (string \<times> 'f list) list) \<Rightarrow>
     ('c, 't, 's, 'io, 'f) catalog catalog_handle \<Rightarrow> config \<Rightarrow> 'f commit_request list \<Rightarrow>
     'd rocks_store \<Rightarrow> 'c world \<Rightarrow> bool \<times> 'd rocks_store \<times> 'c world" where
  "committer_round A hash_order h cfg batch s w =
     (let cfs_to_drop = map cf_name batch;
          (fully_committed, w') = commit_batch hash_order h cfg batch w
      in if fully_committed
         then (True, fold (\<lambda>cf s. snd (drop_frozen_cf A cf s)) cfs_to_drop s, w')
         else (False, fold retain_frozen_cf cfs_to_drop s, w'))"

section \<open>The pipeline as chunks of decoded events\<close>

text \<open>
  A reference for the pipeline: decode what the iterator yields before it ends or fails, cut the
  events into chunks, write the chunks one after the other.
\<close>

fun yielded :: "kv result list \<Rightarrow> bytes list" where
  "yielded [] = []"
| "yielded (Inl e # items) = []"
| "yielded (Inr (k, v) # items) = v # yielded items"

definition decoded :: "('w, 'e, 'b, 's, 'io, 'f) parquet \<Rightarrow> bytes list \<Rightarrow> 'e list" where
  "decoded P vs =
     List.map_filter (\<lambda>v. case from_reader P v of Inl _ \<Rightarrow> None | Inr event \<Rightarrow> Some event) vs"

function chunks :: "nat \<Rightarrow> 'a list \<Rightarrow> 'a list list" where
  "chunks n xs = (if n = 0 \<or> xs = [] then [] else take n xs # chunks n (drop n xs))"
  by auto
termination by (relation "measure (length \<circ> snd)") auto

declare chunks.simps [simp del]

fun write_chunks ::
    "('w, 'e, 'b, 's, 'io, 'f) parquet \<Rightarrow> arrow_field list \<Rightarrow> 'e list list \<Rightarrow> 'w \<Rightarrow> 'w result" where
  "write_chunks P arrow_schema [] w = Ok w"
| "write_chunks P arrow_schema (c # cs) w =
     (case flush_events_to_writer P arrow_schema (w, c) of
        (Inl e, _) \<Rightarrow> Err e
      | (Inr _, w', _) \<Rightarrow> write_chunks P arrow_schema cs w')"

lemma yielded_map [simp]: "yielded (map Inr kvs) = map snd kvs"
  by (induction kvs) auto

lemma yielded_map_error [simp]: "yielded (map Inr kvs @ [Inl e]) = map snd kvs"
  by (induction kvs) auto

lemma decoded_simps [simp]:
  "decoded P [] = []"
  "decoded P (v # vs) =
     (case from_reader P v of Inl _ \<Rightarrow> decoded P vs | Inr event \<Rightarrow> event # decoded P vs)"
  "decoded P (us @ vs) = decoded P us @ decoded P vs"
  by (simp_all add: decoded_def List.map_filter_def split: sum.splits)

lemma chunks_Nil [simp]: "chunks n [] = []"
  by (simp add: chunks.simps)

lemma chunks_short: "xs \<noteq> [] \<Longrightarrow> length xs \<le> n \<Longrightarrow> chunks n xs = [xs]"
  by (subst chunks.simps) (cases xs, auto)

lemma chunks_full: "n = length xs \<Longrightarrow> xs \<noteq> [] \<Longrightarrow> chunks n (xs @ ys) = xs # chunks n ys"
  by (subst chunks.simps) auto

lemma concat_chunks: "0 < n \<Longrightarrow> concat (chunks n xs) = xs"
  by (induction n xs rule: chunks.induct) (subst chunks.simps, auto)

lemma chunks_length: "c \<in> set (chunks n xs) \<Longrightarrow> c \<noteq> [] \<and> length c \<le> n"
proof (induction n xs rule: chunks.induct)
  case (1 n xs)
  then show ?case by (subst (asm) (2) chunks.simps) (auto split: if_splits)
qed

text \<open>What is left to do after the iteration, up to closing the writer.\<close>

definition finish_pipeline ::
    "('w, 'e, 'b, 's, 'io, 'f) parquet \<Rightarrow> arrow_field list \<Rightarrow> ('w, 'e) pipeline \<Rightarrow> 'w result" where
  "finish_pipeline P arrow_schema x =
     (case io_err x of
        Some e \<Rightarrow> Err e
      | None \<Rightarrow> write_chunks P arrow_schema (if events x \<noteq> [] then [events x] else []) (writer x))"

lemma batch_limit_pos: "0 < batch_limit"
  by (simp add: batch_limit_def)

lemma flush_events_Ok: "flush_events_to_writer P sch (w, evs) = (Inr u, w', evs') \<Longrightarrow> evs' = []"
  by (auto simp: flush_events_to_writer_def split: sum.splits prod.splits)

lemma on_record_cases:
  assumes "io_err x = None" and "length (events x) < batch_limit"
  obtains (skip) e where "from_reader P v = Inl e" "on_record P sch v x = (Ok (), x)"
    | (buffer) event where "from_reader P v = Inr event" "length (events x @ [event]) < batch_limit"
        "on_record P sch v x = (Ok (), x\<lparr>events := events x @ [event]\<rparr>)"
    | (full) event w' where "from_reader P v = Inr event" "length (events x @ [event]) = batch_limit"
        "flush_events_to_writer P sch (writer x, events x @ [event]) = (Ok (), w', [])"
        "on_record P sch v x = (Ok (), x\<lparr>events := [], writer := w'\<rparr>)"
    | (fail) event e w' evs where "from_reader P v = Inr event" "length (events x @ [event]) = batch_limit"
        "flush_events_to_writer P sch (writer x, events x @ [event]) = (Err e, w', evs)"
        "fst (on_record P sch v x) = Err [''Writer error'']" "io_err (snd (on_record P sch v x)) = Some e"
proof (cases "from_reader P v")
  case (Inl e)
  with assms that(1) show ?thesis by (simp add: on_record_def)
next
  case (Inr event)
  show ?thesis
  proof (cases "length (events x @ [event]) < batch_limit")
    case True
    with Inr that(2) show ?thesis by (simp add: on_record_def)
  next
    case False
    with assms(2) have len: "length (events x @ [event]) = batch_limit" by simp
    obtain r w' evs where fl: "flush_events_to_writer P sch (writer x, events x @ [event]) = (r, w', evs)"
      by (metis prod_cases3)
    show ?thesis
    proof (cases r)
      case (Inl e)
      with Inr len fl that(4) show ?thesis by (simp add: on_record_def)
    next
      case (Inr u)
      with \<open>from_reader P v = Inr event\<close> len fl flush_events_Ok [of P sch] that(3) show ?thesis
        by (auto simp: on_record_def)
    qed
  qed
qed

lemma iterate_items_chunks:
  "io_err x = None \<Longrightarrow> length (events x) < batch_limit \<Longrightarrow>
   finish_pipeline P sch (snd (iterate_items (on_record P sch) items x)) =
     write_chunks P sch (chunks batch_limit (events x @ decoded P (yielded items))) (writer x)"
proof (induction items arbitrary: x)
  case Nil
  then show ?case by (auto simp: finish_pipeline_def chunks_short)
next
  case (Cons item items)
  show ?case
  proof (cases item)
    case (Inl e)
    with Cons.prems show ?thesis by (auto simp: finish_pipeline_def chunks_short)
  next
    case (Inr kv)
    obtain k v where item: "item = Inr (k, v)" using Inr by (cases kv) auto
    from Cons.prems show ?thesis
    proof (cases rule: on_record_cases [of x P v sch])
      case (skip e)
      with Cons item show ?thesis by simp
    next
      case (buffer event)
      with Cons item show ?thesis by simp
    next
      case (full event w')
      then have "chunks batch_limit ((events x @ [event]) @ decoded P (yielded items)) =
          (events x @ [event]) # chunks batch_limit (decoded P (yielded items))"
        by (intro chunks_full) auto
      with full Cons item batch_limit_pos show ?thesis by simp
    next
      case (fail event e w' evs)
      then have "chunks batch_limit ((events x @ [event]) @ decoded P (yielded items)) =
          (events x @ [event]) # chunks batch_limit (decoded P (yielded items))"
        by (intro chunks_full) auto
      with fail item show ?thesis
        by (cases "on_record P sch v x") (simp add: finish_pipeline_def)
    qed
  qed
qed

lemma compile_cf_pipeline_chunks:
  fixes P :: "('w, 'e, 'b, 's, 'io, 'f) parquet"
  shows "compile_cf_pipeline A P uuid s n target compr (io, loc, schema) sch m =
     (case and_then
         (context_err ''DataFileWriterBuilder::build failed''
            (build_writer P compr (1024 * 1024) (loc @ ''/data'') uuid schema target io))
         (\<lambda>w. and_then
            (write_chunks P sch
               (chunks batch_limit (decoded P
                  (if cf_handle A (db s) n then yielded (iterator_start A (db s) n) else []))) w)
            (\<lambda>w'. context_err ''IcebergWriter::close failed'' (close_writer P w'))) of
        Inl e \<Rightarrow> (Err e, m)
      | Inr files \<Rightarrow> (Ok files, count_files P files m))"
proof (cases "build_writer P compr (1024 * 1024) (loc @ ''/data'') uuid schema target io")
  case (Inl e)
  then show ?thesis by (simp add: compile_cf_pipeline_def)
next
  case (Inr w)
  define x0 where "x0 = \<lparr> writer = w, events = ([] :: 'e list), io_err = None \<rparr>"
  define x where "x = snd (iterate_cf A s n (on_record P sch) x0)"
  have fin: "finish_pipeline P sch x =
      write_chunks P sch (chunks batch_limit (decoded P
        (if cf_handle A (db s) n then yielded (iterator_start A (db s) n) else []))) w"
  proof (cases "cf_handle A (db s) n")
    case True
    then have "x = snd (iterate_items (on_record P sch) (iterator_start A (db s) n) x0)"
      by (simp add: x_def iterate_cf_def)
    with True iterate_items_chunks [of x0 P sch "iterator_start A (db s) n"] batch_limit_pos
    show ?thesis by (simp add: x0_def)
  qed (simp add: x_def iterate_cf_def finish_pipeline_def x0_def)
  have "compile_cf_pipeline A P uuid s n target compr (io, loc, schema) sch m =
      (case and_then (finish_pipeline P sch x)
         (\<lambda>w'. context_err ''IcebergWriter::close failed'' (close_writer P w')) of
        Inl e \<Rightarrow> (Err e, m)
      | Inr files \<Rightarrow> (Ok files, count_files P files m))"
    by (simp only: compile_cf_pipeline_def Inr prod.case context_err_simps sum.case Let_def
        x0_def [symmetric] x_def [symmetric] finish_pipeline_def)
      (auto split: option.splits sum.splits prod.splits)
  then show ?thesis by (simp only: Inr fin context_err_simps and_then_simps)
qed

section \<open>What the writer promises\<close>

text \<open>
  \<open>rows w\<close> are the events written so far and \<open>file_rows f\<close> the events in a data file: a new
  writer is empty, a batch holds the events it was made of, a successful write adds the events
  of the batch, and the files that \<open>close\<close> hands over hold together what was written.
\<close>

definition writer_laws ::
    "('w, 'e, 'b, 's, 'io, 'f) parquet \<Rightarrow> ('b \<Rightarrow> 'e list) \<Rightarrow> ('w \<Rightarrow> 'e list) \<Rightarrow> ('f \<Rightarrow> 'e list) \<Rightarrow> bool" where
  "writer_laws P batch_rows rows file_rows \<longleftrightarrow>
     (\<forall>compr group loc uuid schema target io w.
        build_writer P compr group loc uuid schema target io = Ok w \<longrightarrow> rows w = []) \<and>
     (\<forall>sch evs b. to_record_batch P sch evs = Ok b \<longrightarrow> batch_rows b = evs) \<and>
     (\<forall>w b w'. write_batch P w b = (Ok (), w') \<longrightarrow> rows w' = rows w @ batch_rows b) \<and>
     (\<forall>w files. close_writer P w = Ok files \<longrightarrow> concat (map file_rows files) = rows w)"

lemma flush_events_rows:
  assumes "writer_laws P batch_rows rows file_rows"
    and "flush_events_to_writer P sch (w, evs) = (Inr u, w', evs')"
  shows "rows w' = rows w @ evs"
  using assms unfolding writer_laws_def
  by (auto simp: flush_events_to_writer_def split: sum.splits prod.splits)

lemma write_chunks_rows:
  assumes laws: "writer_laws P batch_rows rows file_rows"
  shows "write_chunks P sch cs w = Ok w' \<Longrightarrow> rows w' = rows w @ concat cs"
proof (induction cs arbitrary: w)
  case (Cons c cs)
  then obtain u w1 evs where fl: "flush_events_to_writer P sch (w, c) = (Inr u, w1, evs)"
    and "write_chunks P sch cs w1 = Ok w'" by (auto split: prod.splits sum.splits)
  with Cons.IH flush_events_rows [OF laws fl] show ?case by simp
qed simp

lemma compile_cf_pipeline_yields:
  assumes laws: "writer_laws P batch_rows rows file_rows"
    and run: "compile_cf_pipeline A P uuid s n target compr ctx sch m = (Ok files, m')"
  shows "concat (map file_rows files) =
    decoded P (if cf_handle A (db s) n then yielded (iterator_start A (db s) n) else [])"
proof -
  obtain io loc schema where ctx: "ctx = (io, loc, schema)" using prod_cases3 by blast
  define evs where "evs = decoded P (if cf_handle A (db s) n then yielded (iterator_start A (db s) n) else [])"
  from run obtain w w' where
    build: "build_writer P compr (1024 * 1024) (loc @ ''/data'') uuid schema target io = Ok w"
    and wr: "write_chunks P sch (chunks batch_limit evs) w = Ok w'" and cl: "close_writer P w' = Ok files"
    by (auto simp: compile_cf_pipeline_chunks ctx evs_def and_then_def context_err_def split: sum.splits)
  have "rows w' = rows w @ evs"
    using write_chunks_rows [OF laws wr] by (simp add: concat_chunks batch_limit_pos)
  moreover have "rows w = []" and "concat (map file_rows files) = rows w'"
    using laws build cl unfolding writer_laws_def by blast+
  ultimately show ?thesis by (simp add: evs_def)
qed

section \<open>The committer\<close>

text \<open>The files a list of entries has for a table.\<close>

definition files_for :: "'k \<Rightarrow> ('k \<times> 'f list) list \<Rightarrow> 'f list" where
  "files_for k m = concat (map snd (filter (\<lambda>p. fst p = k) m))"

lemma files_for_simps [simp]:
  "files_for k [] = []"
  "files_for k ((k', fs) # m) = (if k' = k then fs @ files_for k m else files_for k m)"
  "files_for k (m @ m') = files_for k m @ files_for k m'"
  by (simp_all add: files_for_def)

lemma files_for_notin: "k \<notin> keys_of m \<Longrightarrow> files_for k m = []"
  by (induction m) auto

lemma files_for_distinct: "distinct (map fst m) \<Longrightarrow> files_for k m = unwrap_or [] (map_of m k)"
proof (induction m)
  case (Cons p m)
  obtain k' fs where "p = (k', fs)" by force
  with Cons show ?case by (auto simp: files_for_notin keys_of_def)
qed simp

lemma files_for_permuted:
  assumes "mset m' = mset m" and "distinct (map fst m)"
  shows "files_for k m' = files_for k m"
proof -
  have "mset (map fst m') = mset (map fst m)" using assms(1) by (simp add: mset_map)
  with assms(2) have d: "distinct (map fst m')" using mset_eq_imp_distinct_iff by blast
  have "map_of m' k = map_of m k"
    using mset_eq_setD [OF assms(1)] map_of_inject_set [OF d assms(2)] by simp
  with d assms(2) show ?thesis by (simp add: files_for_distinct)
qed

lemma extend_entry_distinct [simp]:
  "distinct (map fst m) \<Longrightarrow> distinct (map fst (extend_entry t fs m))"
  by (simp add: extend_entry_def distinct_update)

lemma files_for_extend_entry:
  "distinct (map fst m) \<Longrightarrow>
   files_for k (extend_entry t fs m) = files_for k m @ (if k = t then fs else [])"
  by (auto simp: files_for_distinct distinct_update extend_entry_def update_conv' unwrap_or_def
      split: option.splits)

lemma extend_all:
  "distinct (map fst m) \<Longrightarrow>
   distinct (map fst (fold (\<lambda>(t, fs). extend_entry t fs) es m)) \<and>
   files_for k (fold (\<lambda>(t, fs). extend_entry t fs) es m) = files_for k m @ files_for k es"
proof (induction es arbitrary: m)
  case (Cons e es)
  obtain t fs where "e = (t, fs)" by force
  with Cons show ?case by (auto simp: files_for_extend_entry)
qed simp

lemma collect_data_files_spec:
  "distinct (map fst (collect_data_files batch))"
  "files_for k (collect_data_files batch) = concat (map (\<lambda>req. files_for k (table_data_files req)) batch)"
proof -
  have "distinct (map fst m) \<Longrightarrow>
    distinct (map fst (fold (\<lambda>req m. fold (\<lambda>(t, fs). extend_entry t fs) (table_data_files req) m) batch m)) \<and>
    files_for k (fold (\<lambda>req m. fold (\<lambda>(t, fs). extend_entry t fs) (table_data_files req) m) batch m) =
      files_for k m @ concat (map (\<lambda>req. files_for k (table_data_files req)) batch)" for m
    by (induction batch arbitrary: m) (simp_all add: extend_all)
  from this [of "[]"] show "distinct (map fst (collect_data_files batch))"
    and "files_for k (collect_data_files batch) = concat (map (\<lambda>req. files_for k (table_data_files req)) batch)"
    by (simp_all add: collect_data_files_def)
qed

lemma keys_of_collect: "keys_of (collect_data_files batch) = (\<Union>req \<in> set batch. keys_of (table_data_files req))"
proof -
  have entry: "keys_of (fold (\<lambda>(t, fs). extend_entry t fs) es m) = keys_of m \<union> keys_of es"
    for es m :: "(string \<times> 'a list) list"
    by (induction es arbitrary: m) (auto simp: extend_entry_def)
  have "keys_of (fold (\<lambda>req m. fold (\<lambda>(t, fs). extend_entry t fs) (table_data_files req) m) batch m) =
    keys_of m \<union> (\<Union>req \<in> set batch. keys_of (table_data_files req))" for m
    by (induction batch arbitrary: m) (auto simp: entry)
  then show ?thesis by (simp add: collect_data_files_def)
qed

context table_committer
begin

lemma commit_each_inv: "inv w \<Longrightarrow> commit_each commit m b w = (ok, w') \<Longrightarrow> inv w'"
proof (induction m arbitrary: b w)
  case (Cons p m)
  obtain k fs where p: "p = (k, fs)" by force
  obtain r w1 where c: "commit k fs w = (r, w1)" by force
  have "inv w1" using commit_inv Cons.prems(1) c .
  with Cons p c show ?case by (auto split: if_splits sum.splits)
qed simp

lemma commit_each_sound: "commit_each commit m b w = (True, w') \<Longrightarrow> b"
  by (induction commit m b w rule: commit_each.induct) (auto split: if_splits sum.splits prod.splits)

lemma commit_each_copies:
  "inv w \<Longrightarrow> distinct (map fst m) \<Longrightarrow> commit_each commit m b w = (ok, w') \<Longrightarrow>
   \<exists>c. table_files w' k = table_files w k @ copies c (files_for k m) \<and> (ok \<longrightarrow> 0 < c) \<and> (exact \<longrightarrow> c \<le> 1)"
proof (induction m arbitrary: b w)
  case Nil
  then show ?case by (auto intro: exI [of _ 1])
next
  case (Cons p m)
  obtain t fs where p: "p = (t, fs)" by force
  obtain r w1 where c: "commit t fs w = (r, w1)" by force
  show ?case
  proof (cases "fs = []")
    case True
    with Cons p show ?thesis by simp
  next
    case False
    have "inv w1" using commit_inv Cons.prems(1) c .
    moreover obtain b' where b': "commit_each commit m b' w1 = (ok, w')" "b' \<longrightarrow> is_ok r"
      using Cons.prems(3) p c False by (cases r) auto
    ultimately obtain d where d: "table_files w' k = table_files w1 k @ copies d (files_for k m)"
        "ok \<longrightarrow> 0 < d" "exact \<longrightarrow> d \<le> 1" using Cons.IH [of w1 b'] Cons.prems(2) by auto
    obtain j where j: "times_ok exact r j" "table_files w1 k = table_files w k @ (if k = t then copies j fs else [])"
      using commit_files [OF Cons.prems(1) c] by (auto simp: commit_effect_def)
    have "ok \<longrightarrow> is_ok r" using b' commit_each_sound [of m b' w1 w'] by auto
    moreover have "k = t \<Longrightarrow> files_for k m = []"
      using Cons.prems(2) p by (intro files_for_notin) (auto simp: keys_of_def)
    ultimately show ?thesis
      using d j p by (cases "k = t") (auto simp: times_ok_def intro: exI [of _ j] exI [of _ d])
  qed
qed

lemma commit_one_table_fails:
  assumes "inv w" and "commit_each commit [(t, fs)] True w = (False, w')" and exact
  shows "table_files w' k = table_files w k"
proof -
  obtain r w1 where c: "commit t fs w = (r, w1)" by force
  with assms(2) have "\<not> is_ok r" and "w' = w1" by (auto split: if_splits sum.splits)
  then show ?thesis using commit_files [OF assms(1) c] assms(3) by (auto simp: commit_effect_def times_ok_def)
qed

end

lemma drop_all_cases:
  assumes laws: "rocksdb_laws A contents"
  shows "store_inv contents s \<Longrightarrow> active_cf s \<notin> set cfs \<Longrightarrow>
    s' = fold (\<lambda>cf s. snd (drop_frozen_cf A cf s)) cfs s \<Longrightarrow>
    store_inv contents s' \<and> orphaned_cfs s' = orphaned_cfs s \<and> active_cf s' = active_cf s \<and>
    counter s' = counter s \<and>
    (\<forall>n. contents (db s') n = contents (db s) n \<or> n \<in> set cfs \<and> contents (db s') n = None)"
proof (induction cfs arbitrary: s)
  case (Cons n cfs)
  obtain r s1 where d: "drop_frozen_cf A n s = (r, s1)" by force
  have "n \<noteq> active_cf s" using Cons.prems(2) by auto
  note c = drop_frozen_cf_cases [OF laws Cons.prems(1) this d]
  have "store_inv contents s' \<and> orphaned_cfs s' = orphaned_cfs s1 \<and> active_cf s' = active_cf s1 \<and>
    counter s' = counter s1 \<and>
    (\<forall>n. contents (db s') n = contents (db s1) n \<or> n \<in> set cfs \<and> contents (db s') n = None)"
    using c Cons.prems d by (intro Cons.IH) auto
  with c show ?case by (cases "is_ok r") (auto split: if_splits, (metis+)?)
qed simp

lemma retain_all_frame [store_simps]:
  "db (fold retain_frozen_cf ns s) = db s"
  "active_cf (fold retain_frozen_cf ns s) = active_cf s"
  "counter (fold retain_frozen_cf ns s) = counter s"
  "store_inv contents (fold retain_frozen_cf ns s) = store_inv contents s"
  by (induction ns arbitrary: s) (simp_all add: store_simps, simp_all add: retain_frozen_cf_def)

lemma commit_batch_world:
  assumes laws: "catalog_laws (handle_catalog h) tabs nss" and inv: "cache_inv tabs nss analytics w"
    and order: "\<And>m. mset (order m) = mset m"
    and run: "commit_batch order h cfg batch w = (ok, w')"
  shows "cache_inv tabs nss analytics w'"
    and "\<exists>c. files_of tabs w' (analytics, t) =
        files_of tabs w (analytics, t) @ copies c (concat (map (\<lambda>req. files_for t (table_data_files req)) batch)) \<and>
      (ok \<longrightarrow> 0 < c) \<and> (truthful (handle_catalog h) tabs \<longrightarrow> c \<le> 1)"
    and "\<not> ok \<Longrightarrow> truthful (handle_catalog h) tabs \<Longrightarrow>
      (\<forall>req \<in> set batch. keys_of (table_data_files req) \<subseteq> {t'}) \<Longrightarrow>
      files_of tabs w' (analytics, t) = files_of tabs w (analytics, t)"
proof -
  let ?commit = "\<lambda>n files. commit_data_files h n analytics files (field_defs cfg)"
  let ?m = "order (collect_data_files batch)"
  have each: "commit_each ?commit ?m True w = (ok, w')"
    using run by (simp add: commit_batch_def)
  have pre: "catalog_laws (handle_catalog h) tabs nss \<and> cache_inv tabs nss analytics w"
    using laws inv by simp
  show "cache_inv tabs nss analytics w'" using iceberg.commit_each_inv [OF pre each] by simp
  have perm: "files_for t ?m = files_for t (collect_data_files batch)" for t
    using order collect_data_files_spec(1) by (rule files_for_permuted)
  have "distinct (map fst ?m) = distinct (map fst (collect_data_files batch))"
    by (rule mset_eq_imp_distinct_iff) (simp add: order)
  with iceberg.commit_each_copies [OF pre _ each, of t] show "\<exists>c. files_of tabs w' (analytics, t) =
        files_of tabs w (analytics, t) @ copies c (concat (map (\<lambda>req. files_for t (table_data_files req)) batch)) \<and>
      (ok \<longrightarrow> 0 < c) \<and> (truthful (handle_catalog h) tabs \<longrightarrow> c \<le> 1)"
    by (simp add: perm collect_data_files_spec)
  show "files_of tabs w' (analytics, t) = files_of tabs w (analytics, t)"
    if "\<not> ok" and tr: "truthful (handle_catalog h) tabs" and one: "\<forall>req \<in> set batch. keys_of (table_data_files req) \<subseteq> {t'}"
  proof -
    have m: "keys_of ?m \<subseteq> {t'}" "distinct (map fst ?m)"
      using one keys_of_collect [of batch] collect_data_files_spec(1) [of batch]
        mset_eq_setD [OF order] mset_eq_imp_distinct_iff [of "map fst ?m" "map fst (collect_data_files batch)"]
      by (auto simp: keys_of_def order mset_map)
    then have "?m = [] \<or> (\<exists>fs. ?m = [(t', fs)])"
      by (cases ?m rule: remdups_adj.cases) (auto simp: keys_of_def)
    then obtain fs where "?m = [(t', fs)]"
      using each \<open>\<not> ok\<close> by auto
    with each \<open>\<not> ok\<close> have "commit_each ?commit [(t', fs)] True w = (False, w')" by simp
    from iceberg.commit_one_table_fails [OF pre this tr] show ?thesis .
  qed
qed

lemma committer_round_cases:
  assumes "committer_round A order h cfg batch s w = (ok, s', w')"
  shows "commit_batch order h cfg batch w = (ok, w')"
    and "s' = (if ok then fold (\<lambda>cf s. snd (drop_frozen_cf A cf s)) (map cf_name batch) s
               else fold retain_frozen_cf (map cf_name batch) s)"
  using assms by (auto simp: committer_round_def Let_def split: prod.splits if_splits)

lemmas committer_round_world = commit_batch_world [OF _ _ _ committer_round_cases(1)]

lemma committer_round_store:
  assumes laws: "rocksdb_laws A contents" and inv: "store_inv contents s"
    and active: "active_cf s \<notin> cf_name ` set batch"
    and run: "committer_round A order h cfg batch s w = (ok, s', w')"
  shows "store_inv contents s' \<and> active_cf s' = active_cf s \<and> counter s' = counter s \<and>
    (if ok
     then orphaned_cfs s' = orphaned_cfs s \<and>
       (\<forall>n. contents (db s') n = contents (db s) n \<or> n \<in> cf_name ` set batch \<and> contents (db s') n = None)
     else orphaned_cfs s' = orphaned_cfs s @ map cf_name batch \<and> db s' = db s)"
proof (cases ok)
  case True
  then have "s' = fold (\<lambda>cf s. snd (drop_frozen_cf A cf s)) (map cf_name batch) s"
    using committer_round_cases(2) [OF run] by simp
  from drop_all_cases [OF laws inv _ this] active True show ?thesis by auto
next
  case False
  then have "s' = fold retain_frozen_cf (map cf_name batch) s"
    using committer_round_cases(2) [OF run] by simp
  with False inv show ?thesis by (simp only: store_simps orphans.held_retain_all) simp
qed

section \<open>The flush cycle\<close>

lemma get_table_write_context_keeps:
  assumes laws: "catalog_laws (handle_catalog h) tabs nss" and inv: "cache_inv tabs nss ns w"
    and run: "get_table_write_context h n ns defs w = (r, w')"
  shows "cache_inv tabs nss ns w' \<and> (\<forall>i. files_of tabs w' i = files_of tabs w i)"
proof -
  let ?K = "handle_catalog h"
  have "ensures (keeps tabs nss ns w)
    (bind_w (get_or_create_table ?K n ns defs)
       (\<lambda>t. return_w (file_io ?K t, location ?K t, current_schema ?K t))) (\<lambda>r. keeps tabs nss ns w)"
    by (rule ensures_bind, rule ensures_mono [OF get_or_create_table_keeps [OF laws]])
      (auto simp: ensures_def return_w_def split: sum.splits)
  moreover have "keeps tabs nss ns w w" using inv by (simp add: keeps_def)
  moreover have "bind_w (get_or_create_table ?K n ns defs)
      (\<lambda>t. return_w (file_io ?K t, location ?K t, current_schema ?K t)) w = (r, w')"
    using run by (cases h) (simp_all add: get_table_write_context_def)
  ultimately have "keeps tabs nss ns w w'" by (rule ensuresD)
  then show ?thesis by (simp add: keeps_def)
qed

text \<open>The active family has been frozen and a new one started.\<close>

definition was_rotated :: "'d contents \<Rightarrow> 'd rocks_store \<Rightarrow> 'd rocks_store \<Rightarrow> bool" where
  "was_rotated contents s s' \<longleftrightarrow>
     contents (db s) (active_cf s') = None \<and>
     contents (db s') = (contents (db s))(active_cf s' \<mapsto> [])"

lemma cf_values_rotated:
  "was_rotated contents s s' \<Longrightarrow> cf_values contents s' n = cf_values contents s n"
  by (simp add: was_rotated_def cf_values_def)

lemma freeze_cfs_store:
  assumes laws: "rocksdb_laws A contents" and inv: "store_inv contents s"
    and run: "freeze_cfs A g now s = (r, s')"
  shows "store_inv contents s' \<and> orphaned_cfs s' = [] \<and> counter s' = counter s \<and>
    (case r of
       Inr cfs \<Rightarrow> was_rotated contents s s' \<and> active_cf s' = rotated_cf_name now \<and>
         cfs = orphaned_cfs s @ [active_cf s]
     | Inl e \<Rightarrow> contents (db s') = contents (db s) \<and> active_cf s' = active_cf s)"
proof -
  let ?s1 = "s\<lparr>orphaned_cfs := []\<rparr>"
  obtain rr where rot: "rotate A g now ?s1 = (rr, s')"
    and r: "r = (case rr of Inl e \<Rightarrow> Err e | Inr f \<Rightarrow> Ok (orphaned_cfs s @ [f]))"
    using run by (auto simp: freeze_cfs_def get_orphaned_cfs_def split: prod.splits sum.splits)
  have "store_inv contents ?s1" using inv by (simp add: store_inv_def)
  from rotate_cases [OF laws this rot] show ?thesis
    by (cases rr) (auto simp: r was_rotated_def)
qed

lemma spawn_tasks_tasks:
  "spawn_tasks lr lg cfg cfs w = (Some (Ok tasks), w') \<Longrightarrow>
   map task_cf tasks = cfs \<and> (\<forall>t \<in> set tasks. task_table t = micewriter_table cfg)"
  by (auto simp: spawn_tasks_def Let_def o_def split: option.splits sum.splits prod.splits)

lemma spawn_tasks_world:
  assumes laws: "\<And>h. build_catalog lr lg cfg = Some (Ok h) \<Longrightarrow> catalog_laws (handle_catalog h) tabs nss"
    and inv: "cache_inv tabs nss analytics w"
    and run: "spawn_tasks lr lg cfg cfs w = (r, w')"
  shows "cache_inv tabs nss analytics w' \<and> (\<forall>i. files_of tabs w' i = files_of tabs w i)"
proof -
  consider "w' = w"
    | h ctx where "build_catalog lr lg cfg = Some (Ok h)"
        "get_table_write_context h (micewriter_table cfg) analytics (field_defs cfg) w = (ctx, w')"
    using run by (auto simp: spawn_tasks_def Let_def split: sum.splits option.splits prod.splits)
  then show ?thesis
  proof cases
    case 1
    with inv show ?thesis by simp
  next
    case (2 h ctx)
    with get_table_write_context_keeps [OF laws inv] show ?thesis by blast
  qed
qed

lemma do_flush_parts:
  assumes "do_flush A g lr lg now cfg s w = (r, s', w')"
  shows "(\<exists>e. freeze_cfs A g now s = (Err e, s') \<and> r = Some (Err e) \<and> w' = w) \<or>
    (\<exists>cfs. freeze_cfs A g now s = (Ok cfs, s') \<and> spawn_tasks lr lg cfg cfs w = (r, w'))"
  using assms by (auto simp: do_flush_def split: prod.splits sum.splits)

lemma do_flush_store:
  assumes laws: "rocksdb_laws A contents" and inv: "store_inv contents s"
    and run: "do_flush A g lr lg now cfg s w = (r, s', w')"
  shows "store_inv contents s' \<and> orphaned_cfs s' = [] \<and> counter s' = counter s \<and>
    (was_rotated contents s s' \<or>
     contents (db s') = contents (db s) \<and> active_cf s' = active_cf s \<and> (\<exists>e. r = Some (Err e))) \<and>
    (\<forall>tasks. r = Some (Ok tasks) \<longrightarrow>
       map task_cf tasks = orphaned_cfs s @ [active_cf s] \<and>
       (\<forall>t \<in> set tasks. task_table t = micewriter_table cfg))"
  using do_flush_parts [OF run] freeze_cfs_store [OF laws inv] spawn_tasks_tasks by fastforce

lemma run_flush_task_cases:
  assumes "run_flush_task A P uuid alive t s m = (req, s', m')"
  obtains (sent) files where "alive" "s' = s"
      "compile_cf_pipeline A P uuid s (task_cf t) (task_target_parquet_bytes t)
         (task_parquet_compression t) (task_write_context t) (task_arrow_schema t) m = (Ok files, m')"
      "req = Some \<lparr> cf_name = task_cf t, table_data_files = [(task_table t, files)] \<rparr>"
    | (kept) "req = None" "s' = retain_frozen_cf (task_cf t) s"
  using assms by (auto simp: run_flush_task_def split: prod.splits sum.splits if_splits)

section \<open>An in-memory writer\<close>

text \<open>
  A writer that collects rows and closes with one file of them; a record is decoded to itself
  unless it is empty.
\<close>

definition mem_parquet :: "(bytes list, bytes, bytes list, 's, 'io, bytes list) parquet" where
  "mem_parquet =
     \<lparr> build_writer = (\<lambda>compr group loc uuid schema target io. Ok []),
       from_reader = (\<lambda>v. if v = [] then Err [''unexpected end of file''] else Ok v),
       to_record_batch = (\<lambda>sch evs. Ok evs),
       write_batch = (\<lambda>w b. (Ok (), w @ b)),
       close_writer = (\<lambda>w. Ok (if w = [] then [] else [w])),
       file_size_in_bytes = (\<lambda>f. of_nat (sum_list (map length f))) \<rparr>"

lemma mem_parquet_laws: "writer_laws mem_parquet (\<lambda>b. b) (\<lambda>w. w) (\<lambda>f. f)"
  by (simp add: writer_laws_def mem_parquet_def)

definition two_records :: "mem rocks_store" where
  "two_records = mem_store\<lparr>db := [''active'' \<mapsto>
     [(to_be_bytes 1, [7, 8, 9]), (to_be_bytes 2, []), (to_be_bytes 3, [5])]], counter := 4\<rparr>"

lemma two_records_inv: "store_inv (\<lambda>d. d) two_records"
  by (simp add: store_inv_def two_records_def mem_store_def keys_below_def)

lemma two_records_scan:
  "iterator_start mem_db (db two_records) ''active'' =
     map Inr [(to_be_bytes 1, [7, 8, 9]), (to_be_bytes 2, []), (to_be_bytes 3, [5])]"
  by (simp add: mem_db_def two_records_def)

definition demo_config :: config where
  "demo_config =
     \<lparr> catalog_type = Glue, micewriter_table = ''t'', grpc_port = 9090,
       minio_url = None, minio_access_key = None, minio_secret_key = None, nessie_uri = None,
       warehouse = ''s3://iceberg'', glue_catalog_id = None,
       flush_interval_secs = 300, flush_jitter_secs = 60, cfg_flush_size_bytes = 4,
       cfg_flush_size_jitter_bytes = 1, enable_manual_flush = True, rocksdb_path = ''/db'',
       rocksdb_sync_writes = True, max_retained_frozen_cfs = 2, cfg_write_buffer_size = 64,
       concurrent_cf_flushes = 2, target_parquet_bytes = 64, parquet_row_group_bytes = 8,
       parquet_compression = SNAPPY, field_defs = telemetry_defs \<rparr>"

section \<open>Properties\<close>

text \<open>C19: the pipeline decodes the records its scan yields, in order, and writes them in batches
  of at most ten thousand, none of them empty, that together are exactly the decoded events; the
  first failing step decides the error, and the metrics change only on success.\<close>

theorem compile_cf_pipeline_batches:
  "\<exists>cs. concat cs = decoded P (if cf_handle A (db s) n then yielded (iterator_start A (db s) n) else []) \<and>
     list_all (\<lambda>c. c \<noteq> [] \<and> length c \<le> 10000) cs \<and>
     compile_cf_pipeline A P uuid s n target compr (io, loc, schema) sch m =
     (case and_then
         (context_err ''DataFileWriterBuilder::build failed''
            (build_writer P compr (1024 * 1024) (loc @ ''/data'') uuid schema target io))
         (\<lambda>w. and_then (write_chunks P sch cs w)
            (\<lambda>w'. context_err ''IcebergWriter::close failed'' (close_writer P w'))) of
        Inl e \<Rightarrow> (Err e, m)
      | Inr files \<Rightarrow> (Ok files, count_files P files m))"
proof (intro exI conjI)
  let ?evs = "decoded P (if cf_handle A (db s) n then yielded (iterator_start A (db s) n) else [])"
  show "concat (chunks batch_limit ?evs) = ?evs"
    by (simp only: concat_chunks [OF batch_limit_pos])
  show "list_all (\<lambda>c. c \<noteq> [] \<and> length c \<le> 10000) (chunks batch_limit ?evs)"
    using chunks_length [of _ batch_limit ?evs] by (auto simp: list_all_iff batch_limit_def)
qed (rule compile_cf_pipeline_chunks)

text \<open>C18: when the scan of the family is complete and the pipeline succeeds, the data files hold
  exactly the decodable records of the family, in the order of their keys.\<close>

theorem compile_cf_pipeline_complete:
  assumes "writer_laws P batch_rows rows file_rows" and "rocksdb_laws A contents"
    and "contents (db s) n = Some kvs" and "iterator_start A (db s) n = map Inr kvs"
    and "compile_cf_pipeline A P uuid s n target compr ctx sch m = (Ok files, m')"
  shows "concat (map file_rows files) = decoded P (cf_values contents s n)"
  using compile_cf_pipeline_yields [OF assms(1,5)] assms(3,4) cf_handle_iff [OF assms(2)]
  by (simp add: cf_values_def)

theorem compile_cf_pipeline_complete_witness:
  "\<exists>files m'. compile_cf_pipeline mem_db mem_parquet ''u'' two_records ''active'' 64 SNAPPY
      ((), ''loc'', ()) [] zero_metrics = (Ok files, m') \<and> concat files = [[7, 8, 9], [5]]"
proof -
  have "chunks batch_limit [[7, 8, 9], [5 :: u8]] = [[[7, 8, 9], [5]]]"
    by (rule chunks_short) (simp_all add: batch_limit_def)
  then obtain files m' where run: "compile_cf_pipeline mem_db mem_parquet ''u'' two_records ''active'' 64 SNAPPY
      ((), ''loc'', ()) [] zero_metrics = (Ok files, m')"
    unfolding compile_cf_pipeline_chunks two_records_scan yielded_map
    by (simp add: mem_parquet_def mem_db_def two_records_def flush_events_to_writer_def)
  have "db two_records ''active'' = Some [(to_be_bytes 1, [7, 8, 9]), (to_be_bytes 2, []), (to_be_bytes 3, [5])]"
    by (simp add: two_records_def)
  from compile_cf_pipeline_complete [OF mem_parquet_laws mem_db_laws this two_records_scan run]
  have "concat files = [[7, 8, 9], [5]]"
    by (simp add: cf_values_def two_records_def mem_parquet_def)
  with run show ?thesis by blast
qed

text \<open>C28: an error of the scan goes unnoticed: the pipeline then returns what it returns when the
  family ends where the error occurred, so a successful result does not mean that every record
  was read.\<close>

theorem compile_cf_pipeline_ignores_scan_error:
  assumes "iterator_start A (db s) n = map Inr kvs @ [Inl e]"
  shows "compile_cf_pipeline A P uuid s n target compr ctx sch m =
    compile_cf_pipeline (A\<lparr>iterator_start := \<lambda>d n. map Inr kvs\<rparr>) P uuid s n target compr ctx sch m"
proof -
  obtain io loc schema where "ctx = (io, loc, schema)" using prod_cases3 by blast
  then show ?thesis using assms by (simp add: compile_cf_pipeline_chunks)
qed

definition broken_db :: "((string \<times> kv list) list, mem) rocksdb" where
  "broken_db = mem_db\<lparr>iterator_start := (\<lambda>d n. [Inr (to_be_bytes 1, [7]), Inl [''Corruption'']])\<rparr>"

theorem compile_cf_pipeline_ignores_scan_error_witness:
  "compile_cf_pipeline broken_db mem_parquet ''u'' two_records ''active'' 64 SNAPPY ((), ''loc'', ()) [] zero_metrics =
   compile_cf_pipeline (broken_db\<lparr>iterator_start := \<lambda>d n. [Inr (to_be_bytes 1, [7])]\<rparr>) mem_parquet ''u''
     two_records ''active'' 64 SNAPPY ((), ''loc'', ()) [] zero_metrics"
  using compile_cf_pipeline_ignores_scan_error
    [of broken_db two_records "''active''" "[(to_be_bytes 1, [7])]" "[''Corruption'']"]
  by (simp add: broken_db_def)

text \<open>A flush task never forgets its family: either it hands over a commit request for it
  and leaves the store alone, or it puts the family back on the list for the next cycle, and it
  does the former only if its pipeline succeeded.\<close>

theorem run_flush_task_outcome:
  assumes "run_flush_task A P uuid alive t s m = (req, s', m')"
  shows "db s' = db s \<and>
    (case req of
       None \<Rightarrow> orphaned_cfs s' = orphaned_cfs s @ [task_cf t]
     | Some q \<Rightarrow> s' = s \<and> cf_name q = task_cf t \<and>
         (\<exists>files. table_data_files q = [(task_table t, files)] \<and>
            fst (compile_cf_pipeline A P uuid s (task_cf t) (task_target_parquet_bytes t)
              (task_parquet_compression t) (task_write_context t) (task_arrow_schema t) m) = Ok files))"
  using assms by (cases rule: run_flush_task_cases) (simp_all add: retain_frozen_cf_def)

definition demo_task :: "(unit, unit) flush_task" where
  "demo_task = \<lparr> task_cf = ''active'', task_table = ''t'', task_target_parquet_bytes = 64,
     task_parquet_compression = SNAPPY, task_write_context = ((), ''loc'', ()), task_arrow_schema = [] \<rparr>"

theorem run_flush_task_outcome_witness:
  "orphaned_cfs (fst (snd (run_flush_task mem_db mem_parquet ''u'' False demo_task mem_store zero_metrics))) =
     [''active'']"
proof -
  obtain req s' m' where run:
    "run_flush_task mem_db mem_parquet ''u'' False demo_task mem_store zero_metrics = (req, s', m')"
    by (metis prod_cases3)
  have "req = None" using run by (cases rule: run_flush_task_cases) auto
  with run_flush_task_outcome [OF run] run show ?thesis by (simp add: demo_task_def mem_store_def)
qed

text \<open>C15: A round of the committer that commits every table has added to each table the files
  of all its requests in order, once if the catalog reports no error for a commit it has made, and at
  most the families of the requests are gone; a round in which a commit fails drops no family and
  puts all of them back, and, as all requests are for one table, has on such a catalog committed
  nothing.\<close>

theorem committer_round_correct:
  assumes "rocksdb_laws A contents" and "store_inv contents s"
    and "active_cf s \<notin> cf_name ` set batch"
    and "catalog_laws (handle_catalog h) tabs nss" and "cache_inv tabs nss analytics w"
    and "\<And>m. mset (order m) = mset m"
    and "\<forall>req \<in> set batch. keys_of (table_data_files req) \<subseteq> {table}"
    and "committer_round A order h cfg batch s w = (ok, s', w')"
  shows "store_inv contents s' \<and> cache_inv tabs nss analytics w' \<and>
    (if ok
     then orphaned_cfs s' = orphaned_cfs s \<and>
       (\<forall>t. \<exists>c > 0. files_of tabs w' (analytics, t) = files_of tabs w (analytics, t) @
          copies c (concat (map (\<lambda>req. files_for t (table_data_files req)) batch)) \<and>
          (truthful (handle_catalog h) tabs \<longrightarrow> c = 1)) \<and>
       (\<forall>n. n \<notin> cf_name ` set batch \<longrightarrow> cf_values contents s' n = cf_values contents s n)
     else orphaned_cfs s' = orphaned_cfs s @ map cf_name batch \<and>
       (truthful (handle_catalog h) tabs \<longrightarrow>
          (\<forall>t. files_of tabs w' (analytics, t) = files_of tabs w (analytics, t))) \<and>
       (\<forall>n. cf_values contents s' n = cf_values contents s n))"
proof -
  have one: "\<forall>req \<in> set batch. keys_of (table_data_files req) \<subseteq> {table}" using assms(7) .
  note st = committer_round_store [OF assms(1-3,8)]
  note wd = committer_round_world [OF assms(4-6,8)]
  show ?thesis
  proof (cases ok)
    case True
    have "cf_values contents s' n = cf_values contents s n" if "n \<notin> cf_name ` set batch" for n
    proof -
      have "contents (db s') n = contents (db s) n" using st True that by auto
      then show ?thesis by (simp add: cf_values_def)
    qed
    moreover have "\<exists>c > 0. files_of tabs w' (analytics, t) = files_of tabs w (analytics, t) @
          copies c (concat (map (\<lambda>req. files_for t (table_data_files req)) batch)) \<and>
          (truthful (handle_catalog h) tabs \<longrightarrow> c = 1)" for t
      using wd(2) [of t] True by (metis One_nat_def Suc_leI le_antisym)
    ultimately show ?thesis using True st wd(1) by simp
  next
    case False
    with st wd(1) wd(3) [OF False _ one] show ?thesis by (simp add: cf_values_def)
  qed
qed

definition frozen_store :: "mem rocks_store" where
  "frozen_store = mem_store\<lparr>db := [''active'' \<mapsto> [], ''active_1'' \<mapsto> [(to_be_bytes 1, [7])]]\<rparr>"

lemma frozen_store_inv: "store_inv (\<lambda>d. d) frozen_store"
  by (simp add: store_inv_def frozen_store_def mem_store_def keys_below_def)

definition demo_request :: "nat commit_request" where
  "demo_request = \<lparr> cf_name = ''active_1'', table_data_files = [(''t'', [4, 5])] \<rparr>"

theorem committer_round_correct_witness:
  "\<exists>ok s' w'. committer_round mem_db (\<lambda>m. m) (Glue_Handle mem_catalog) demo_config
      [demo_request] frozen_store (mem_world 9) = (ok, s', w') \<and>
     (if ok then files_of mem_tables w' (analytics, ''t'') = [4, 5]
      else orphaned_cfs s' = [''active_1''] \<and> cf_values (\<lambda>d. d) s' ''active_1'' = [[7]])"
proof -
  obtain ok s' w' where run: "committer_round mem_db (\<lambda>m. m) (Glue_Handle mem_catalog) demo_config
      [demo_request] frozen_store (mem_world 9) = (ok, s', w')" by (metis prod_cases3)
  have a: "active_cf frozen_store \<notin> cf_name ` set [demo_request]"
    by (simp add: demo_request_def frozen_store_def mem_store_def)
  have b: "catalog_laws (handle_catalog (Glue_Handle mem_catalog)) mem_tables mem_namespaces"
    by (simp add: mem_catalog_laws)
  have c: "\<forall>req \<in> set [demo_request]. keys_of (table_data_files req) \<subseteq> {''t''}"
    by (simp add: demo_request_def)
  note ok = committer_round_correct [OF mem_db_laws frozen_store_inv a b mem_world_inv refl c run]
  have "if ok then files_of mem_tables w' (analytics, ''t'') = [4, 5]
      else orphaned_cfs s' = [''active_1''] \<and> cf_values (\<lambda>d. d) s' ''active_1'' = [[7]]"
    using ok by (auto simp: mem_catalog_truthful demo_request_def files_of_def mem_world_def frozen_store_def mem_store_def
        cf_values_def split: if_splits)
  with run show ?thesis by blast
qed


abbreviation mem_load :: "string \<Rightarrow> (string \<times> string) list \<Rightarrow>
    ('f mem_catalog_state, table_ident, nested_field list, unit, 'f) catalog result" where
  "mem_load \<equiv> \<lambda>n props. Ok mem_catalog"

lemma rotated_cf_name_42: "rotated_cf_name 42 = ''active_42''"
  by (simp add: rotated_cf_name_def show_nat.simps)

lemma rotate_frozen_store:
  "\<exists>s'. rotate mem_db (\<lambda>hi. hi) 42 (frozen_store\<lparr>orphaned_cfs := []\<rparr>) = (Ok ''active'', s')"
  unfolding rotate_def rotated_cf_name_42
  by (simp add: mem_db_def frozen_store_def mem_store_def Let_def)

lemma mem_catalog_simps:
  "namespace_from_vec mem_catalog ns = (if ns = [] then Err [''empty namespace''] else Ok ns)"
  "namespace_exists mem_catalog ns c = (Ok (ns \<in> mem_namespaces c), c)"
  "create_namespace mem_catalog ns c = (Ok (), c\<lparr>mem_namespaces := insert ns (mem_namespaces c)\<rparr>)"
  "table_exists mem_catalog i c = (Ok (mem_tables c i \<noteq> None), c)"
  "mem_tables c (ns, n) = None \<Longrightarrow> create_table mem_catalog ns n schema c =
     (Ok (ns, n), c\<lparr>mem_tables := (mem_tables c)((ns, n) \<mapsto> [])\<rparr>)"
  by (simp_all add: mem_catalog_def)

lemma mem_schema:
  "build_iceberg_schema (schema_build mem_catalog) defs = Ok (fst (map_next_id iceberg_column defs 1))"
  by (simp add: build_iceberg_schema_def mem_catalog_def split_beta Let_def)

lemma mem_write_context:
  "\<exists>ctx w. get_table_write_context (Glue_Handle mem_catalog) n analytics defs (mem_world k) = (Ok ctx, w)"
  by (simp add: get_table_write_context_def get_or_create_table_def mem_world_def analytics_def
      ensure_namespace_def bind_w_def on_cat_def return_w_def note_namespace_def note_table_def
      mem_catalog_simps mem_schema Let_def)


text \<open>C29: A flush cycle that fails forgets the families it took from the list: whatever was
  waiting before, the list is empty afterwards although no task was spawned for any of them.\<close>

theorem do_flush_failure_forgets:
  assumes "rocksdb_laws A contents" and "store_inv contents s"
    and "do_flush A g lr lg now cfg s w = (Some (Err e), s', w')"
  shows "retained_cf_count s' = 0 \<and> (\<forall>n. cf_values contents s' n = cf_values contents s n)"
  using do_flush_store [OF assms] cf_values_rotated [of contents s s']
  by (auto simp: retained_cf_count_def cf_values_def)

theorem do_flush_failure_forgets_witness:
  "retained_cf_count (frozen_store\<lparr>orphaned_cfs := [''active_1'']\<rparr>) = 1 \<and>
   (\<exists>e s' w'. do_flush mem_db (\<lambda>hi. hi) mem_load (\<lambda>n props. Err [''no route to host'']) 42 demo_config
      (frozen_store\<lparr>orphaned_cfs := [''active_1'']\<rparr>) (mem_world 0 :: nat mem_catalog_state world) =
        (Some (Err e), s', w') \<and>
     retained_cf_count s' = 0 \<and> cf_values (\<lambda>d. d) s' ''active_1'' = [[7]])"
proof -
  let ?s = "frozen_store\<lparr>orphaned_cfs := [''active_1'']\<rparr>"
  obtain s2 where "rotate mem_db (\<lambda>hi. hi) 42 (frozen_store\<lparr>orphaned_cfs := []\<rparr>) = (Ok ''active'', s2)"
    using rotate_frozen_store by blast
  then obtain e s' w' where run: "do_flush mem_db (\<lambda>hi. hi) mem_load (\<lambda>n props. Err [''no route to host''])
      42 demo_config ?s (mem_world 0 :: nat mem_catalog_state world) = (Some (Err e), s', w')"
    unfolding do_flush_def freeze_cfs_def spawn_tasks_def get_orphaned_cfs_def
    by (simp add: build_catalog_defs demo_config_def Let_def)
  have "store_inv (\<lambda>d. d) ?s" using frozen_store_inv by (simp add: store_inv_def)
  from do_flush_failure_forgets [OF mem_db_laws this run] run show ?thesis
    by (auto simp: retained_cf_count_def cf_values_def frozen_store_def)
qed

text \<open>The delay before a cycle is ten seconds while families are waiting; otherwise it is
  within the jitter of the configured interval and at least a minute.\<close>

theorem sleep_secs_bounds:
  assumes "\<And>hi. g hi \<le> hi" and "unat (flush_jitter_secs cfg) * 2 < 2 ^ 64"
  shows "if retained_cf_count s > 0 then sleep_secs g cfg s = 10
    else unat (sleep_secs g cfg s) \<in>
      {max (unat (flush_interval_secs cfg) - unat (flush_jitter_secs cfg)) 60 ..
       max (unat (flush_interval_secs cfg) + unat (flush_jitter_secs cfg)) 60}"
proof -
  let ?j = "flush_jitter_secs cfg"
  have "unat (g (?j * 2)) \<le> 2 * unat ?j"
    using assms(1) [of "?j * 2"] unat_double_u64 [OF assms(2)] by (simp add: word_le_nat_alt)
  from jittered_bounds [OF this, of "flush_interval_secs cfg"] show ?thesis
    by (auto simp: sleep_secs_def jittered_interval_def Let_def unat_max_word le_max_iff_disj)
qed

theorem sleep_secs_bounds_witness:
  "unat (sleep_secs (\<lambda>hi. hi) demo_config mem_store) \<in> {240 .. 360}"
  using sleep_secs_bounds [of "\<lambda>hi. hi" demo_config mem_store]
  by (simp add: demo_config_def mem_store_def retained_cf_count_def)

end
