(* ===== verification/Engine.thy ===== *)
theory Engine
  imports Grpc_Server Flush_Engine
begin

text \<open>
  src/src/main.rs: the engine as a whole. Its state holds the store, the catalog's world and the
  tasks that are in flight, and an inductive step relation interleaves the steps of the ingest
  handlers, the flush loop, the flush tasks, the committer and the main task. An append is two
  steps, because \<open>append_batch\<close> releases the lock on the name of the active family before it
  writes; a flush cycle is two steps, because other tasks run while it waits for the catalog; the
  committer drops the families of a committed batch in a step each, because they come after the
  commit. Four components of the state are for the proofs only and are read by no step:
  \<open>accepted\<close>, \<open>lost\<close>, \<open>stranded\<close> and \<open>undropped\<close>.
\<close>

section \<open>State\<close>

record ('p, 'd, 'w, 'e, 'b, 's, 'io, 'f, 'c, 't) externals =
  rocks :: "('p, 'd) rocksdb"
  pq :: "('w, 'e, 'b, 's, 'io, 'f) parquet"
  rest_builder :: "string \<Rightarrow> (string \<times> string) list \<Rightarrow> ('c, 't, 's, 'io, 'f) catalog result"
  glue_builder :: "string \<Rightarrow> (string \<times> string) list \<Rightarrow> ('c, 't, 's, 'io, 'f) catalog result"
  hash_order :: "(string \<times> 'f list) list \<Rightarrow> (string \<times> 'f list) list"

text \<open>
  Where the main task is: waiting for a signal; waiting for the server and the flush loop; in the
  emergency flush; waiting for the committer; gone.
\<close>

datatype main_phase = Serving | Stopping | Flushing | Draining | Exited

text \<open>
  \<open>appends\<close> are the calls of \<open>append_batch\<close> that have read the name of the active family;
  \<open>flushing\<close> are the families of a flush cycle that has frozen them and waits for the catalog;
  \<open>waiting\<close> are flush tasks that have no permit of the semaphore yet and \<open>running\<close> those that
  have one; \<open>dropping\<close> are the requests of the last batch that are committed and whose families the
  committer has still to drop. \<open>accepted\<close> are the events of the records whose append succeeded, and
  of those found at the start; \<open>stranded\<close> are families that a failed flush cycle took from the
  store's list; \<open>undropped\<close> are committed requests whose families could not be dropped; \<open>lost\<close> are
  events that went with a dropped family although no commit has them.
\<close>

record ('d, 'c, 's, 'io, 'f, 'e) engine =
  store :: "'d rocks_store"
  world :: "'c world"
  appends :: "(string \<times> bytes) list"
  flushing :: "string list option"
  waiting :: "('io, 's) flush_task list"
  running :: "('io, 's) flush_task list"
  channel :: "'f commit_request list"
  dropping :: "'f commit_request list"
  main :: main_phase
  grpc_running :: bool
  loop_running :: bool
  accepted :: "'e multiset"
  lost :: "'e multiset"
  stranded :: "string list"
  undropped :: "'f commit_request list"

section \<open>Startup\<close>

definition MAX_PERMITS :: nat where
  "MAX_PERMITS = 2 ^ 61 - 1"

text \<open>The state in which the servers and loops are spawned; the caches are empty.\<close>

definition boot :: "'d rocks_store \<Rightarrow> 'c \<Rightarrow> ('d, 'c, 's, 'io, 'f, 'e) engine" where
  "boot s catalog_state =
     \<lparr> store = s,
       world = \<lparr> cat = catalog_state, ice = \<lparr> known_namespaces = {}, known_tables = {} \<rparr>,
                 mets = zero_metrics, sleeps = [] \<rparr>,
       appends = [], flushing = None, waiting = [], running = [], channel = [], dropping = [],
       main = Serving, grpc_running = True, loop_running = True,
       accepted = {#}, lost = {#}, stranded = [], undropped = [] \<rparr>"

text \<open>
  \<open>main\<close> up to the spawning of the flush loop; \<open>None\<close> is a panic: of the semaphore on too many
  permits, of the registration of the metrics, or of \<open>build_catalog\<close>. \<open>at_path\<close> is what lies at a
  path on disk.
\<close>

definition startup ::
    "('p, 'd, 'w, 'e, 'b, 's, 'io, 'f, 'c, 't) externals \<Rightarrow> 'j serde_json \<Rightarrow> file_system \<Rightarrow> nat option \<Rightarrow>
     environment \<Rightarrow> (u64 \<Rightarrow> u64) \<Rightarrow> (string \<Rightarrow> 'p) \<Rightarrow> (string \<Rightarrow> 'r \<Rightarrow> 'r result) \<Rightarrow> 'r \<Rightarrow> 'c \<Rightarrow>
     (config \<times> ('c, 't, 's, 'io, 'f) catalog catalog_handle \<times> ('d, 'c, 's, 'io, 'f, 'e) engine) result option" where
  "startup X J fs parallelism env gen_range at_path register registry catalog_state =
     (case from_env J fs parallelism env of
        Inl e \<Rightarrow> Some (Err e)
      | Inr cfg \<Rightarrow>
          (case new (rocks X) gen_range (at_path (rocksdb_path cfg)) (cfg_flush_size_bytes cfg)
                  (cfg_flush_size_jitter_bytes cfg) (rocksdb_sync_writes cfg) (cfg_write_buffer_size cfg) of
             Inl e \<Rightarrow> Some (Err e)
           | Inr s \<Rightarrow>
               if MAX_PERMITS < unat (concurrent_cf_flushes cfg) then None
               else case register_custom_metrics register registry of
                 None \<Rightarrow> None
               | Some _ \<Rightarrow>
                   (case build_catalog (rest_builder X) (glue_builder X) cfg of
                      None \<Rightarrow> None
                    | Some (Inl e) \<Rightarrow> Some (Err e)
                    | Some (Inr h) \<Rightarrow>
                        Some (Ok (cfg, h, boot s catalog_state)))))"

section \<open>Steps\<close>

text \<open>
  The families whose events are still to be committed, and with them those that are committed
  and not dropped: each is in exactly one place.
\<close>

definition tracked :: "('d, 'c, 's, 'io, 'f, 'e) engine \<Rightarrow> string list" where
  "tracked st = active_cf (store st) # orphaned_cfs (store st) @
     (case flushing st of None \<Rightarrow> [] | Some cfs \<Rightarrow> cfs) @ map task_cf (waiting st) @
     map task_cf (running st) @ map cf_name (channel st) @ stranded st"

definition settled_requests :: "('d, 'c, 's, 'io, 'f, 'e) engine \<Rightarrow> 'f commit_request list" where
  "settled_requests st = dropping st @ undropped st"

definition known :: "('d, 'c, 's, 'io, 'f, 'e) engine \<Rightarrow> string list" where
  "known st = tracked st @ map cf_name (settled_requests st)"

definition append_begin :: "bytes \<Rightarrow> ('d, 'c, 's, 'io, 'f, 'e) engine \<Rightarrow> ('d, 'c, 's, 'io, 'f, 'e) engine" where
  "append_begin v st = st\<lparr>appends := appends st @ [(active_cf (store st), v)]\<rparr>"

definition append_finish ::
    "('p, 'd, 'w, 'e, 'b, 's, 'io, 'f, 'c, 't) externals \<Rightarrow> string \<Rightarrow> bytes \<Rightarrow> ('d, 'c, 's, 'io, 'f, 'e) engine \<Rightarrow>
     ('d, 'c, 's, 'io, 'f, 'e) engine" where
  "append_finish X n v st =
     (case append_to_cf (rocks X) n [v] (store st) of
        (Inl e, s') \<Rightarrow> st\<lparr>store := s'\<rparr>
      | (Inr _, s') \<Rightarrow> st\<lparr>store := s', accepted := accepted st + mset (decoded (pq X) [v])\<rparr>)"

text \<open>
  A cycle of the flush loop, or the emergency flush, in two steps: it freezes the families, then it
  asks the catalog and spawns the tasks. The second step is \<open>None\<close> if it panics.
\<close>

definition flush_begin ::
    "('p, 'd, 'w, 'e, 'b, 's, 'io, 'f, 'c, 't) externals \<Rightarrow> (u64 \<Rightarrow> u64) \<Rightarrow> nat \<Rightarrow>
     ('d, 'c, 's, 'io, 'f, 'e) engine \<Rightarrow> ('d, 'c, 's, 'io, 'f, 'e) engine" where
  "flush_begin X gen_range now st =
     (case freeze_cfs (rocks X) gen_range now (store st) of
        (Inl e, s') \<Rightarrow> st\<lparr>store := s', stranded := stranded st @ orphaned_cfs (store st)\<rparr>
      | (Inr cfs, s') \<Rightarrow> st\<lparr>store := s', flushing := Some cfs\<rparr>)"

definition flush_end ::
    "('p, 'd, 'w, 'e, 'b, 's, 'io, 'f, 'c, 't) externals \<Rightarrow> config \<Rightarrow> string list \<Rightarrow>
     ('d, 'c, 's, 'io, 'f, 'e) engine \<Rightarrow> ('d, 'c, 's, 'io, 'f, 'e) engine option" where
  "flush_end X cfg cfs st =
     (case spawn_tasks (rest_builder X) (glue_builder X) cfg cfs (world st) of
        (None, w') \<Rightarrow> None
      | (Some (Inl e), w') \<Rightarrow>
          Some (st\<lparr>world := w', flushing := None, stranded := stranded st @ cfs\<rparr>)
      | (Some (Inr tasks), w') \<Rightarrow>
          Some (st\<lparr>world := w', flushing := None, waiting := waiting st @ tasks\<rparr>))"

definition finish_task ::
    "('p, 'd, 'w, 'e, 'b, 's, 'io, 'f, 'c, 't) externals \<Rightarrow> string \<Rightarrow> ('io, 's) flush_task \<Rightarrow>
     ('d, 'c, 's, 'io, 'f, 'e) engine \<Rightarrow> ('d, 'c, 's, 'io, 'f, 'e) engine" where
  "finish_task X uuid t st =
     (case run_flush_task (rocks X) (pq X) uuid (main st \<noteq> Exited) t (store st) (mets (world st)) of
        (req, s', m') \<Rightarrow>
          st\<lparr>store := s', world := (world st)\<lparr>mets := m'\<rparr>,
             channel := channel st @ (case req of None \<Rightarrow> [] | Some q \<Rightarrow> [q])\<rparr>)"

text \<open>The events in the data files of a request, and what a family holds beyond them.\<close>

definition request_rows :: "('f \<Rightarrow> 'e list) \<Rightarrow> 'f commit_request \<Rightarrow> 'e multiset" where
  "request_rows file_rows req =
     mset (concat (map file_rows (concat (map snd (table_data_files req)))))"

definition family_events ::
    "('w, 'e, 'b, 's, 'io, 'f) parquet \<Rightarrow> 'd contents \<Rightarrow> 'd rocks_store \<Rightarrow> string \<Rightarrow> 'e multiset" where
  "family_events P contents s n = mset (decoded P (cf_values contents s n))"

text \<open>
  A batch is committed, and its families are then to be dropped, or they are put back. What a family
  holds beyond the files of its request goes with it.
\<close>

definition commit_step ::
    "('p, 'd, 'w, 'e, 'b, 's, 'io, 'f, 'c, 't) externals \<Rightarrow> ('c, 't, 's, 'io, 'f) catalog catalog_handle \<Rightarrow>
     config \<Rightarrow> 'f commit_request list \<Rightarrow> ('d, 'c, 's, 'io, 'f, 'e) engine \<Rightarrow> ('d, 'c, 's, 'io, 'f, 'e) engine" where
  "commit_step X h cfg batch st =
     (case commit_batch (hash_order X) h cfg batch (world st) of
        (fully_committed, w') \<Rightarrow>
          if fully_committed then st\<lparr>world := w', dropping := batch\<rparr>
          else st\<lparr>world := w', store := fold retain_frozen_cf (map cf_name batch) (store st)\<rparr>)"

definition drop_step ::
    "('p, 'd, 'w, 'e, 'b, 's, 'io, 'f, 'c, 't) externals \<Rightarrow> 'd contents \<Rightarrow> ('f \<Rightarrow> 'e list) \<Rightarrow>
     'f commit_request \<Rightarrow> ('d, 'c, 's, 'io, 'f, 'e) engine \<Rightarrow> ('d, 'c, 's, 'io, 'f, 'e) engine" where
  "drop_step X contents file_rows req st =
     (case drop_frozen_cf (rocks X) (cf_name req) (store st) of
        (Inl e, s') \<Rightarrow> st\<lparr>store := s', undropped := undropped st @ [req]\<rparr>
      | (Inr _, s') \<Rightarrow>
          st\<lparr>store := s', lost := lost st +
             (family_events (pq X) contents (store st) (cf_name req) - request_rows file_rows req)\<rparr>)"

text \<open>A committer round with nothing in between is its commit and then its drops.\<close>

lemma drop_step_store:
  "store (drop_step X contents file_rows req st) = snd (drop_frozen_cf (rocks X) (cf_name req) (store st))"
  "world (drop_step X contents file_rows req st) = world st"
  by (simp_all add: drop_step_def split: prod.splits sum.splits)

lemma drop_steps_store:
  "store (fold (drop_step X contents file_rows) batch st) =
     fold (\<lambda>cf s. snd (drop_frozen_cf (rocks X) cf s)) (map cf_name batch) (store st)"
  "world (fold (drop_step X contents file_rows) batch st) = world st"
  by (induction batch arbitrary: st) (simp_all add: drop_step_store)

lemma committer_round_steps:
  assumes "committer_round (rocks X) (hash_order X) h cfg batch (store st) (world st) = (ok, s', w')"
  shows "store (fold (drop_step X contents file_rows) (if ok then batch else []) (commit_step X h cfg batch st)) = s'"
    and "world (fold (drop_step X contents file_rows) (if ok then batch else []) (commit_step X h cfg batch st)) = w'"
    and "dropping st = [] \<Longrightarrow> dropping (commit_step X h cfg batch st) = (if ok then batch else [])"
  using assms
  by (auto simp: committer_round_def commit_step_def drop_steps_store Let_def split: prod.splits if_splits)

text \<open>
  \<open>wait_for_shutdown\<close> (on Unix): the signal that ended the wait, as it is logged; \<open>None\<close> is the panic
  when no handler can be registered for SIGTERM.
\<close>

datatype os_signal = Sigterm | Ctrl_C

definition wait_for_shutdown :: "bool \<Rightarrow> os_signal \<Rightarrow> string option" where
  "wait_for_shutdown registered received =
     (if \<not> registered then None
      else Some (case received of Sigterm \<Rightarrow> ''Received SIGTERM'' | Ctrl_C \<Rightarrow> ''Received Ctrl+C''))"

text \<open>
  The steps. Ingest handlers run on tasks of their own that nothing waits for, so appends go on
  until the process is gone. The server may fail, which is logged and stops nothing else. The semaphore
  hands out as many permits as configured. The
  committer takes what the channel has once it is done with the batch before; it ends when the channel
  is empty and no task holds a sender. The key counter does not run over within a run, and the
  clock's microseconds fit 64 bits.
\<close>

inductive step ::
    "('p, 'd, 'w, 'e, 'b, 's, 'io, 'f, 'c, 't) externals \<Rightarrow> 'd contents \<Rightarrow> ('f \<Rightarrow> 'e list) \<Rightarrow> config \<Rightarrow>
     ('c, 't, 's, 'io, 'f) catalog catalog_handle \<Rightarrow>
     ('d, 'c, 's, 'io, 'f, 'e) engine \<Rightarrow> ('d, 'c, 's, 'io, 'f, 'e) engine \<Rightarrow> bool"
  for X :: "('p, 'd, 'w, 'e, 'b, 's, 'io, 'f, 'c, 't) externals"
    and contents :: "'d contents" and file_rows :: "'f \<Rightarrow> 'e list" and cfg :: config
    and h :: "('c, 't, 's, 'io, 'f) catalog catalog_handle" where
  Append_Begin: "main st \<noteq> Exited \<Longrightarrow> step X contents file_rows cfg h st (append_begin v st)"
| Append_Finish: "main st \<noteq> Exited \<Longrightarrow> appends st = as @ (n, v) # bs \<Longrightarrow>
    unat (counter (store st)) + 1 < 2 ^ 64 \<Longrightarrow>
    step X contents file_rows cfg h st (append_finish X n v (st\<lparr>appends := as @ bs\<rparr>))"
| Flush_Begin: "loop_running st \<Longrightarrow> flush_loop_action wake = Flush \<Longrightarrow> flushing st = None \<Longrightarrow>
    now < 2 ^ 64 \<Longrightarrow> step X contents file_rows cfg h st (flush_begin X g now st)"
| Flush_End: "flushing st = Some cfs \<Longrightarrow> flush_end X cfg cfs st = Some st' \<Longrightarrow>
    step X contents file_rows cfg h st st'"
| Acquire_Permit: "waiting st = as @ t # bs \<Longrightarrow>
    length (running st) < unat (concurrent_cf_flushes cfg) \<Longrightarrow>
    step X contents file_rows cfg h st (st\<lparr>waiting := as @ bs, running := running st @ [t]\<rparr>)"
| Finish_Task: "running st = as @ t # bs \<Longrightarrow>
    step X contents file_rows cfg h st (finish_task X uuid t (st\<lparr>running := as @ bs\<rparr>))"
| Commit_Round: "channel st = batch @ rest \<Longrightarrow> batch \<noteq> [] \<Longrightarrow> dropping st = [] \<Longrightarrow>
    step X contents file_rows cfg h st (commit_step X h cfg batch (st\<lparr>channel := rest\<rparr>))"
| Drop_Family: "dropping st = req # rest \<Longrightarrow>
    step X contents file_rows cfg h st (drop_step X contents file_rows req (st\<lparr>dropping := rest\<rparr>))"
| Signal: "main st = Serving \<Longrightarrow> wait_for_shutdown registered sig \<noteq> None \<Longrightarrow>
    step X contents file_rows cfg h st (st\<lparr>main := Stopping\<rparr>)"
| Grpc_Fail: "main st \<noteq> Exited \<Longrightarrow> run_server serve cfg = Err e \<Longrightarrow>
    step X contents file_rows cfg h st (st\<lparr>grpc_running := False\<rparr>)"
| Grpc_Stop: "main st = Stopping \<Longrightarrow> step X contents file_rows cfg h st (st\<lparr>grpc_running := False\<rparr>)"
| Loop_Stop: "main st = Stopping \<Longrightarrow> flush_loop_action (Shutdown_Changed True) = Return \<Longrightarrow>
    flushing st = None \<Longrightarrow>
    step X contents file_rows cfg h st (st\<lparr>loop_running := False\<rparr>)"
| Emergency_Flush: "main st = Stopping \<Longrightarrow> \<not> grpc_running st \<Longrightarrow> \<not> loop_running st \<Longrightarrow> flushing st = None \<Longrightarrow>
    now < 2 ^ 64 \<Longrightarrow> step X contents file_rows cfg h st ((flush_begin X g now st)\<lparr>main := Flushing\<rparr>)"
| Emergency_Done: "main st = Flushing \<Longrightarrow> flushing st = None \<Longrightarrow>
    step X contents file_rows cfg h st (st\<lparr>main := Draining\<rparr>)"
| Committer_Exit: "main st = Draining \<Longrightarrow> waiting st = [] \<Longrightarrow> running st = [] \<Longrightarrow> channel st = [] \<Longrightarrow>
    dropping st = [] \<Longrightarrow> step X contents file_rows cfg h st (st\<lparr>main := Exited\<rparr>)"

inductive_cases stepE: "step X contents file_rows cfg h st st'"

lemmas step_elim = stepE [consumes 1, case_names Append_Begin Append_Finish Flush_Begin Flush_End Acquire_Permit
  Finish_Task Commit_Round Drop_Family Signal Grpc_Fail Grpc_Stop Loop_Stop Emergency_Flush Emergency_Done Committer_Exit]

end
