(* ===== verification/Engine_Invariant.thy ===== *)
theory Engine_Invariant
  imports Engine
begin

text \<open>
  The invariant of the engine's step relation, that every step keeps it, and that calm steps lose
  no event. The interpretations at the end lift this to every state a run reaches.
\<close>

section \<open>The invariant\<close>

text \<open>
  The events committed to the table; those in the families; those in the files of committed
  requests whose families still exist; and those that are only in families.
\<close>

definition committed ::
    "('f \<Rightarrow> 'e list) \<Rightarrow> ('c, 'f) snapshots \<Rightarrow> config \<Rightarrow> ('d, 'c, 's, 'io, 'f, 'e) engine \<Rightarrow> 'e multiset" where
  "committed file_rows tabs cfg st =
     mset (concat (map file_rows (files_of tabs (world st) (analytics, micewriter_table cfg))))"

definition stored ::
    "('w, 'e, 'b, 's, 'io, 'f) parquet \<Rightarrow> 'd contents \<Rightarrow> ('d, 'c, 's, 'io, 'f, 'e) engine \<Rightarrow> 'e multiset" where
  "stored P contents st = (\<Sum>n \<leftarrow> known st. family_events P contents (store st) n)"

definition settled :: "('f \<Rightarrow> 'e list) \<Rightarrow> ('d, 'c, 's, 'io, 'f, 'e) engine \<Rightarrow> 'e multiset" where
  "settled file_rows st = (\<Sum>req \<leftarrow> settled_requests st. request_rows file_rows req)"

definition buffered ::
    "('w, 'e, 'b, 's, 'io, 'f) parquet \<Rightarrow> 'd contents \<Rightarrow> ('f \<Rightarrow> 'e list) \<Rightarrow>
     ('d, 'c, 's, 'io, 'f, 'e) engine \<Rightarrow> 'e multiset" where
  "buffered P contents file_rows st = stored P contents st - settled file_rows st"

text \<open>The families of the engine are those it knows, and each is known in one place only.\<close>

definition families_ok :: "'d contents \<Rightarrow> ('d, 'c, 's, 'io, 'f, 'e) engine \<Rightarrow> bool" where
  "families_ok contents st \<longleftrightarrow>
     distinct (known st) \<and>
     (\<forall>n. n \<in> set (known st) \<longleftrightarrow> contents (db (store st)) n \<noteq> None \<and> active_cf_timestamp n \<noteq> None)"

text \<open>A family that an append in flight will write to has no key that the append could overwrite.\<close>

definition appends_ok :: "'d contents \<Rightarrow> ('d, 'c, 's, 'io, 'f, 'e) engine \<Rightarrow> bool" where
  "appends_ok contents st \<longleftrightarrow>
     (\<forall>(n, v) \<in> set (appends st). active_cf_timestamp n \<noteq> None \<and>
        (\<forall>kvs. contents (db (store st)) n = Some kvs \<longrightarrow> keys_below (counter (store st)) kvs))"

text \<open>Every key in the database is a counter value below the last one.\<close>

definition keys_ok :: "'d contents \<Rightarrow> ('d, 'c, 's, 'io, 'f, 'e) engine \<Rightarrow> bool" where
  "keys_ok contents st \<longleftrightarrow> (\<forall>n kvs. contents (db (store st)) n = Some kvs \<longrightarrow> counter_keys kvs)"

definition tasks_ok :: "config \<Rightarrow> ('d, 'c, 's, 'io, 'f, 'e) engine \<Rightarrow> bool" where
  "tasks_ok cfg st \<longleftrightarrow>
     (\<forall>t \<in> set (waiting st @ running st). task_table t = micewriter_table cfg) \<and>
     length (running st) \<le> unat (concurrent_cf_flushes cfg)"

text \<open>A request is for the configured table, and its files hold events of its family.\<close>

definition request_ok ::
    "('w, 'e, 'b, 's, 'io, 'f) parquet \<Rightarrow> 'd contents \<Rightarrow> ('f \<Rightarrow> 'e list) \<Rightarrow> config \<Rightarrow> 'd rocks_store \<Rightarrow>
     'f commit_request \<Rightarrow> bool" where
  "request_ok P contents file_rows cfg s req \<longleftrightarrow>
     (\<exists>files. table_data_files req = [(micewriter_table cfg, files)]) \<and>
     request_rows file_rows req \<subseteq># family_events P contents s (cf_name req)"

definition requests :: "('d, 'c, 's, 'io, 'f, 'e) engine \<Rightarrow> 'f commit_request list" where
  "requests st = channel st @ settled_requests st"

text \<open>
  The account: what was accepted is in the table, in a family or lost; what is in the table and in
  a family counts twice, and \<open>dup\<close> are the events that have been committed once more than accepted or
  came back at a restart.
\<close>

definition account_ok ::
    "'e multiset \<Rightarrow> ('w, 'e, 'b, 's, 'io, 'f) parquet \<Rightarrow> 'd contents \<Rightarrow> ('f \<Rightarrow> 'e list) \<Rightarrow> ('c, 'f) snapshots \<Rightarrow> config \<Rightarrow>
     ('d, 'c, 's, 'io, 'f, 'e) engine \<Rightarrow> bool" where
  "account_ok dup P contents file_rows tabs cfg st \<longleftrightarrow>
     settled file_rows st \<subseteq># committed file_rows tabs cfg st \<and>
     accepted st + dup + settled file_rows st =
       committed file_rows tabs cfg st + stored P contents st + lost st"

definition engine_inv ::
    "'e multiset \<Rightarrow> ('p, 'd, 'w, 'e, 'b, 's, 'io, 'f, 'c, 't) externals \<Rightarrow> 'd contents \<Rightarrow> ('f \<Rightarrow> 'e list) \<Rightarrow> config \<Rightarrow>
     ('c, 'f) snapshots \<Rightarrow> 'c namespaces \<Rightarrow> ('d, 'c, 's, 'io, 'f, 'e) engine \<Rightarrow> bool" where
  "engine_inv dup X contents file_rows cfg tabs nss st \<longleftrightarrow>
     store_inv contents (store st) \<and> cache_inv tabs nss analytics (world st) \<and>
     families_ok contents st \<and> appends_ok contents st \<and> keys_ok contents st \<and> tasks_ok cfg st \<and>
     (\<forall>req \<in> set (requests st). request_ok (pq X) contents file_rows cfg (store st) req) \<and>
     account_ok dup (pq X) contents file_rows tabs cfg st"

definition engine_laws ::
    "('p, 'd, 'w, 'e, 'b, 's, 'io, 'f, 'c, 't) externals \<Rightarrow> 'd contents \<Rightarrow> ('b \<Rightarrow> 'e list) \<Rightarrow> ('w \<Rightarrow> 'e list) \<Rightarrow>
     ('f \<Rightarrow> 'e list) \<Rightarrow> config \<Rightarrow> ('c, 't, 's, 'io, 'f) catalog catalog_handle \<Rightarrow>
     ('c, 'f) snapshots \<Rightarrow> 'c namespaces \<Rightarrow> bool" where
  "engine_laws X contents batch_rows rows file_rows cfg h tabs nss \<longleftrightarrow>
     rocksdb_laws (rocks X) contents \<and> writer_laws (pq X) batch_rows rows file_rows \<and>
     catalog_laws (handle_catalog h) tabs nss \<and>
     (\<forall>h'. build_catalog (rest_builder X) (glue_builder X) cfg = Some (Ok h') \<longrightarrow>
        catalog_laws (handle_catalog h') tabs nss) \<and>
     (\<forall>m. mset (hash_order X m) = mset m)"

lemma engine_invD:
  assumes "engine_inv dup X contents file_rows cfg tabs nss st"
  shows "store_inv contents (store st)" and "cache_inv tabs nss analytics (world st)"
    and "families_ok contents st" and "appends_ok contents st" and "keys_ok contents st" and "tasks_ok cfg st"
    and "req \<in> set (requests st) \<Longrightarrow> request_ok (pq X) contents file_rows cfg (store st) req"
    and "account_ok dup (pq X) contents file_rows tabs cfg st"
  using assms by (simp_all add: engine_inv_def)

lemma known_exists:
  "engine_inv dup X contents file_rows cfg tabs nss st \<Longrightarrow> n \<in> set (known st) \<Longrightarrow>
   \<exists>kvs. contents (db (store st)) n = Some kvs"
  by (auto simp: engine_inv_def families_ok_def)

lemma tracked_known: "n \<in> set (tracked st) \<Longrightarrow> n \<in> set (known st)"
  by (simp add: known_def)

lemma family_events_cong:
  "contents (db s') n = contents (db s) n \<Longrightarrow> family_events P contents s' n = family_events P contents s n"
  by (simp add: family_events_def cf_values_def)

lemma family_events_empty: "contents (db s) n = Some [] \<Longrightarrow> family_events P contents s n = {#}"
  by (simp add: family_events_def cf_values_def)

lemma stored_mset: "stored P contents st = (\<Sum>n \<in># mset (known st). family_events P contents (store st) n)"
  by (simp add: stored_def sum_mset_sum_list [symmetric])

lemma request_ok_cong:
  "contents (db s') (cf_name req) = contents (db s) (cf_name req) \<Longrightarrow>
   request_ok P contents file_rows cfg s' req = request_ok P contents file_rows cfg s req"
  by (simp add: request_ok_def family_events_cong [of contents s' "cf_name req" s])

lemma requests_known: "req \<in> set (requests st) \<Longrightarrow> cf_name req \<in> set (known st)"
  by (auto simp: requests_def known_def tracked_def)

lemma requests_distinct:
  assumes "engine_inv dup X contents file_rows cfg tabs nss st"
  shows "distinct (map cf_name (requests st))" and "active_cf (store st) \<notin> cf_name ` set (requests st)"
  using engine_invD(3) [OF assms]
  by (simp_all add: families_ok_def requests_def known_def tracked_def image_Un Int_Un_distrib)

text \<open>What is settled is also stored, so the account can be given without it.\<close>

lemma settled_stored:
  assumes "engine_inv dup X contents file_rows cfg tabs nss st"
  shows "settled file_rows st \<subseteq># stored (pq X) contents st"
proof -
  have "(\<Sum>req \<leftarrow> rs. request_rows file_rows req) \<subseteq># (\<Sum>req \<leftarrow> rs. family_events (pq X) contents (store st) (cf_name req))"
    if "set rs \<subseteq> set (requests st)" for rs
    using that engine_invD(7) [OF assms]
    by (induction rs) (auto simp: request_ok_def intro: subset_mset.add_mono)
  from this [of "settled_requests st"] show ?thesis
    by (auto simp: settled_def stored_def known_def requests_def o_def intro: subset_mset.add_increasing)
qed

lemma buffered_account:
  assumes "engine_inv dup X contents file_rows cfg tabs nss st"
  shows "accepted st + dup = committed file_rows tabs cfg st + buffered (pq X) contents file_rows st + lost st"
proof -
  obtain d where d: "stored (pq X) contents st = settled file_rows st + d"
    using settled_stored [OF assms] by (auto simp: mset_subset_eq_exists_conv)
  then have "buffered (pq X) contents file_rows st = d" by (simp add: buffered_def)
  with d engine_invD(8) [OF assms] show ?thesis by (simp add: account_ok_def ac_simps)
qed

lemma appends_ok_shrink:
  assumes "\<And>n. contents (db s') n = contents (db (store st)) n \<or> contents (db s') n = None"
    and "appends_ok contents st" and "counter s' = counter (store st)"
    and "appends st' = appends st" and "store st' = s'"
  shows "appends_ok contents st'"
  unfolding appends_ok_def
proof (clarsimp, goal_cases)
  case (1 n v)
  have "contents (db (store st)) n = Some kvs" if "contents (db s') n = Some kvs" for kvs
    using that assms(1) [of n] by auto
  with 1 assms show ?case by (fastforce simp: appends_ok_def)
qed

text \<open>
  Most steps move families from one place to another, and a rotation adds an empty one. The
  invariant then follows from what the step does to the parts of the state one by one.
\<close>

lemma engine_inv_transfer:
  assumes inv: "engine_inv dup X contents file_rows cfg tabs nss st"
    and "store_inv contents (store st')" and "cache_inv tabs nss analytics (world st')"
    and same: "\<And>n. n \<notin> set fresh \<Longrightarrow> contents (db (store st')) n = contents (db (store st)) n"
    and known: "mset (known st') = mset (known st) + mset fresh"
    and new: "distinct fresh" "\<And>n. n \<in> set fresh \<Longrightarrow> contents (db (store st)) n = None \<and>
      contents (db (store st')) n = Some [] \<and> active_cf_timestamp n \<noteq> None"
    and "appends_ok contents st'" and "tasks_ok cfg st'"
    and reqs: "\<And>req. req \<in> set (requests st') \<Longrightarrow> req \<in> set (requests st) \<or>
      request_ok (pq X) contents file_rows cfg (store st') req"
    and ghosts: "accepted st' = accepted st" "lost st' = lost st"
    and moved: "committed file_rows tabs cfg st' + settled file_rows st + dup =
      committed file_rows tabs cfg st + settled file_rows st' + dup'" "dup \<subseteq># dup'"
  shows "engine_inv dup' X contents file_rows cfg tabs nss st'"
proof -
  note old = engine_invD [OF inv]
  have ms: "mset (known st') = mset (known st @ fresh)" using known by simp
  then have "distinct (known st') = distinct (known st @ fresh)" by (rule mset_eq_imp_distinct_iff)
  moreover have "n \<notin> set (known st)" if "n \<in> set fresh" for n
    using new(2) [OF that] old(3) by (auto simp: families_ok_def)
  then have "set (known st) \<inter> set fresh = {}" by blast
  ultimately have "distinct (known st')" using old(3) new(1) by (simp add: families_ok_def)
  moreover have ks: "set (known st') = set (known st) \<union> set fresh" using mset_eq_setD [OF ms] by simp
  ultimately have fam: "families_ok contents st'"
    using old(3) same new(2) unfolding families_ok_def by (metis Un_iff option.distinct(1))
  have keys: "keys_ok contents st'"
    unfolding keys_ok_def
  proof (intro allI impI)
    fix n kvs assume "contents (db (store st')) n = Some kvs"
    then show "counter_keys kvs"
      using same [of n] new(2) [of n] old(5) by (cases "n \<in> set fresh") (auto simp: keys_ok_def)
  qed
  have old_same: "contents (db (store st')) n = contents (db (store st)) n" if "n \<in> set (known st)" for n
    using that same new(2) old(3) by (metis families_ok_def)
  have "(\<Sum>n \<in># mset fresh. family_events (pq X) contents (store st') n) = {#}"
    using new(2) by (simp add: family_events_empty)
  moreover have "(\<Sum>n \<in># mset (known st). family_events (pq X) contents (store st') n) =
      (\<Sum>n \<in># mset (known st). family_events (pq X) contents (store st) n)"
    using old_same by (intro arg_cong [where f = sum_mset] image_mset_cong family_events_cong) simp
  ultimately have "stored (pq X) contents st' = stored (pq X) contents st"
    unfolding stored_mset known by simp
  then have acc: "account_ok dup' (pq X) contents file_rows tabs cfg st'"
    using old(8) moved unfolding account_ok_def ghosts
    by (auto simp: mset_subset_eq_exists_conv ac_simps)
  have "request_ok (pq X) contents file_rows cfg (store st') req" if "req \<in> set (requests st')" for req
    using reqs [OF that] old(7) old_same [OF requests_known, of req]
      request_ok_cong [of contents "store st'" req "store st" "pq X" file_rows cfg] by blast
  then show ?thesis
    using assms(2,3,8,9) fam keys acc by (simp add: engine_inv_def)
qed

section \<open>Every step keeps the invariant\<close>

lemma sum_list_update_at:
  fixes f f' :: "'a \<Rightarrow> 'e multiset"
  assumes "\<And>m. m \<noteq> n \<Longrightarrow> f' m = f m" and "f' n = f n + d"
  shows "distinct xs \<Longrightarrow> (\<Sum>m \<leftarrow> xs. f' m) = (\<Sum>m \<leftarrow> xs. f m) + (if n \<in> set xs then d else {#})"
proof (induction xs)
  case (Cons a xs)
  then show ?case using assms by (cases "a = n") (simp_all add: ac_simps)
qed simp

text \<open>A step that appends values to one of the families.\<close>

lemma family_events_append:
  assumes "contents (db s) n = Some kvs" and "contents (db s') = (contents (db s))(n \<mapsto> kvs @ new_kvs)"
  shows "family_events P contents s' m =
    family_events P contents s m + (if m = n then mset (decoded P (map snd new_kvs)) else {#})"
  using assms by (simp add: family_events_def cf_values_def)

lemma engine_inv_append:
  assumes inv: "engine_inv dup X contents file_rows cfg tabs nss st"
    and kvs: "contents (db (store st)) n = Some kvs" and n: "active_cf_timestamp n \<noteq> None"
    and upd: "contents (db (store st')) = (contents (db (store st)))(n \<mapsto> kvs @ new_kvs)"
    and keys: "counter_keys new_kvs" and d: "d = mset (decoded (pq X) (map snd new_kvs))"
    and frame: "world st' = world st" "waiting st' = waiting st" "running st' = running st"
      "requests st' = requests st" "settled_requests st' = settled_requests st" "known st' = known st"
    and ghosts: "accepted st' = accepted st + d" "lost st' = lost st"
    and keeps: "store_inv contents (store st')" "appends_ok contents st'"
  shows "engine_inv dup X contents file_rows cfg tabs nss st'"
proof -
  note old = engine_invD [OF inv]
  note ev = family_events_append [where contents = contents, OF kvs upd, of "pq X", folded d]
  have fam: "families_ok contents st'"
    using old(3) kvs n by (auto simp: families_ok_def frame upd)
  have "keys_ok contents st'" using old(5) kvs keys by (auto simp: keys_ok_def upd)
  moreover have "n \<in> set (known st)" using old(3) kvs n by (auto simp: families_ok_def)
  then have "stored (pq X) contents st' = stored (pq X) contents st + d"
    using old(3) sum_list_update_at [of n "family_events (pq X) contents (store st')"
        "family_events (pq X) contents (store st)" d "known st"] ev
    by (simp only: stored_def frame) (simp add: families_ok_def)
  then have "account_ok dup (pq X) contents file_rows tabs cfg st'"
    using old(8) unfolding account_ok_def committed_def settled_def frame ghosts by (simp add: ac_simps)
  moreover have "request_ok (pq X) contents file_rows cfg (store st') req" if "req \<in> set (requests st)" for req
    using old(7) [OF that] by (auto simp: request_ok_def ev intro: subset_mset.order_trans)
  ultimately show ?thesis using fam old keeps by (simp add: engine_inv_def frame tasks_ok_def)
qed

lemma append_finish_inv:
  assumes laws: "rocksdb_laws (rocks X) contents"
    and inv: "engine_inv dup X contents file_rows cfg tabs nss st"
    and room: "unat (counter (store st)) + 1 < 2 ^ 64" and n: "active_cf_timestamp n \<noteq> None"
    and below: "\<And>kvs. contents (db (store st)) n = Some kvs \<Longrightarrow> keys_below (counter (store st)) kvs"
  shows "engine_inv dup X contents file_rows cfg tabs nss (append_finish X n v st)"
proof -
  let ?s = "store st" and ?d = "mset (decoded (pq X) [v])"
  obtain r s' where run: "append_to_cf (rocks X) n [v] ?s = (r, s')" by force
  have "unat (counter ?s) + length [v] < 2 ^ 64" using room by simp
  note c = append_to_cf_cases [OF laws engine_invD(1) [OF inv] this below run]
  have mono: "counter ?s \<le> counter s'"
    using c counter_mono [of "counter ?s" 1] room by auto
  define st' where "st' = append_finish X n v st"
  have out: "store st' = s'" "world st' = world st" "waiting st' = waiting st" "running st' = running st"
    "channel st' = channel st" "stranded st' = stranded st" "appends st' = appends st" "flushing st' = flushing st"
    "dropping st' = dropping st" "undropped st' = undropped st" "lost st' = lost st"
    "accepted st' = (if is_ok r then accepted st + ?d else accepted st)"
    using run by (simp_all add: st'_def append_finish_def split: sum.splits)
  have kn: "known st' = known st" "requests st' = requests st" "settled_requests st' = settled_requests st"
    using c by (simp_all add: known_def tracked_def requests_def settled_requests_def out)
  have "engine_inv dup X contents file_rows cfg tabs nss st'"
  proof (cases r)
    case (Inl e)
    have "appends_ok contents st'"
      using engine_invD(4) [OF inv] c Inl keys_below_mono [OF _ mono] by (fastforce simp: appends_ok_def out)
    with Inl c show ?thesis
      by (intro engine_inv_transfer [OF inv, where fresh = "[]"])
        (use engine_invD [OF inv] in \<open>auto simp: out kn tasks_ok_def committed_def settled_def\<close>)
  next
    case (Inr full)
    from c Inr obtain kvs where kvs: "contents (db ?s) n = Some kvs"
      and upd: "contents (db s') = (contents (db ?s))(n \<mapsto> kvs @ keyed (counter ?s) [v])"
      and below': "keys_below (counter s') (kvs @ keyed (counter ?s) [v])" by auto
    have "appends_ok contents st'"
      using engine_invD(4) [OF inv] below' keys_below_mono [OF _ mono]
      by (fastforce simp: appends_ok_def out upd split: if_splits)
    then show ?thesis
      using kvs upd c Inr counter_keys_one [OF room, of v]
      by (intro engine_inv_append [OF inv kvs n, where d = ?d]) (auto simp: out kn)
  qed
  then show ?thesis by (simp add: st'_def)
qed

lemmas place_defs = known_def tracked_def requests_def settled_requests_def
lemmas account_defs = committed_def settled_def

lemma append_begin_inv:
  assumes inv: "engine_inv dup X contents file_rows cfg tabs nss st"
  shows "engine_inv dup X contents file_rows cfg tabs nss (append_begin v st)"
proof -
  note old = engine_invD [OF inv]
  have "active_cf (store st) \<in> set (known st)" by (simp add: place_defs)
  then have "active_cf_timestamp (active_cf (store st)) \<noteq> None" using old(3) by (simp add: families_ok_def)
  then have "appends_ok contents (append_begin v st)"
    using old(1,4) by (auto simp: appends_ok_def append_begin_def store_inv_def)
  then show ?thesis
    by (intro engine_inv_transfer [OF inv, where fresh = "[]"])
      (use old in \<open>auto simp: append_begin_def place_defs tasks_ok_def account_defs\<close>)
qed

lemma take_append_inv:
  assumes inv: "engine_inv dup X contents file_rows cfg tabs nss st" and "appends st = as @ (n, v) # bs"
  shows "engine_inv dup X contents file_rows cfg tabs nss (st\<lparr>appends := as @ bs\<rparr>)"
  by (rule engine_inv_transfer [OF inv, where fresh = "[]"])
    (use engine_invD [OF inv] assms(2) in \<open>auto simp: appends_ok_def place_defs tasks_ok_def account_defs\<close>)

lemma flush_begin_fields:
  "flush_begin X g now st = (case freeze_cfs (rocks X) g now (store st) of
     (Inl e, s') \<Rightarrow> st\<lparr>store := s', stranded := stranded st @ orphaned_cfs (store st)\<rparr>
   | (Inr cfs, s') \<Rightarrow> st\<lparr>store := s', flushing := Some cfs\<rparr>)"
  "main (flush_begin X g now st) = main st" "world (flush_begin X g now st) = world st"
  "loop_running (flush_begin X g now st) = loop_running st" "grpc_running (flush_begin X g now st) = grpc_running st"
  "waiting (flush_begin X g now st) = waiting st" "running (flush_begin X g now st) = running st"
  "channel (flush_begin X g now st) = channel st" "appends (flush_begin X g now st) = appends st"
  "accepted (flush_begin X g now st) = accepted st" "lost (flush_begin X g now st) = lost st"
  "dropping (flush_begin X g now st) = dropping st" "undropped (flush_begin X g now st) = undropped st"
  "store (flush_begin X g now st) = snd (freeze_cfs (rocks X) g now (store st))"
  by (simp_all add: flush_begin_def split: prod.splits sum.splits)

lemma flush_begin_store:
  assumes laws: "rocksdb_laws (rocks X) contents" and inv: "engine_inv dup X contents file_rows cfg tabs nss st"
    and n: "n \<in> set (known st)"
  shows "contents (db (store (flush_begin X g now st))) n = contents (db (store st)) n"
proof -
  obtain r s' where fr: "freeze_cfs (rocks X) g now (store st) = (r, s')" by force
  have "contents (db (store st)) n \<noteq> None" using known_exists [OF inv n] by auto
  with freeze_cfs_store [OF laws engine_invD(1) [OF inv] fr] show ?thesis
    by (cases r) (auto simp: flush_begin_fields fr was_rotated_def)
qed

lemma flush_begin_inv:
  assumes laws: "engine_laws X contents batch_rows rows file_rows cfg h tabs nss"
    and inv: "engine_inv dup X contents file_rows cfg tabs nss st" and idle: "flushing st = None" and clock: "now < 2 ^ 64"
  shows "engine_inv dup X contents file_rows cfg tabs nss (flush_begin X g now st)"
proof -
  note old = engine_invD [OF inv]
  obtain r s' where fr: "freeze_cfs (rocks X) g now (store st) = (r, s')" by force
  define st' where "st' = flush_begin X g now st"
  have rl: "rocksdb_laws (rocks X) contents" using laws by (simp add: engine_laws_def)
  note sc = freeze_cfs_store [OF rl old(1) fr]
  define fresh where "fresh = (if is_ok r then [active_cf s'] else [])"
  have new: "contents (db (store st)) n = None \<and> contents (db s') n = Some [] \<and> active_cf_timestamp n \<noteq> None"
    if "n \<in> set fresh" for n
    using that sc active_cf_timestamp_rotated [OF clock]
    by (cases r) (auto simp: fresh_def was_rotated_def)
  have same: "contents (db s') n = contents (db (store st)) n" if "n \<notin> set fresh" for n
    using that sc by (cases r) (auto simp: fresh_def was_rotated_def)
  have out: "store st' = s'" "world st' = world st" "waiting st' = waiting st" "running st' = running st"
    "channel st' = channel st" "appends st' = appends st" "accepted st' = accepted st" "lost st' = lost st"
    "dropping st' = dropping st" "undropped st' = undropped st"
    by (simp_all add: st'_def flush_begin_fields(2-) fr)
  have tr: "mset (known st') = mset (known st) + mset fresh"
    using sc idle fr by (cases r) (auto simp: st'_def flush_begin_def place_defs fresh_def)
  have app: "appends_ok contents st'"
    using old(4) sc
    by (cases r) (fastforce simp: appends_ok_def out was_rotated_def split: if_splits)+
  have "engine_inv dup X contents file_rows cfg tabs nss st'"
    by (rule engine_inv_transfer [OF inv, where fresh = fresh])
      (use old sc tr new same app in \<open>auto simp: out tasks_ok_def requests_def settled_requests_def account_defs fresh_def\<close>)
  then show ?thesis by (simp add: st'_def)
qed

lemma flush_end_cases [consumes 1, case_names failed spawned]:
  assumes "flush_end X cfg cfs st = Some st'"
  obtains e w' where "spawn_tasks (rest_builder X) (glue_builder X) cfg cfs (world st) = (Some (Err e), w')"
      "st' = st\<lparr>world := w', flushing := None, stranded := stranded st @ cfs\<rparr>"
    | tasks w' where "spawn_tasks (rest_builder X) (glue_builder X) cfg cfs (world st) = (Some (Ok tasks), w')"
      "st' = st\<lparr>world := w', flushing := None, waiting := waiting st @ tasks\<rparr>"
  using assms by (auto simp: flush_end_def split: prod.splits option.splits sum.splits)

lemma flush_end_inv:
  assumes laws: "engine_laws X contents batch_rows rows file_rows cfg h tabs nss"
    and inv: "engine_inv dup X contents file_rows cfg tabs nss st" and cfs: "flushing st = Some cfs"
    and run: "flush_end X cfg cfs st = Some st'"
  shows "engine_inv dup X contents file_rows cfg tabs nss st'"
proof -
  note old = engine_invD [OF inv]
  have wc: "cache_inv tabs nss analytics w' \<and> (\<forall>i. files_of tabs w' i = files_of tabs (world st) i)"
    if "spawn_tasks (rest_builder X) (glue_builder X) cfg cfs (world st) = (r, w')" for r w'
    using laws by (intro spawn_tasks_world [OF _ old(2) that]) (simp add: engine_laws_def)
  from run show ?thesis
  proof (cases rule: flush_end_cases)
    case (failed e w')
    show ?thesis
      by (rule engine_inv_transfer [OF inv, where fresh = "[]"])
        (use old cfs wc failed in \<open>auto simp: appends_ok_def tasks_ok_def place_defs account_defs\<close>)
  next
    case (spawned tasks w')
    note t = spawn_tasks_tasks [OF spawned(1)]
    then have "mset (known st') = mset (known st) + mset []"
      using cfs spawned(2) by (auto simp: place_defs simp del: mset_map)
    then show ?thesis
      by (rule engine_inv_transfer [OF inv, rotated 3])
        (use old t wc spawned in \<open>auto simp: appends_ok_def tasks_ok_def requests_def settled_requests_def account_defs\<close>)
  qed
qed

lemma compiled_rows:
  assumes laws: "engine_laws X contents batch_rows rows file_rows cfg h tabs nss"
    and some: "contents (db s) n = Some kvs"
    and run: "compile_cf_pipeline (rocks X) (pq X) uuid s n target compr ctx sch m = (Ok files, m')"
  shows "mset (concat (map file_rows files)) \<subseteq># family_events (pq X) contents s n"
    and "iterator_start (rocks X) (db s) n = map Inr kvs \<Longrightarrow>
      mset (concat (map file_rows files)) = family_events (pq X) contents s n"
proof -
  have rl: "rocksdb_laws (rocks X) contents" and wl: "writer_laws (pq X) batch_rows rows file_rows"
    using laws by (simp_all add: engine_laws_def)
  have rows: "concat (map file_rows files) = decoded (pq X) (yielded (iterator_start (rocks X) (db s) n))"
    using compile_cf_pipeline_yields [OF wl run] some cf_handle_iff [OF rl] by simp
  show "mset (concat (map file_rows files)) = family_events (pq X) contents s n"
    if "iterator_start (rocks X) (db s) n = map Inr kvs"
    using that some unfolding rows by (simp add: family_events_def cf_values_def)
  have "mset (decoded (pq X) (map snd (take k kvs))) \<subseteq># mset (decoded (pq X) (map snd kvs))" for k
    by (metis append_take_drop_id decoded_simps(3) map_append mset_append mset_subset_eq_add_left)
  then show "mset (concat (map file_rows files)) \<subseteq># family_events (pq X) contents s n"
    using some unfolding rows
    by (cases rule: iterator_start_cases [OF rl some]) (simp_all add: family_events_def cf_values_def)
qed

lemma finish_task_inv:
  assumes laws: "engine_laws X contents batch_rows rows file_rows cfg h tabs nss"
    and inv: "engine_inv dup X contents file_rows cfg tabs nss st" and rn: "running st = as @ t # bs"
  shows "engine_inv dup X contents file_rows cfg tabs nss (finish_task X uuid t (st\<lparr>running := as @ bs\<rparr>))"
proof -
  note old = engine_invD [OF inv]
  obtain req s' m' where run: "run_flush_task (rocks X) (pq X) uuid (main st \<noteq> Exited) t (store st)
      (mets (world st)) = (req, s', m')" by (metis prod_cases3)
  define st' where "st' = finish_task X uuid t (st\<lparr>running := as @ bs\<rparr>)"
  have out: "store st' = s'" "world st' = (world st)\<lparr>mets := m'\<rparr>" "running st' = as @ bs"
    "channel st' = channel st @ (case req of None \<Rightarrow> [] | Some q \<Rightarrow> [q])" "waiting st' = waiting st"
    "appends st' = appends st" "accepted st' = accepted st" "lost st' = lost st" "stranded st' = stranded st"
    "flushing st' = flushing st" "dropping st' = dropping st" "undropped st' = undropped st"
   
    using run by (simp_all add: st'_def finish_task_def)
  have w: "cache_inv tabs nss analytics (world st') = cache_inv tabs nss analytics (world st)"
    "files_of tabs (world st') i = files_of tabs (world st) i" for i
    by (simp_all add: out cache_inv_def files_of_def)
  have t: "task_cf t \<in> set (known st)" "task_table t = micewriter_table cfg"
    using old(6) rn by (auto simp: tasks_ok_def place_defs)
  from run have "engine_inv dup X contents file_rows cfg tabs nss st'"
  proof (cases rule: run_flush_task_cases)
    case (sent files)
    obtain kvs where kvs: "contents (db (store st)) (task_cf t) = Some kvs"
      using known_exists [OF inv t(1)] by blast
    have new: "request_ok (pq X) contents file_rows cfg (store st')
        \<lparr> cf_name = task_cf t, table_data_files = [(task_table t, files)] \<rparr>"
      using compiled_rows(1) [OF laws kvs sent(3)] t(2) sent(2) by (simp add: request_ok_def request_rows_def out)
    show ?thesis
      by (rule engine_inv_transfer [OF inv, where fresh = "[]"])
        (use old sent new in \<open>auto simp: w committed_def, auto simp: appends_ok_def tasks_ok_def place_defs settled_def out rn\<close>)
  next
    case kept
    show ?thesis
      by (rule engine_inv_transfer [OF inv, where fresh = "[]"])
        (use old kept in \<open>auto simp: w committed_def, auto simp: appends_ok_def tasks_ok_def place_defs settled_def out rn
          retain_frozen_cf_def store_inv_def\<close>)
  qed
  then show ?thesis by (simp add: st'_def)
qed

text \<open>A committed batch adds the events in its files to the table; they are then settled.\<close>

lemma batch_rows_sum:
  assumes "\<forall>req \<in> set batch. request_ok P contents file_rows cfg s req"
  shows "(\<Sum>req \<leftarrow> batch. request_rows file_rows req) =
    mset (concat (map file_rows (concat (map (\<lambda>req. files_for (micewriter_table cfg) (table_data_files req)) batch))))"
  using assms by (induction batch) (auto simp: request_ok_def request_rows_def)

lemma mset_copies:
  "mset (concat (map file_rows (copies k files))) = repeat_mset k (mset (concat (map file_rows files)))"
  by (induction k) (simp_all add: repeat_mset_Suc)

lemma repeat_mset_elems: "set_mset (repeat_mset k M) \<subseteq> set_mset M"
  by (induction k) (auto simp: repeat_mset_Suc)

text \<open>What is in the channel is buffered.\<close>

lemma channel_buffered:
  assumes inv: "engine_inv dup X contents file_rows cfg tabs nss st" and ch: "channel st = batch @ rest"
  shows "(\<Sum>req \<leftarrow> batch. request_rows file_rows req) \<subseteq># buffered (pq X) contents file_rows st"
proof -
  let ?ev = "family_events (pq X) contents (store st)"
  have rows: "(\<Sum>req \<leftarrow> rs. request_rows file_rows req) \<subseteq># (\<Sum>req \<leftarrow> rs. ?ev (cf_name req))"
    if "set rs \<subseteq> set (requests st)" for rs
    using that engine_invD(7) [OF inv]
    by (induction rs) (auto simp: request_ok_def intro: subset_mset.add_mono)
  obtain d where st: "stored (pq X) contents st = (\<Sum>req \<leftarrow> batch. ?ev (cf_name req)) +
      (\<Sum>req \<leftarrow> settled_requests st. ?ev (cf_name req)) + d"
    using ch by (auto simp: stored_def known_def tracked_def o_def ac_simps)
  obtain a b where ab: "(\<Sum>req \<leftarrow> batch. ?ev (cf_name req)) = (\<Sum>req \<leftarrow> batch. request_rows file_rows req) + a"
    "(\<Sum>req \<leftarrow> settled_requests st. ?ev (cf_name req)) = settled file_rows st + b"
    using rows [of batch] rows [of "settled_requests st"] ch
    by (auto simp: requests_def settled_def mset_subset_eq_exists_conv)
  have "stored (pq X) contents st = settled file_rows st + ((\<Sum>req \<leftarrow> batch. request_rows file_rows req) + (a + b + d))"
    unfolding st ab by (simp add: ac_simps)
  then have "buffered (pq X) contents file_rows st = (\<Sum>req \<leftarrow> batch. request_rows file_rows req) + (a + b + d)"
    unfolding buffered_def by (simp only: add_diff_cancel_left')
  then show ?thesis by simp
qed

lemma commit_step_inv:
  assumes laws: "engine_laws X contents batch_rows rows file_rows cfg h tabs nss"
    and inv: "engine_inv dup X contents file_rows cfg tabs nss st" and ch: "channel st = batch @ rest"
    and idle: "dropping st = []"
  shows "\<exists>extra. engine_inv (dup + extra) X contents file_rows cfg tabs nss
        (commit_step X h cfg batch (st\<lparr>channel := rest\<rparr>)) \<and>
      set_mset extra \<subseteq> set_mset (buffered (pq X) contents file_rows st) \<and>
      committed file_rows tabs cfg st + extra \<subseteq>#
        committed file_rows tabs cfg (commit_step X h cfg batch (st\<lparr>channel := rest\<rparr>)) \<and>
      (truthful (handle_catalog h) tabs \<longrightarrow> extra = {#})"
proof -
  let ?t = "micewriter_table cfg" and ?R = "\<Sum>req \<leftarrow> batch. request_rows file_rows req"
  note old = engine_invD [OF inv]
  obtain ok w' where run: "commit_batch (hash_order X) h cfg batch (world st) = (ok, w')" by force
  define st' where "st' = commit_step X h cfg batch (st\<lparr>channel := rest\<rparr>)"
  have st': "st' = (if ok then st\<lparr>channel := rest, world := w', dropping := batch\<rparr>
      else st\<lparr>channel := rest, world := w', store := fold retain_frozen_cf (map cf_name batch) (store st)\<rparr>)"
    using run by (simp add: st'_def commit_step_def)
  have reqs: "\<forall>req \<in> set batch. request_ok (pq X) contents file_rows cfg (store st) req"
    using old(7) ch by (auto simp: requests_def)
  then have one: "\<forall>req \<in> set batch. keys_of (table_data_files req) \<subseteq> {?t}" by (auto simp: request_ok_def)
  have cl: "catalog_laws (handle_catalog h) tabs nss" "\<And>m. mset (hash_order X m) = mset m"
    using laws by (simp_all add: engine_laws_def)
  note wc = commit_batch_world [OF cl(1) old(2) cl(2) run]
  from wc(2) [of ?t] obtain c where c: "files_of tabs w' (analytics, ?t) = files_of tabs (world st) (analytics, ?t) @
      copies c (concat (map (\<lambda>req. files_for ?t (table_data_files req)) batch))" "ok \<longrightarrow> 0 < c"
    "truthful (handle_catalog h) tabs \<longrightarrow> c \<le> 1" by blast
  have com: "committed file_rows tabs cfg st' = committed file_rows tabs cfg st + repeat_mset c ?R"
    by (simp add: committed_def st' c(1) mset_copies batch_rows_sum [OF reqs] del: mset_map)
  define extra where "extra = (if ok then repeat_mset (c - 1) ?R else repeat_mset c ?R)"
  have "engine_inv (dup + extra) X contents file_rows cfg tabs nss st'"
  proof (cases ok)
    case True
    then obtain k where k: "c = Suc k" using c(2) by (cases c) auto
    have "committed file_rows tabs cfg st' + settled file_rows st + dup =
        committed file_rows tabs cfg st + settled file_rows st' + (dup + extra)"
      using True idle unfolding com by (simp add: st' settled_def settled_requests_def extra_def k repeat_mset_Suc ac_simps)
    then show ?thesis
      by (intro engine_inv_transfer [OF inv, where fresh = "[]"])
        (use old wc(1) True ch idle in \<open>auto simp: st' appends_ok_def tasks_ok_def place_defs\<close>)
  next
    case False
    have "committed file_rows tabs cfg st' + settled file_rows st + dup =
        committed file_rows tabs cfg st + settled file_rows st' + (dup + extra)"
      using False unfolding com by (simp add: st' settled_def settled_requests_def extra_def ac_simps)
    then show ?thesis
      by (intro engine_inv_transfer [OF inv, where fresh = "[]"])
        (use old wc(1) False ch idle in \<open>auto simp: st' appends_ok_def tasks_ok_def place_defs store_simps
          orphans.held_retain_all simp del: fold_map\<close>)
  qed
  moreover have "set_mset extra \<subseteq> set_mset (buffered (pq X) contents file_rows st)"
    using repeat_mset_elems [of _ ?R] set_mset_mono [OF channel_buffered [OF inv ch]]
    unfolding extra_def by (auto split: if_splits)
  moreover have "committed file_rows tabs cfg st + extra \<subseteq># committed file_rows tabs cfg st'"
    using c(2) unfolding com extra_def by (cases c) (auto simp: repeat_mset_Suc)
  moreover have "extra = {#}" if tr: "truthful (handle_catalog h) tabs"
  proof (cases ok)
    case True
    with c(2,3) tr have "c = 1" by auto
    with True show ?thesis by (simp add: extra_def)
  next
    case False
    from wc(3) [OF False tr one, of ?t] have "committed file_rows tabs cfg st' = committed file_rows tabs cfg st"
      by (simp add: committed_def st')
    with com False show ?thesis by (simp add: extra_def)
  qed
  ultimately show ?thesis unfolding st'_def by blast
qed

text \<open>A dropped family is known no more, and what it held beyond its request is lost.\<close>

lemma drop_step_inv:
  assumes laws: "rocksdb_laws (rocks X) contents"
    and inv: "engine_inv dup X contents file_rows cfg tabs nss st" and dr: "dropping st = req # rest"
  shows "engine_inv dup X contents file_rows cfg tabs nss (drop_step X contents file_rows req (st\<lparr>dropping := rest\<rparr>))"
proof -
  let ?n = "cf_name req" and ?e = "family_events (pq X) contents (store st) (cf_name req)"
  note old = engine_invD [OF inv]
  obtain r s' where run: "drop_frozen_cf (rocks X) ?n (store st) = (r, s')" by force
  define st' where "st' = drop_step X contents file_rows req (st\<lparr>dropping := rest\<rparr>)"
  have dist: "distinct (known st)" using old(3) by (simp add: families_ok_def)
  then have act: "?n \<noteq> active_cf (store st)" using dr by (auto simp: place_defs)
  note c = drop_frozen_cf_cases [OF laws old(1) act run]
  have out: "store st' = s'" "world st' = world st" "running st' = running st" "channel st' = channel st"
    "waiting st' = waiting st" "appends st' = appends st" "accepted st' = accepted st" "stranded st' = stranded st"
    "flushing st' = flushing st" "dropping st' = rest"
    "undropped st' = undropped st @ (if is_ok r then [] else [req])"
    "lost st' = lost st + (if is_ok r then ?e - request_rows file_rows req else {#})"
    using run by (simp_all add: st'_def drop_step_def split: sum.splits)
  have app: "appends_ok contents st'"
    using c by (intro appends_ok_shrink [OF _ old(4) _ out(6,1)]) auto
  have tsk: "tasks_ok cfg st'" using old(6) by (simp add: tasks_ok_def out)
  have "engine_inv dup X contents file_rows cfg tabs nss st'"
  proof (cases "is_ok r")
    case False
    with c show ?thesis
      by (intro engine_inv_transfer [OF inv, where fresh = "[]"])
        (use old app tsk dr in \<open>auto simp: out place_defs account_defs ac_simps\<close>)
  next
    case True
    have kn: "mset (known st) = add_mset ?n (mset (known st'))"
      using c True dr by (simp add: place_defs out)
    then have "mset (known st) = mset (?n # known st')" by simp
    from mset_eq_setD [OF this] mset_eq_imp_distinct_iff [OF this] dist
    have ks: "set (known st) = insert ?n (set (known st'))" and "distinct (?n # known st')" by simp_all
    then have fam: "families_ok contents st'"
      using old(3) c True by (auto simp: families_ok_def out)
    have same: "contents (db s') n = contents (db (store st)) n" if "n \<in> set (known st')" for n
      using that \<open>distinct (?n # known st')\<close> c True by auto
    have "(\<Sum>n \<in># mset (known st'). family_events (pq X) contents s' n) =
        (\<Sum>n \<in># mset (known st'). family_events (pq X) contents (store st) n)"
      using same by (intro arg_cong [where f = sum_mset] image_mset_cong family_events_cong) simp
    then have sto: "stored (pq X) contents st = stored (pq X) contents st' + ?e"
      unfolding stored_mset kn by (simp add: out)
    have set: "settled file_rows st = settled file_rows st' + request_rows file_rows req"
      using dr True by (simp add: settled_def settled_requests_def out ac_simps)
    have req: "request_rows file_rows req \<subseteq># ?e"
      using old(7) [of req] dr by (auto simp: requests_def settled_requests_def request_ok_def)
    then have "account_ok dup (pq X) contents file_rows tabs cfg st'"
      using old(8) sto set True
      by (auto simp: account_ok_def committed_def out mset_subset_eq_exists_conv ac_simps)
    moreover have "request_ok (pq X) contents file_rows cfg (store st') q" if "q \<in> set (requests st')" for q
      using old(7) [of q] that requests_known [OF that] same [of "cf_name q"] dr True
        request_ok_cong [of contents s' q "store st" "pq X" file_rows cfg]
      by (auto simp: requests_def settled_requests_def out)
    moreover have "keys_ok contents st'"
      using old(5) c True by (auto simp: keys_ok_def out split: if_splits)
    ultimately show ?thesis using fam app tsk c old(2) by (simp add: engine_inv_def out)
  qed
  then show ?thesis by (simp add: st'_def)
qed

lemma step_engine_inv:
  assumes laws: "engine_laws X contents batch_rows rows file_rows cfg h tabs nss"
    and inv: "engine_inv dup X contents file_rows cfg tabs nss st"
    and step: "step X contents file_rows cfg h st st'"
  shows "\<exists>extra. engine_inv (dup + extra) X contents file_rows cfg tabs nss st' \<and>
      set_mset extra \<subseteq> set_mset (buffered (pq X) contents file_rows st) \<and>
      (extra = {#} \<or> committed file_rows tabs cfg st + extra \<subseteq># committed file_rows tabs cfg st') \<and>
      (truthful (handle_catalog h) tabs \<longrightarrow> extra = {#})"
proof -
  have rl: "rocksdb_laws (rocks X) contents" using laws by (simp add: engine_laws_def)
  have flags: "engine_inv dup X contents file_rows cfg tabs nss (s\<lparr>main := p\<rparr>)"
    "engine_inv dup X contents file_rows cfg tabs nss (s\<lparr>grpc_running := b\<rparr>)"
    "engine_inv dup X contents file_rows cfg tabs nss (s\<lparr>loop_running := b\<rparr>)"
    if "engine_inv dup X contents file_rows cfg tabs nss s" for s p b
    using that
    by (simp_all add: engine_inv_def families_ok_def appends_ok_def keys_ok_def tasks_ok_def place_defs
        account_ok_def stored_def account_defs)
  have quiet: ?thesis if "engine_inv dup X contents file_rows cfg tabs nss st'"
    using that by (intro exI [of _ "{#}"]) simp
  from step show ?thesis
  proof (cases rule: step_elim)
    case (Append_Begin v)
    then show ?thesis using append_begin_inv [OF inv] by (intro quiet) simp
  next
    case (Append_Finish as n v bs)
    let ?st = "st\<lparr>appends := as @ bs\<rparr>"
    have "engine_inv dup X contents file_rows cfg tabs nss ?st"
      using take_append_inv [OF inv] Append_Finish by simp
    moreover have "active_cf_timestamp n \<noteq> None" "\<And>kvs. contents (db (store ?st)) n = Some kvs \<Longrightarrow>
        keys_below (counter (store ?st)) kvs"
      using engine_invD(4) [OF inv] Append_Finish by (auto simp: appends_ok_def)
    ultimately show ?thesis
      using append_finish_inv [OF rl, of dup file_rows cfg tabs nss ?st n v] Append_Finish by (intro quiet) simp
  next
    case (Flush_Begin wake now g)
    then show ?thesis using flush_begin_inv [OF laws inv] by (intro quiet) simp
  next
    case (Flush_End cfs)
    then show ?thesis using flush_end_inv [OF laws inv] by (intro quiet) simp
  next
    case (Acquire_Permit as t bs)
    have "engine_inv dup X contents file_rows cfg tabs nss (st\<lparr>waiting := as @ bs, running := running st @ [t]\<rparr>)"
      by (rule engine_inv_transfer [OF inv, where fresh = "[]"])
        (use engine_invD [OF inv] Acquire_Permit in \<open>auto simp: appends_ok_def tasks_ok_def place_defs account_defs\<close>)
    with Acquire_Permit show ?thesis by (intro quiet) simp
  next
    case (Finish_Task as t bs uuid)
    then show ?thesis using finish_task_inv [OF laws inv] by (intro quiet) simp
  next
    case (Commit_Round batch rest)
    then show ?thesis using commit_step_inv [OF laws inv] by blast
  next
    case (Drop_Family req rest)
    then show ?thesis using drop_step_inv [OF rl inv] by (intro quiet) simp
  next
    case (Emergency_Flush now g)
    then show ?thesis using flush_begin_inv [OF laws inv] flags by (intro quiet) simp
  qed (use inv flags in \<open>intro quiet, simp\<close>)+
qed

section \<open>Runs\<close>

text \<open>
  A run starts in the state of \<open>startup\<close>, with the events found in the table and in the store
  counted as accepted.
\<close>

definition note_found ::
    "('w, 'e, 'b, 's, 'io, 'f) parquet \<Rightarrow> 'd contents \<Rightarrow> ('f \<Rightarrow> 'e list) \<Rightarrow> ('c, 'f) snapshots \<Rightarrow> config \<Rightarrow>
     ('d, 'c, 's, 'io, 'f, 'e) engine \<Rightarrow> ('d, 'c, 's, 'io, 'f, 'e) engine" where
  "note_found P contents file_rows tabs cfg st =
     st\<lparr>accepted := committed file_rows tabs cfg st + stored P contents st\<rparr>"

definition booted ::
    "('p, 'd, 'w, 'e, 'b, 's, 'io, 'f, 'c, 't) externals \<Rightarrow> 'd contents \<Rightarrow> ('f \<Rightarrow> 'e list) \<Rightarrow> config \<Rightarrow>
     ('c, 'f) snapshots \<Rightarrow> 'p \<Rightarrow> ('d, 'c, 's, 'io, 'f, 'e) engine \<Rightarrow> bool" where
  "booted X contents file_rows cfg tabs path st \<longleftrightarrow>
     (\<exists>g s c. new (rocks X) g path (cfg_flush_size_bytes cfg) (cfg_flush_size_jitter_bytes cfg)
          (rocksdb_sync_writes cfg) (cfg_write_buffer_size cfg) = Ok s \<and>
        st = note_found (pq X) contents file_rows tabs cfg (boot s c))"

text \<open>The database at the path is one the engine wrote, or is new.\<close>

definition path_laws ::
    "('p, 'd, 'w, 'e, 'b, 's, 'io, 'f, 'c, 't) externals \<Rightarrow> 'd contents \<Rightarrow> 'p \<Rightarrow> (string \<Rightarrow> kv list option) \<Rightarrow> bool" where
  "path_laws X contents path disk \<longleftrightarrow>
     open_law (rocks X) contents path disk \<and> engine_path (rocks X) path disk"

text \<open>
  No append in flight holds the name of a frozen family, and the scans of the running tasks
  yield everything.
\<close>

definition calm ::
    "('p, 'd, 'w, 'e, 'b, 's, 'io, 'f, 'c, 't) externals \<Rightarrow> 'd contents \<Rightarrow> ('d, 'c, 's, 'io, 'f, 'e) engine \<Rightarrow> bool" where
  "calm X contents st \<longleftrightarrow>
     (\<forall>(n, v) \<in> set (appends st). n = active_cf (store st)) \<and>
     (\<forall>t \<in> set (running st). \<forall>kvs. contents (db (store st)) (task_cf t) = Some kvs \<longrightarrow>
        iterator_start (rocks X) (db (store st)) (task_cf t) = map Inr kvs)"

text \<open>Nothing is lost, and the requests have all events of their families.\<close>

definition no_loss ::
    "('p, 'd, 'w, 'e, 'b, 's, 'io, 'f, 'c, 't) externals \<Rightarrow> 'd contents \<Rightarrow> ('f \<Rightarrow> 'e list) \<Rightarrow>
     ('d, 'c, 's, 'io, 'f, 'e) engine \<Rightarrow> bool" where
  "no_loss X contents file_rows st \<longleftrightarrow>
     lost st = {#} \<and>
     (\<forall>req \<in> set (requests st).
        request_rows file_rows req = family_events (pq X) contents (store st) (cf_name req))"

lemma booted_inv:
  assumes laws: "engine_laws X contents batch_rows rows file_rows cfg h tabs nss"
    and path: "path_laws X contents path disk" and boot: "booted X contents file_rows cfg tabs path st"
  shows "engine_inv {#} X contents file_rows cfg tabs nss st"
proof -
  obtain g s c where new: "new (rocks X) g path (cfg_flush_size_bytes cfg) (cfg_flush_size_jitter_bytes cfg)
      (rocksdb_sync_writes cfg) (cfg_write_buffer_size cfg) = Ok s"
    and st: "st = note_found (pq X) contents file_rows tabs cfg (boot s c)"
    using boot by (auto simp: booted_def)
  have "rocksdb_laws (rocks X) contents" "open_law (rocks X) contents path disk" "engine_path (rocks X) path disk"
    using laws path by (simp_all add: engine_laws_def path_laws_def)
  note opened = new_families(1) [OF this new] new_engine_families [OF this new] new_store_inv [OF this new]
  have fields: "known st = active_cf s # orphaned_cfs s" "store st = s" "requests st = []" "settled_requests st = []"
    by (simp_all add: st note_found_def boot_def place_defs)
  have "families_ok contents st" using opened(1,2) by (simp add: families_ok_def fields)
  moreover have "keys_ok contents st" using opened(4) by (simp add: keys_ok_def fields)
  moreover have "account_ok {#} (pq X) contents file_rows tabs cfg st"
    by (simp add: st note_found_def boot_def account_ok_def account_defs stored_def place_defs)
  ultimately show ?thesis
    using opened(5) by (simp add: engine_inv_def fields)
      (simp add: st note_found_def boot_def cache_inv_def appends_ok_def tasks_ok_def)
qed

lemma booted_no_loss:
  "booted X contents file_rows cfg tabs path st \<Longrightarrow> no_loss X contents file_rows st"
  by (auto simp: booted_def note_found_def boot_def no_loss_def requests_def settled_requests_def)

text \<open>A step that leaves the families of the requests alone keeps them complete.\<close>

lemma no_loss_transfer:
  assumes "no_loss X contents file_rows st" and "lost st' = lost st"
    and "\<And>req. req \<in> set (requests st') \<Longrightarrow>
      (req \<in> set (requests st) \<and> contents (db (store st')) (cf_name req) = contents (db (store st)) (cf_name req)) \<or>
      request_rows file_rows req = family_events (pq X) contents (store st') (cf_name req)"
  shows "no_loss X contents file_rows st'"
  unfolding no_loss_def
proof (intro conjI ballI)
  show "lost st' = {#}" using assms(1,2) by (simp add: no_loss_def)
  fix req assume "req \<in> set (requests st')"
  from assms(3) [OF this] show "request_rows file_rows req = family_events (pq X) contents (store st') (cf_name req)"
    using assms(1) family_events_cong [of contents "store st'" "cf_name req" "store st" "pq X"]
    by (auto simp: no_loss_def)
qed

lemma flush_begin_no_loss:
  assumes "rocksdb_laws (rocks X) contents" and "engine_inv dup X contents file_rows cfg tabs nss st"
    and "no_loss X contents file_rows st"
  shows "no_loss X contents file_rows (flush_begin X g now st)"
proof (rule no_loss_transfer [OF assms(3)])
  fix req assume "req \<in> set (requests (flush_begin X g now st))"
  then have "req \<in> set (requests st)" by (simp add: requests_def settled_requests_def flush_begin_fields(2-))
  with flush_begin_store [OF assms(1,2) requests_known] show
    "(req \<in> set (requests st) \<and> contents (db (store (flush_begin X g now st))) (cf_name req) =
        contents (db (store st)) (cf_name req)) \<or>
     request_rows file_rows req = family_events (pq X) contents (store (flush_begin X g now st)) (cf_name req)" by blast
qed (simp add: flush_begin_fields(2-))

lemma flush_end_no_loss:
  "flush_end X cfg cfs st = Some st' \<Longrightarrow> no_loss X contents file_rows st \<Longrightarrow> no_loss X contents file_rows st'"
  by (erule flush_end_cases) (simp_all add: no_loss_def requests_def settled_requests_def)

lemma append_finish_no_loss:
  assumes laws: "rocksdb_laws (rocks X) contents" and inv: "engine_inv dup X contents file_rows cfg tabs nss st"
    and nl: "no_loss X contents file_rows st" and n: "n = active_cf (store st)"
    and room: "unat (counter (store st)) + 1 < 2 ^ 64"
  shows "no_loss X contents file_rows (append_finish X n v st)"
proof -
  obtain r s' where run: "append_to_cf (rocks X) n [v] (store st) = (r, s')" by force
  have sinv: "store_inv contents (store st)" using inv by (simp add: engine_inv_def)
  have "unat (counter (store st)) + length [v] < 2 ^ 64" using room by simp
  from append_to_cf_cases [OF laws sinv this _ run] sinv n
  have "m \<noteq> n \<Longrightarrow> contents (db s') m = contents (db (store st)) m" for m
    by (cases r) (auto simp: store_inv_def)
  moreover have "cf_name req \<noteq> n" if "req \<in> set (requests st)" for req
    using imageI [OF that, of cf_name] requests_distinct(2) [OF inv] n by auto
  moreover have "store (append_finish X n v st) = s'" "requests (append_finish X n v st) = requests st"
    "lost (append_finish X n v st) = lost st"
    using run by (simp_all add: append_finish_def requests_def settled_requests_def split: sum.splits)
  ultimately show ?thesis by (intro no_loss_transfer [OF nl]) auto
qed

lemma finish_task_no_loss:
  assumes laws: "engine_laws X contents batch_rows rows file_rows cfg h tabs nss"
    and inv: "engine_inv dup X contents file_rows cfg tabs nss st" and calm: "calm X contents st"
    and nl: "no_loss X contents file_rows st" and rn: "running st = as @ t # bs"
  shows "no_loss X contents file_rows (finish_task X uuid t (st\<lparr>running := as @ bs\<rparr>))"
proof -
  obtain req s' m' where run: "run_flush_task (rocks X) (pq X) uuid (main st \<noteq> Exited) t (store st)
      (mets (world st)) = (req, s', m')" by (metis prod_cases3)
  define st' where "st' = finish_task X uuid t (st\<lparr>running := as @ bs\<rparr>)"
  have out: "store st' = s'" "set (requests st') = set (requests st) \<union> set_option req" "lost st' = lost st"
    using run by (auto simp: st'_def finish_task_def requests_def settled_requests_def split: option.splits)
  from run have "no_loss X contents file_rows st'"
  proof (cases rule: run_flush_task_cases)
    case (sent files)
    have "task_cf t \<in> set (known st)" using rn by (simp add: place_defs)
    then obtain kvs where kvs: "contents (db (store st)) (task_cf t) = Some kvs" using known_exists [OF inv] by blast
    then have "iterator_start (rocks X) (db (store st)) (task_cf t) = map Inr kvs"
      using calm rn by (simp add: calm_def)
    from compiled_rows(2) [OF laws kvs sent(3) this] sent show ?thesis
      by (intro no_loss_transfer [OF nl]) (auto simp: out request_rows_def)
  next
    case kept
    then show ?thesis by (intro no_loss_transfer [OF nl]) (auto simp: out store_simps)
  qed
  then show ?thesis by (simp add: st'_def)
qed

lemma commit_step_no_loss:
  assumes nl: "no_loss X contents file_rows st" and ch: "channel st = batch @ rest"
  shows "no_loss X contents file_rows (commit_step X h cfg batch (st\<lparr>channel := rest\<rparr>))"
proof -
  obtain ok w' where "commit_batch (hash_order X) h cfg batch (world st) = (ok, w')" by force
  then show ?thesis
    using ch by (intro no_loss_transfer [OF nl])
      (cases ok; auto simp: commit_step_def requests_def settled_requests_def store_simps simp del: fold_map)+
qed

lemma drop_step_no_loss:
  assumes laws: "rocksdb_laws (rocks X) contents" and inv: "engine_inv dup X contents file_rows cfg tabs nss st"
    and nl: "no_loss X contents file_rows st" and dr: "dropping st = req # rest"
  shows "no_loss X contents file_rows (drop_step X contents file_rows req (st\<lparr>dropping := rest\<rparr>))"
proof -
  obtain r s' where run: "drop_frozen_cf (rocks X) (cf_name req) (store st) = (r, s')" by force
  define st' where "st' = drop_step X contents file_rows req (st\<lparr>dropping := rest\<rparr>)"
  have dist: "distinct (known st)" using engine_invD(3) [OF inv] by (simp add: families_ok_def)
  then have act: "cf_name req \<noteq> active_cf (store st)" using dr by (auto simp: place_defs)
  note c = drop_frozen_cf_cases [OF laws engine_invD(1) [OF inv] act run]
  have "request_rows file_rows req = family_events (pq X) contents (store st) (cf_name req)"
    using nl dr by (simp add: no_loss_def requests_def settled_requests_def)
  then have out: "store st' = s'" "lost st' = lost st"
    "set (requests st') = set (channel st) \<union> set rest \<union> set (undropped st) \<union> (if is_ok r then {} else {req})"
    using run by (auto simp: st'_def drop_step_def requests_def settled_requests_def split: sum.splits)
  have others: "cf_name req \<notin> cf_name ` (set (channel st) \<union> set rest \<union> set (undropped st))"
    using requests_distinct(1) [OF inv] dr by (auto simp: requests_def settled_requests_def)
  have "cf_name q \<noteq> cf_name req" if "q \<in> set (requests st')" "is_ok r" for q
  proof -
    have "q \<in> set (channel st) \<union> set rest \<union> set (undropped st)" using that by (simp add: out)
    then have "cf_name q \<in> cf_name ` (set (channel st) \<union> set rest \<union> set (undropped st))" by (rule imageI)
    with others show ?thesis by auto
  qed
  moreover have "set (requests st) = insert req (set (channel st) \<union> set rest \<union> set (undropped st))"
    using dr by (auto simp: requests_def settled_requests_def)
  ultimately have "no_loss X contents file_rows st'"
    using c by (intro no_loss_transfer [OF nl]) (auto simp: out split: if_splits)
  then show ?thesis by (simp add: st'_def)
qed

lemma step_no_loss:
  assumes laws: "engine_laws X contents batch_rows rows file_rows cfg h tabs nss"
    and inv: "engine_inv dup X contents file_rows cfg tabs nss st" and calm: "calm X contents st"
    and nl: "no_loss X contents file_rows st" and step: "step X contents file_rows cfg h st st'"
  shows "no_loss X contents file_rows st'"
proof -
  have rl: "rocksdb_laws (rocks X) contents" using laws by (simp add: engine_laws_def)
  from step show ?thesis
  proof (cases rule: step_elim)
    case (Append_Begin v)
    with nl show ?thesis by (simp add: no_loss_def append_begin_def requests_def settled_requests_def)
  next
    case (Append_Finish as n v bs)
    let ?st = "st\<lparr>appends := as @ bs\<rparr>"
    have "no_loss X contents file_rows ?st" using nl by (simp add: no_loss_def requests_def settled_requests_def)
    moreover have "n = active_cf (store ?st)" using calm Append_Finish by (simp add: calm_def)
    ultimately show ?thesis
      using append_finish_no_loss [OF rl take_append_inv [OF inv]] Append_Finish by simp
  next
    case (Flush_Begin wake now g)
    then show ?thesis using flush_begin_no_loss [OF rl inv nl] by simp
  next
    case (Flush_End cfs)
    then show ?thesis using flush_end_no_loss nl by blast
  next
    case (Finish_Task as t bs uuid)
    then show ?thesis using finish_task_no_loss [OF laws inv calm nl] by simp
  next
    case (Commit_Round batch rest)
    then show ?thesis using commit_step_no_loss [OF nl] by simp
  next
    case (Drop_Family req rest)
    then show ?thesis using drop_step_no_loss [OF rl inv nl] by simp
  next
    case (Emergency_Flush now g)
    then show ?thesis using flush_begin_no_loss [OF rl inv nl] by (simp add: no_loss_def requests_def settled_requests_def)
  qed (use nl in \<open>simp_all add: no_loss_def requests_def settled_requests_def\<close>)
qed

text \<open>
  The invariant of a run: the account holds with some events committed more often than accepted, and
  with none if the catalog is truthful.
\<close>

definition engine_ok ::
    "('p, 'd, 'w, 'e, 'b, 's, 'io, 'f, 'c, 't) externals \<Rightarrow> 'd contents \<Rightarrow> ('f \<Rightarrow> 'e list) \<Rightarrow> config \<Rightarrow>
     ('c, 't, 's, 'io, 'f) catalog catalog_handle \<Rightarrow> ('c, 'f) snapshots \<Rightarrow> 'c namespaces \<Rightarrow>
     ('d, 'c, 's, 'io, 'f, 'e) engine \<Rightarrow> bool" where
  "engine_ok X contents file_rows cfg h tabs nss st \<longleftrightarrow>
     (\<exists>dup. engine_inv dup X contents file_rows cfg tabs nss st \<and>
        (truthful (handle_catalog h) tabs \<longrightarrow> dup = {#}))"

lemma booted_ok:
  "engine_laws X contents batch_rows rows file_rows cfg h tabs nss \<Longrightarrow> path_laws X contents path disk \<Longrightarrow>
   booted X contents file_rows cfg tabs path st \<Longrightarrow> engine_ok X contents file_rows cfg h tabs nss st"
  using booted_inv by (fastforce simp: engine_ok_def)

lemma step_engine_ok:
  assumes laws: "engine_laws X contents batch_rows rows file_rows cfg h tabs nss"
    and ok: "engine_ok X contents file_rows cfg h tabs nss st" and step: "step X contents file_rows cfg h st st'"
  shows "engine_ok X contents file_rows cfg h tabs nss st'"
proof -
  from ok obtain dup where dup: "engine_inv dup X contents file_rows cfg tabs nss st"
    "truthful (handle_catalog h) tabs \<longrightarrow> dup = {#}" by (auto simp: engine_ok_def)
  from step_engine_inv [OF laws dup(1) step] obtain extra where
    "engine_inv (dup + extra) X contents file_rows cfg tabs nss st'"
    "truthful (handle_catalog h) tabs \<longrightarrow> extra = {#}" by blast
  with dup(2) show ?thesis unfolding engine_ok_def by (intro exI [of _ "dup + extra"]) simp
qed

lemma step_ok_no_loss:
  assumes laws: "engine_laws X contents batch_rows rows file_rows cfg h tabs nss"
    and ok: "engine_ok X contents file_rows cfg h tabs nss st" and "calm X contents st"
    and "no_loss X contents file_rows st" and "step X contents file_rows cfg h st st'"
  shows "no_loss X contents file_rows st'"
  using ok step_no_loss [OF laws _ assms(3-5)] by (auto simp: engine_ok_def)

lemma engine_ok_account:
  assumes "engine_ok X contents file_rows cfg h tabs nss st"
  shows "accepted st \<subseteq># committed file_rows tabs cfg st + buffered (pq X) contents file_rows st + lost st"
    and "truthful (handle_catalog h) tabs \<Longrightarrow>
      accepted st = committed file_rows tabs cfg st + buffered (pq X) contents file_rows st + lost st"
proof -
  from assms obtain dup where dup: "engine_inv dup X contents file_rows cfg tabs nss st"
    "truthful (handle_catalog h) tabs \<longrightarrow> dup = {#}" by (auto simp: engine_ok_def)
  show "accepted st \<subseteq># committed file_rows tabs cfg st + buffered (pq X) contents file_rows st + lost st"
    unfolding buffered_account [OF dup(1), symmetric] by simp
  show "accepted st = committed file_rows tabs cfg st + buffered (pq X) contents file_rows st + lost st"
    if "truthful (handle_catalog h) tabs"
    unfolding buffered_account [OF dup(1), symmetric] using that dup(2) by simp
qed

interpretation engine_run: guarded_system
  "booted X contents file_rows cfg tabs path"
  "step X contents file_rows cfg h"
  "\<lambda>st. engine_laws X contents batch_rows rows file_rows cfg h tabs nss \<and> path_laws X contents path disk \<longrightarrow>
     engine_ok X contents file_rows cfg h tabs nss st"
  "calm X contents"
  "\<lambda>st. engine_laws X contents batch_rows rows file_rows cfg h tabs nss \<and> path_laws X contents path disk \<longrightarrow>
     no_loss X contents file_rows st"
  for X contents file_rows cfg tabs path h batch_rows rows nss disk
  by unfold_locales (blast intro: booted_ok step_engine_ok booted_no_loss step_ok_no_loss)+

text \<open>In a calm run only the families that are still to be committed matter.\<close>

lemma no_loss_buffered:
  assumes "no_loss X contents file_rows st"
  shows "buffered (pq X) contents file_rows st = (\<Sum>n \<leftarrow> tracked st. family_events (pq X) contents (store st) n)"
proof -
  have "\<forall>req \<in> set (settled_requests st).
      request_rows file_rows req = family_events (pq X) contents (store st) (cf_name req)"
    using assms by (simp add: no_loss_def requests_def)
  then have "settled file_rows st = (\<Sum>req \<leftarrow> settled_requests st. family_events (pq X) contents (store st) (cf_name req))"
    unfolding settled_def by (intro arg_cong [where f = sum_list] map_cong) simp_all
  then show ?thesis by (simp add: buffered_def stored_def known_def o_def)
qed

text \<open>The committer ends only when no task and no request is left.\<close>

definition exit_ok :: "('d, 'c, 's, 'io, 'f, 'e) engine \<Rightarrow> bool" where
  "exit_ok st \<longleftrightarrow>
     (\<not> loop_running st \<and> main st \<in> {Serving, Stopping} \<longrightarrow> flushing st = None) \<and>
     (main st \<in> {Flushing, Draining, Exited} \<longrightarrow> \<not> loop_running st) \<and>
     (main st \<in> {Draining, Exited} \<longrightarrow> flushing st = None) \<and>
     (main st = Exited \<longrightarrow> waiting st = [] \<and> running st = [] \<and> channel st = [] \<and> dropping st = [])"

lemma flush_end_frame:
  "flush_end X cfg cfs st = Some st' \<Longrightarrow>
   main st' = main st \<and> loop_running st' = loop_running st \<and> grpc_running st' = grpc_running st \<and>
   running st' = running st \<and> channel st' = channel st \<and> dropping st' = dropping st \<and> flushing st' = None"
  by (erule flush_end_cases) simp_all

lemma booted_exit_ok: "booted X contents file_rows cfg tabs path st \<Longrightarrow> exit_ok st"
  by (auto simp: booted_def note_found_def boot_def exit_ok_def)

lemma step_exit_ok: "exit_ok st \<Longrightarrow> step X contents file_rows cfg h st st' \<Longrightarrow> exit_ok st'"
  by (erule step_elim)
    (auto simp: exit_ok_def append_begin_def append_finish_def finish_task_def commit_step_def drop_step_def
      flush_begin_fields(2-) dest!: flush_end_frame split: prod.splits sum.splits)

interpretation engine_exit: invariant_system
  "booted X contents file_rows cfg tabs path" "step X contents file_rows cfg h" exit_ok
  for X contents file_rows cfg tabs path h
  by unfold_locales (blast intro: booted_exit_ok step_exit_ok)+

text \<open>Without a permit no task runs, so no request reaches the committer.\<close>

definition blocked :: "config \<Rightarrow> ('d, 'c, 's, 'io, 'f, 'e) engine \<Rightarrow> bool" where
  "blocked cfg st \<longleftrightarrow> (unat (concurrent_cf_flushes cfg) = 0 \<longrightarrow> running st = [] \<and> channel st = [] \<and> dropping st = [])"

lemma booted_blocked: "booted X contents file_rows cfg tabs path st \<Longrightarrow> blocked cfg st"
  by (auto simp: booted_def note_found_def boot_def blocked_def)

lemma step_blocked: "blocked cfg st \<Longrightarrow> step X contents file_rows cfg h st st' \<Longrightarrow> blocked cfg st'"
  by (erule step_elim)
    (auto simp: blocked_def append_begin_def append_finish_def finish_task_def commit_step_def drop_step_def
      flush_begin_fields(2-) dest!: flush_end_frame split: prod.splits sum.splits)

interpretation engine_blocked: invariant_system
  "booted X contents file_rows cfg tabs path" "step X contents file_rows cfg h" "blocked cfg"
  for X contents file_rows cfg tabs path h
  by unfold_locales (blast intro: booted_blocked step_blocked)+

lemma startup_booted:
  assumes "startup X J fs par env g at_path register registry c = Some (Ok (cfg, h, st0))"
  shows "booted X contents file_rows cfg tabs (at_path (rocksdb_path cfg))
    (note_found (pq X) contents file_rows tabs cfg st0)"
  using assms by (auto simp: startup_def booted_def split: sum.splits option.splits if_splits)

lemma run_from_startup:
  assumes "startup X J fs par env g at_path register registry c = Some (Ok (cfg, h, st0))"
    and "reach (\<lambda>s. s = note_found (pq X) contents file_rows tabs cfg st0) R st"
  shows "reach (booted X contents file_rows cfg tabs (at_path (rocksdb_path cfg))) R st"
  using assms(2) by (rule reach_mono) (use startup_booted [OF assms(1)] in auto)

end
