(* ===== verification/Engine_Demo.thy ===== *)
theory Engine_Demo
  imports Engine_Invariant
begin

text \<open>
  Concrete runs of the engine on the in-memory database, writer and catalog: the run in which a
  late append is lost, a calm append, and a calm run to the exit.
\<close>

section \<open>A concrete run\<close>

text \<open>
  The engine on the in-memory database, writer and catalog, started on an empty directory. An
  append reads the name of the active family; a flush cycle freezes the family, its pipeline
  finds it empty; then the append writes to it and is acknowledged; the committer drops it.
\<close>

type_synonym demo_catalog =
  "(bytes list mem_catalog_state, table_ident, nested_field list, unit, bytes list) catalog"

type_synonym demo_engine = "(mem, bytes list mem_catalog_state, nested_field list, unit, bytes list, bytes) engine"

definition demo_externals ::
    "((string \<times> kv list) list, mem, bytes list, bytes, bytes list, nested_field list, unit, bytes list,
      bytes list mem_catalog_state, table_ident) externals" where
  "demo_externals = \<lparr> rocks = mem_db, pq = mem_parquet, rest_builder = mem_load,
     glue_builder = mem_load, hash_order = (\<lambda>m. m) \<rparr>"

definition demo_startup ::
    "(config \<times> demo_catalog catalog_handle \<times> demo_engine) result option" where
  "demo_startup = startup demo_externals sample_json sample_fs (Some 8) sample_env (\<lambda>hi. hi) (\<lambda>p. [])
     (\<lambda>n r. Ok (n # r)) [] (cat (mem_world 0))"

lemma demo_handle:
  assumes "demo_startup = Some (Ok (cfg, h, st0))"
  shows "handle_catalog h = mem_catalog"
    and "build_catalog mem_load mem_load cfg = Some (Ok h') \<Longrightarrow> handle_catalog (h' :: demo_catalog catalog_handle) = mem_catalog"
proof -
  show loaded: "handle_catalog h' = mem_catalog" if "build_catalog mem_load mem_load cfg = Some (Ok h')"
    for h' :: "demo_catalog catalog_handle"
    using that by (auto simp: build_catalog_defs split: catalog_type.splits option.splits)
  then show "handle_catalog h = mem_catalog"
    using assms by (auto simp: demo_startup_def startup_def demo_externals_def
        split: sum.splits option.splits if_splits)
qed

lemma demo_laws:
  assumes "demo_startup = Some (Ok (cfg, h, st0))"
  shows "engine_laws demo_externals (\<lambda>d. d) (\<lambda>b. b) (\<lambda>w. w) (\<lambda>f. f) cfg h mem_tables mem_namespaces"
  using demo_handle [OF assms] mem_db_laws mem_parquet_laws mem_catalog_laws
  by (auto simp: engine_laws_def demo_externals_def)

lemma demo_truthful: "demo_startup = Some (Ok (cfg, h, st0)) \<Longrightarrow> truthful (handle_catalog h) mem_tables"
  by (simp add: demo_handle mem_catalog_truthful)

lemma demo_path_ok: "path_laws demo_externals (\<lambda>d. d) [] Map.empty"
  by (auto simp: path_laws_def demo_externals_def open_law_def engine_path_def mem_db_def mem_open_def)

lemma demo_startup_ok:
  "\<exists>cfg h s. demo_startup = Some (Ok (cfg, h, boot s (cat (mem_world 0)))) \<and>
     unat (concurrent_cf_flushes cfg) = 2 \<and>
     db s = mem_open [] [(''active'', make_cf_opts (cfg_write_buffer_size cfg))] \<and>
     active_cf s = ''active'' \<and> orphaned_cfs s = [] \<and> counter s = 1 \<and> store_inv (\<lambda>d. d) s \<and>
     build_catalog mem_load mem_load cfg = Some (Ok h)"
proof -
  obtain cfg where cfg: "from_env sample_json sample_fs (Some 8) sample_env = Ok cfg"
    and ct: "catalog_type cfg = Nessie" and two: "concurrent_cf_flushes cfg = 2" using sample_config by blast
  obtain s where new: "new mem_db (\<lambda>hi. hi) [] (cfg_flush_size_bytes cfg) (cfg_flush_size_jitter_bytes cfg)
      (rocksdb_sync_writes cfg) (cfg_write_buffer_size cfg) = Ok s"
    by (simp add: new_def mem_db_def split_beta Let_def)
  have names: "opened_cfs mem_db [] = [''active'']" by (simp add: opened_cfs_def mem_db_def INITIAL_CF_def)
  then have "select_cfs (opened_cfs mem_db []) = (''active'', [])"
    by (simp add: select_cfs_def cf_candidates_def active_cf_timestamp_demo)
  note fields = new_fields [OF new this]
  have inv: "store_inv (\<lambda>d. d) s"
    using demo_path_ok by (intro new_store_inv [OF mem_db_laws _ _ new]) (auto simp: path_laws_def demo_externals_def)
  have db: "db s = mem_open [] [(''active'', make_cf_opts (cfg_write_buffer_size cfg))]"
    using fields(1) by (simp add: names) (simp add: mem_db_def)
  then have "counter s = 1"
    using fields(4) by (simp add: max_key_def mem_db_def mem_open_def)
  moreover obtain h :: "demo_catalog catalog_handle" where "build_catalog mem_load mem_load cfg = Some (Ok h)"
    using from_env_catalog(2) [OF cfg ct] ct
    by (auto simp: build_catalog_defs nessie_props_def split: option.splits)
  moreover have "register_custom_metrics (\<lambda>n r. Ok (n # r)) [] \<noteq> None"
    by (simp add: register_custom_metrics_def metric_names_def)
  ultimately show ?thesis
    using cfg new db fields(2,3) two inv
    by (auto simp: demo_startup_def startup_def demo_externals_def MAX_PERMITS_def)
qed

lemma mem_parquet_simps:
  "build_writer mem_parquet compr rg loc uuid schema target io = Ok []"
  "close_writer mem_parquet w = Ok (if w = [] then [] else [w])"
  "from_reader mem_parquet v = (if v = [] then Err [''unexpected end of file''] else Ok v)"
  by (simp_all add: mem_parquet_def)

lemma mem_write_chunks: "write_chunks mem_parquet sch cs w = Ok (w @ concat cs)"
  by (induction cs arbitrary: w) (simp_all add: flush_events_to_writer_def mem_parquet_def)

lemma mem_compile_empty:
  assumes "db s n = Some []"
  shows "\<exists>m'. compile_cf_pipeline mem_db mem_parquet uuid s n target compr ctx sch m = (Ok [], m')"
proof -
  obtain io loc schema where ctx: "ctx = (io, loc, schema)" using prod_cases3 by blast
  have "iterator_start mem_db (db s) n = []" "cf_handle mem_db (db s) n"
    using assms by (simp_all add: mem_db_def)
  then show ?thesis
    by (simp add: ctx compile_cf_pipeline_chunks mem_write_chunks mem_parquet_simps)
qed

lemma mem_do_flush:
  fixes h :: "('f mem_catalog_state, table_ident, nested_field list, unit, 'f) catalog catalog_handle"
  assumes "build_catalog mem_load mem_load cfg = Some (Ok h)" and "db s (rotated_cf_name now) = None"
  shows "\<exists>tasks s' w'. do_flush mem_db g mem_load mem_load now cfg s
    (mem_world k :: 'f mem_catalog_state world) = (Some (Ok tasks), s', w')"
proof -
  have h: "get_table_write_context h = get_table_write_context (Glue_Handle mem_catalog)"
    using assms(1) by (auto simp: build_catalog_defs get_table_write_context_def fun_eq_iff
        split: catalog_type.splits option.splits)
  obtain ctx w where ctx: "get_table_write_context h (micewriter_table cfg) analytics (field_defs cfg)
      (mem_world k) = (Ok ctx, w)" unfolding h using mem_write_context by blast
  obtain f s2 where rot: "rotate mem_db g now (s\<lparr>orphaned_cfs := []\<rparr>) = (Ok f, s2)"
    using assms(2) by (simp add: rotate_def mem_db_def Let_def)
  show ?thesis
    using assms(1) ctx rot by (simp add: do_flush_def freeze_cfs_def spawn_tasks_def get_orphaned_cfs_def Let_def)
qed

text \<open>A flush cycle on its own is its two steps.\<close>

lemma flush_cycle_steps:
  assumes "do_flush (rocks X) g (rest_builder X) (glue_builder X) now cfg (store st) (world st) =
      (Some (Ok tasks), s', w')"
    and "flushing st = None"
  shows "\<exists>cfs. flush_begin X g now st = st\<lparr>store := s', flushing := Some cfs\<rparr> \<and>
    flush_end X cfg cfs (st\<lparr>store := s', flushing := Some cfs\<rparr>) =
      Some (st\<lparr>store := s', world := w', waiting := waiting st @ tasks\<rparr>)"
  using do_flush_parts [OF assms(1)] assms(2)
  by (auto simp: flush_begin_def flush_end_def)

lemma flush_end_main: "flush_end X cfg cfs (st\<lparr>main := p\<rparr>) = map_option (\<lambda>s. s\<lparr>main := p\<rparr>) (flush_end X cfg cfs st)"
  by (simp add: flush_end_def split: prod.splits option.splits sum.splits)

lemma mem_append:
  assumes "db s n = Some []" and "counter s = 1"
  shows "\<exists>full s'. append_to_cf mem_db n [v] s = (Ok full, s') \<and> db s' = (db s)(n \<mapsto> [(to_be_bytes 1, v)]) \<and>
    active_cf s' = active_cf s \<and> orphaned_cfs s' = orphaned_cfs s"
  using assms by (simp add: append_to_cf_def mem_db_def Let_def)

lemma empty_commit:
  "commit_batch (\<lambda>m. m) h cfg [\<lparr> cf_name = n, table_data_files = [(t, [])] \<rparr>] w = (True, w)"
  by (simp add: commit_batch_def collect_data_files_def extend_entry_def)

lemma mem_drop: "db s n = Some kvs \<Longrightarrow> \<exists>s'. drop_frozen_cf mem_db n s = (Ok (), s')"
  by (simp add: drop_frozen_cf_def mem_db_def Let_def split: option.splits)

lemma race_frozen:
  "\<exists>cfg h st0 st t. demo_startup = Some (Ok (cfg, h, st0)) \<and>
     reach (\<lambda>s. s = note_found mem_parquet (\<lambda>d. d) (\<lambda>f. f) mem_tables cfg st0)
       (step demo_externals (\<lambda>d. d) (\<lambda>f. f) cfg h) st \<and>
     running st = [t] \<and> task_cf t = ''active'' \<and> channel st = [] \<and> waiting st = [] \<and>
     appends st = [(''active'', [5])] \<and> db (store st) ''active'' = Some [] \<and> counter (store st) = 1 \<and>
     main st = Serving \<and> lost st = {#} \<and> accepted st = {#} \<and> dropping st = []"
proof -
  let ?X = demo_externals and ?c = "\<lambda>d :: mem. d" and ?f = "\<lambda>f :: bytes list. f"
  have X: "rocks ?X = mem_db" "rest_builder ?X = mem_load" "glue_builder ?X = mem_load"
    by (simp_all add: demo_externals_def)
  obtain cfg h s where start: "demo_startup = Some (Ok (cfg, h, boot s (cat (mem_world 0))))"
    and two: "unat (concurrent_cf_flushes cfg) = 2" and inv: "store_inv ?c s"
    and cat: "build_catalog mem_load mem_load cfg = Some (Ok h)"
    and s: "db s = mem_open [] [(''active'', make_cf_opts (cfg_write_buffer_size cfg))]"
      "active_cf s = ''active''" "orphaned_cfs s = []" "counter s = 1"
    using demo_startup_ok by blast
  have active: "db s ''active'' = Some []" and fresh: "db s (rotated_cf_name 42) = None"
    by (simp_all add: s rotated_cf_name_42 mem_open_def)
  define st0 where "st0 = note_found mem_parquet ?c ?f mem_tables cfg (boot s (cat (mem_world 0)) :: demo_engine)"
  define st1 where "st1 = append_begin [5] st0"
  have st1: "store st1 = s" "world st1 = mem_world 0" "appends st1 = [(''active'', [5])]" "waiting st1 = []"
    "running st1 = []" "channel st1 = []" "main st1 = Serving" "loop_running st1"
    "lost st1 = {#}" "accepted st1 = {#}" "main st0 \<noteq> Exited" "flushing st1 = None" "dropping st1 = []"
    by (simp_all add: st0_def st1_def append_begin_def note_found_def boot_def s mem_world_def committed_def
        files_of_def stored_def place_defs family_events_def cf_values_def mem_open_def)
  obtain tasks s2 w2 where fl: "do_flush mem_db (\<lambda>hi. hi) mem_load mem_load 42 cfg s
      (mem_world 0 :: bytes list mem_catalog_state world) = (Some (Ok tasks), s2, w2)"
    using mem_do_flush [OF cat fresh] by blast
  note sc = do_flush_store [OF mem_db_laws inv fl]
  then obtain t where t: "tasks = [t]" "task_cf t = ''active''" by (auto simp: s)
  have s2: "db s2 ''active'' = Some []" "counter s2 = 1"
    using sc active s by (auto simp: was_rotated_def)
  define st2 where "st2 = st1\<lparr>store := s2, world := w2, waiting := [t]\<rparr>"
  have "do_flush (rocks ?X) (\<lambda>hi. hi) (rest_builder ?X) (glue_builder ?X) 42 cfg (store st1) (world st1) =
      (Some (Ok tasks), s2, w2)" using fl by (simp add: X st1)
  from flush_cycle_steps [OF this st1(12)] obtain cfs where
    cyc: "flush_begin ?X (\<lambda>hi. hi) 42 st1 = st1\<lparr>store := s2, flushing := Some cfs\<rparr>"
      "flush_end ?X cfg cfs (st1\<lparr>store := s2, flushing := Some cfs\<rparr>) = Some st2"
    by (auto simp: st1 t st2_def)
  define st3 where "st3 = st2\<lparr>waiting := [], running := [t]\<rparr>"
  have "step ?X ?c ?f cfg h st0 st1" unfolding st1_def using st1(11) by (rule Append_Begin)
  moreover have "step ?X ?c ?f cfg h st1 (st1\<lparr>store := s2, flushing := Some cfs\<rparr>)"
    using Flush_Begin [of st1 Timer 42 ?X ?c ?f cfg h "\<lambda>hi. hi"] st1(7,8,12) by (simp add: cyc(1))
  moreover have "step ?X ?c ?f cfg h (st1\<lparr>store := s2, flushing := Some cfs\<rparr>) st2"
    by (rule Flush_End [OF _ cyc(2)]) simp
  moreover have "step ?X ?c ?f cfg h st2 st3"
    using Acquire_Permit [of st2 "[]" t "[]" cfg ?X ?c ?f h] two by (simp add: st2_def st3_def st1)
  moreover have "reach (\<lambda>s. s = st0) (step ?X ?c ?f cfg h) st0" by (simp add: reach_init)
  ultimately have "reach (\<lambda>s. s = st0) (step ?X ?c ?f cfg h) st3" by (meson reach_step)
  then show ?thesis
    using start s2 t st1 by (intro exI [of _ cfg] exI [of _ h] exI [of _ "boot s (cat (mem_world 0))"] exI [of _ st3])
      (simp add: st0_def st3_def st2_def)
qed

lemma race_lost:
  assumes st: "running st = [t]" "task_cf t = ''active''" "channel st = []" "appends st = [(''active'', [5])]"
      "db (store st) ''active'' = Some []" "counter (store st) = 1" "main st = Serving"
      "lost st = {#}" "accepted st = {#}" "dropping st = []"
    and reach: "reach init (step demo_externals (\<lambda>d. d) (\<lambda>f. f) cfg h) st"
  shows "\<exists>st'. reach init (step demo_externals (\<lambda>d. d) (\<lambda>f. f) cfg h) st' \<and>
    accepted st' = {#[5]#} \<and> lost st' = {#[5]#}"
proof -
  let ?X = demo_externals and ?c = "\<lambda>d :: mem. d" and ?f = "\<lambda>f :: bytes list. f"
  have X: "rocks ?X = mem_db" "pq ?X = mem_parquet" "hash_order ?X = (\<lambda>m. m)"
    by (simp_all add: demo_externals_def)
  define req where "req = \<lparr> cf_name = ''active'', table_data_files = [(task_table t, [] :: bytes list list)] \<rparr>"
  obtain m where "compile_cf_pipeline mem_db mem_parquet ''u'' (store st) ''active'' (task_target_parquet_bytes t)
      (task_parquet_compression t) (task_write_context t) (task_arrow_schema t) (mets (world st)) = (Ok [], m)"
    using mem_compile_empty [OF st(5)] by blast
  then have fin: "finish_task ?X ''u'' t (st\<lparr>running := []\<rparr>) =
      st\<lparr>running := [], world := (world st)\<lparr>mets := m\<rparr>, channel := [req]\<rparr>"
    by (simp add: finish_task_def run_flush_task_def X st req_def)
  define st4 where "st4 = st\<lparr>running := [], world := (world st)\<lparr>mets := m\<rparr>, channel := [req]\<rparr>"
  have "step ?X ?c ?f cfg h st st4"
    using Finish_Task [of st "[]" t "[]" ?X ?c ?f cfg h "''u''"] st(1) fin by (simp add: st4_def)
  obtain full s5 where app: "append_to_cf mem_db ''active'' [[5]] (store st) = (Ok full, s5)"
    and s5: "db s5 = (db (store st))(''active'' \<mapsto> [(to_be_bytes 1, [5])])"
    using mem_append [OF st(5,6)] by blast
  define st5 where "st5 = st4\<lparr>appends := [], store := s5, accepted := {#[5]#}, lost := {#}\<rparr>"
  have "append_finish ?X ''active'' [5] (st4\<lparr>appends := []\<rparr>) = st5"
    by (simp add: append_finish_def X st4_def app st mem_parquet_simps st5_def)
  then have "step ?X ?c ?f cfg h st4 st5"
    using Append_Finish [of st4 "[]" "''active''" "[5]" "[]" ?X ?c ?f cfg h] by (simp add: st4_def st)
  define st6 where "st6 = commit_step ?X h cfg [req] (st5\<lparr>channel := []\<rparr>)"
  have "step ?X ?c ?f cfg h st5 st6"
    unfolding st6_def by (rule Commit_Round) (simp_all add: st5_def st4_def st)
  have st6: "st6 = st5\<lparr>channel := [], dropping := [req]\<rparr>"
    unfolding st6_def commit_step_def X req_def empty_commit by simp
  define st7 where "st7 = drop_step ?X ?c ?f req (st6\<lparr>dropping := []\<rparr>)"
  have "step ?X ?c ?f cfg h st6 st7"
    unfolding st7_def by (rule Drop_Family) (simp add: st6)
  have "db (store st6) ''active'' = Some [(to_be_bytes 1, [5])]" by (simp add: st6 st5_def s5)
  then obtain s7 where "drop_frozen_cf mem_db ''active'' (store st6) = (Ok (), s7)" using mem_drop by blast
  then have "lost st7 = {#[5]#}" and "accepted st7 = {#[5]#}"
    unfolding st7_def drop_step_def X st6
    by (simp_all add: st5_def st4_def st family_events_def cf_values_def s5 mem_parquet_simps
        request_rows_def req_def)
  moreover have "reach init (step ?X ?c ?f cfg h) st7"
    using reach \<open>step ?X ?c ?f cfg h st st4\<close> \<open>step ?X ?c ?f cfg h st4 st5\<close> \<open>step ?X ?c ?f cfg h st5 st6\<close>
      \<open>step ?X ?c ?f cfg h st6 st7\<close> by (meson reach_step)
  ultimately show ?thesis by blast
qed

lemma demo_pq: "pq demo_externals = mem_parquet"
  by (simp add: demo_externals_def)

lemma demo_hyps:
  assumes "demo_startup = Some (Ok (cfg, h, st0))"
  shows "startup demo_externals sample_json sample_fs (Some 8) sample_env (\<lambda>hi. hi) (\<lambda>p. [])
      (\<lambda>n r. Ok (n # r)) [] (cat (mem_world 0)) = Some (Ok (cfg, h, st0))"
    and "path_laws demo_externals (\<lambda>d. d) ((\<lambda>p. []) (rocksdb_path cfg)) Map.empty"
    and "note_found mem_parquet (\<lambda>d. d) (\<lambda>f. f) mem_tables cfg st =
      note_found (pq demo_externals) (\<lambda>d. d) (\<lambda>f. f) mem_tables cfg st"
  using assms demo_path_ok by (simp_all add: demo_startup_def) (simp add: demo_externals_def)

lemma demo_calm: "(\<And>n v. (n, v) \<in> set (appends st) \<Longrightarrow> n = active_cf (store st)) \<Longrightarrow> calm demo_externals (\<lambda>d. d) st"
  by (auto simp: calm_def demo_externals_def mem_db_def)

lemma guarded_step:
  "reach init (\<lambda>s s'. G s \<and> R s s') s \<Longrightarrow> G s \<Longrightarrow> R s s' \<Longrightarrow> reach init (\<lambda>s s'. G s \<and> R s s') s'"
  by (rule reach_step) auto

text \<open>A calm run: one append on its own, after which nothing is in flight.\<close>

definition at_rest :: "('d, 'c, 's, 'io, 'f, 'e) engine \<Rightarrow> bool" where
  "at_rest st \<longleftrightarrow> appends st = [] \<and> flushing st = None \<and> waiting st = [] \<and> running st = [] \<and> channel st = [] \<and>
     dropping st = [] \<and> undropped st = [] \<and> stranded st = [] \<and> main st = Serving \<and> loop_running st"

lemma append_run:
  "\<exists>cfg h st0 st. demo_startup = Some (Ok (cfg, h, st0)) \<and>
     reach (\<lambda>s. s = note_found mem_parquet (\<lambda>d. d) (\<lambda>f. f) mem_tables cfg st0)
       (\<lambda>s s'. calm demo_externals (\<lambda>d. d) s \<and> step demo_externals (\<lambda>d. d) (\<lambda>f. f) cfg h s s') st \<and>
     accepted st = {#[5]#} \<and> at_rest st \<and> world st = mem_world 0 \<and> lost st = {#} \<and>
     store_inv (\<lambda>d. d) (store st) \<and> active_cf (store st) = ''active'' \<and> orphaned_cfs (store st) = [] \<and>
     db (store st) = [''default'' \<mapsto> [], ''active'' \<mapsto> [(to_be_bytes 1, [5])]] \<and>
     build_catalog mem_load mem_load cfg = Some (Ok h) \<and> unat (concurrent_cf_flushes cfg) = 2"
proof -
  let ?X = demo_externals and ?c = "\<lambda>d :: mem. d" and ?f = "\<lambda>f :: bytes list. f"
  obtain cfg h s where start: "demo_startup = Some (Ok (cfg, h, boot s (cat (mem_world 0))))"
    and s: "db s = mem_open [] [(''active'', make_cf_opts (cfg_write_buffer_size cfg))]"
      "active_cf s = ''active''" "orphaned_cfs s = []" "counter s = 1" and inv: "store_inv ?c s"
    and cfg: "build_catalog mem_load mem_load cfg = Some (Ok h)" "unat (concurrent_cf_flushes cfg) = 2"
    using demo_startup_ok by blast
  have active: "db s ''active'' = Some []" by (simp add: s mem_open_def)
  define st0 where "st0 = note_found mem_parquet ?c ?f mem_tables cfg (boot s (cat (mem_world 0)) :: demo_engine)"
  have st0: "store st0 = s" "accepted st0 = {#}" "at_rest st0" "world st0 = mem_world 0" "lost st0 = {#}"
    by (simp_all add: st0_def note_found_def boot_def s mem_world_def committed_def at_rest_def
        files_of_def stored_def place_defs family_events_def cf_values_def mem_open_def)
  define st1 where "st1 = append_begin [5] st0"
  have st1: "st1 = st0\<lparr>appends := [(''active'', [5])]\<rparr>"
    using st0 by (simp add: st1_def append_begin_def s at_rest_def)
  define st2 where "st2 = append_finish ?X ''active'' [5] (st1\<lparr>appends := []\<rparr>)"
  obtain full s' where app: "append_to_cf mem_db ''active'' [[5]] s = (Ok full, s')"
    and s': "db s' = (db s)(''active'' \<mapsto> [(to_be_bytes 1, [5])])" "active_cf s' = active_cf s"
      "orphaned_cfs s' = orphaned_cfs s"
    using mem_append [OF active s(4)] by blast
  have "unat (counter s) + length [[5 :: u8]] < 2 ^ 64" by (simp add: s(4))
  from append_to_cf_cases [OF mem_db_laws inv this _ app] have inv': "store_inv ?c s'"
    using active by (auto simp: keys_below_def)
  have db': "db s' = [''default'' \<mapsto> [], ''active'' \<mapsto> [(to_be_bytes 1, [5])]]"
    by (auto simp: s'(1) s(1) mem_open_def fun_eq_iff)
  have st2: "st2 = st0\<lparr>store := s', accepted := {#[5]#}\<rparr>"
    using st0 app by (simp add: st2_def append_finish_def st1 mem_parquet_simps demo_externals_def at_rest_def)
  have a: "step ?X ?c ?f cfg h st0 st1"
    unfolding st1_def using st0 by (intro Append_Begin) (simp add: at_rest_def)
  have b: "step ?X ?c ?f cfg h st1 st2"
    using Append_Finish [of st1 "[]" "''active''" "[5]" "[]" ?X ?c ?f cfg h] st0 s
    by (simp add: st2_def st1 at_rest_def)
  have c: "calm ?X ?c st0" "calm ?X ?c st1"
    by (rule demo_calm, use st0 s in \<open>simp add: st1 at_rest_def\<close>)+
  have "reach (\<lambda>s. s = st0) (\<lambda>s s'. calm ?X ?c s \<and> step ?X ?c ?f cfg h s s') st0"
    by (simp add: reach_init)
  note run = guarded_step [OF guarded_step [OF this c(1) a] c(2) b]
  have "accepted st2 = {#[5]#}" "at_rest st2" "world st2 = mem_world 0" "lost st2 = {#}" "store st2 = s'"
    using st0 by (simp_all add: st2 at_rest_def)
  with start run inv' s' db' s cfg show ?thesis
    unfolding st0_def by (intro exI [of _ cfg] exI [of _ h] exI [of _ "boot s (cat (mem_world 0))"] exI [of _ st2]) simp
qed

text \<open>A calm run to the end: signal, emergency flush of the empty family, exit.\<close>

lemma drained_exit:
  fixes st :: demo_engine
  assumes st: "waiting st = [t]" "running st = []" "channel st = []" "appends st = []" "main st = Draining"
      "task_cf t = ''active''" "db (store st) ''active'' = Some []" "dropping st = []"
    and store: "store_inv (\<lambda>d. d) (store st)" "active_cf (store st) \<noteq> ''active''"
    and permits: "unat (concurrent_cf_flushes cfg) = 2"
    and reach: "reach init (\<lambda>s s'. calm demo_externals (\<lambda>d. d) s \<and> step demo_externals (\<lambda>d. d) (\<lambda>f. f) cfg h s s') st"
  shows "\<exists>st'. reach init (\<lambda>s s'. calm demo_externals (\<lambda>d. d) s \<and> step demo_externals (\<lambda>d. d) (\<lambda>f. f) cfg h s s') st' \<and>
    main st' = Exited \<and> stranded st' = stranded st \<and> orphaned_cfs (store st') = orphaned_cfs (store st) \<and>
    active_cf (store st') = active_cf (store st) \<and>
    db (store st') (active_cf (store st)) = db (store st) (active_cf (store st))"
proof -
  let ?X = demo_externals and ?c = "\<lambda>d :: mem. d" and ?f = "\<lambda>f :: bytes list. f"
  have X: "rocks ?X = mem_db" "pq ?X = mem_parquet" "hash_order ?X = (\<lambda>m. m)"
    by (simp_all add: demo_externals_def)
  have calm: "calm ?X ?c st" if "appends st = []" for st :: demo_engine by (rule demo_calm) (simp add: that)
  define req where "req = \<lparr> cf_name = ''active'', table_data_files = [(task_table t, [] :: bytes list list)] \<rparr>"
  obtain m where comp: "compile_cf_pipeline mem_db mem_parquet ''u'' (store st) ''active'' (task_target_parquet_bytes t)
      (task_parquet_compression t) (task_write_context t) (task_arrow_schema t) (mets (world st)) = (Ok [], m)"
    using mem_compile_empty [OF st(7)] by blast
  define st1 where "st1 = st\<lparr>waiting := [], running := [t]\<rparr>"
  define st2 where "st2 = st\<lparr>waiting := [], running := [], world := (world st)\<lparr>mets := m\<rparr>, channel := [req]\<rparr>"
  define st3 where "st3 = st2\<lparr>channel := [], dropping := [req]\<rparr>"
  define st4 where "st4 = drop_step ?X ?c ?f req (st3\<lparr>dropping := []\<rparr>)"
  obtain r s4 where drop: "drop_frozen_cf mem_db ''active'' (store st) = (r, s4)" by force
  note d = drop_frozen_cf_cases [OF mem_db_laws store(1) store(2) [symmetric] drop]
  have st4: "store st4 = s4" "waiting st4 = []" "running st4 = []" "channel st4 = []" "main st4 = Draining"
    "appends st4 = []" "stranded st4 = stranded st" "dropping st4 = []"
    using drop by (simp_all add: st4_def drop_step_def X req_def st3_def st2_def st split: sum.splits)
  have a: "step ?X ?c ?f cfg h st st1"
    using Acquire_Permit [of st "[]" t "[]" cfg ?X ?c ?f h] permits st by (simp add: st1_def)
  have "finish_task ?X ''u'' t (st1\<lparr>running := []\<rparr>) = st2"
    using comp by (simp add: finish_task_def run_flush_task_def X st st1_def st2_def req_def)
  then have b: "step ?X ?c ?f cfg h st1 st2"
    using Finish_Task [of st1 "[]" t "[]" ?X ?c ?f cfg h "''u''"] by (simp add: st1_def)
  have "commit_step ?X h cfg [req] (st2\<lparr>channel := []\<rparr>) = st3"
    unfolding commit_step_def X req_def empty_commit by (simp add: st3_def req_def)
  then have c: "step ?X ?c ?f cfg h st2 st3"
    using Commit_Round [of st2 "[req]" "[]" ?X ?c ?f cfg h] by (simp add: st2_def st)
  have d': "step ?X ?c ?f cfg h st3 st4"
    unfolding st4_def by (rule Drop_Family) (simp add: st3_def)
  have e: "step ?X ?c ?f cfg h st4 (st4\<lparr>main := Exited\<rparr>)"
    by (rule Committer_Exit) (simp_all add: st4)
  have q: "calm ?X ?c st" "calm ?X ?c st1" "calm ?X ?c st2" "calm ?X ?c st3" "calm ?X ?c st4"
    by (simp_all add: calm st4 st st1_def st2_def st3_def)
  have "reach init (\<lambda>s s'. calm ?X ?c s \<and> step ?X ?c ?f cfg h s s') (st4\<lparr>main := Exited\<rparr>)"
    by (rule guarded_step [OF guarded_step [OF guarded_step [OF guarded_step [OF guarded_step
      [OF reach q(1) a] q(2) b] q(3) c] q(4) d'] q(5) e])
  moreover have "db s4 (active_cf (store st)) = db (store st) (active_cf (store st))"
    using d store(2) by (cases "is_ok r") auto
  ultimately show ?thesis using d st4 by (intro exI [of _ "st4\<lparr>main := Exited\<rparr>"]) simp
qed

text \<open>The emergency flush of the empty family.\<close>

lemma emergency_run:
  fixes st :: demo_engine
  assumes st: "world st = mem_world 0" "appends st = []" "waiting st = []" "running st = []" "channel st = []"
      "main st = Stopping" "\<not> grpc_running st" "\<not> loop_running st" "flushing st = None" "stranded st = []" "dropping st = []"
    and cat: "build_catalog mem_load mem_load cfg = Some (Ok (h :: demo_catalog catalog_handle))"
    and store: "store_inv (\<lambda>d. d) (store st)" "active_cf (store st) = ''active''" "orphaned_cfs (store st) = []"
      "db (store st) ''active'' = Some []" "db (store st) (rotated_cf_name 42) = None"
    and reach: "reach init (\<lambda>s s'. calm demo_externals (\<lambda>d. d) s \<and> step demo_externals (\<lambda>d. d) (\<lambda>f. f) cfg h s s') st"
  shows "\<exists>st' t. reach init (\<lambda>s s'. calm demo_externals (\<lambda>d. d) s \<and> step demo_externals (\<lambda>d. d) (\<lambda>f. f) cfg h s s') st' \<and>
     waiting st' = [t] \<and> running st' = [] \<and> channel st' = [] \<and> appends st' = [] \<and> main st' = Draining \<and>
     dropping st' = [] \<and>
     task_cf t = ''active'' \<and> db (store st') ''active'' = Some [] \<and> store_inv (\<lambda>d. d) (store st') \<and>
     active_cf (store st') \<noteq> ''active'' \<and> stranded st' = [] \<and> orphaned_cfs (store st') = [] \<and>
     db (store st') (active_cf (store st')) = Some []"
proof -
  let ?X = demo_externals and ?c = "\<lambda>d :: mem. d" and ?f = "\<lambda>f :: bytes list. f"
  have X: "rocks ?X = mem_db" "rest_builder ?X = mem_load" "glue_builder ?X = mem_load"
    by (simp_all add: demo_externals_def)
  obtain tasks s' w' where fl: "do_flush mem_db (\<lambda>hi. hi) mem_load mem_load 42 cfg (store st)
      (mem_world 0 :: bytes list mem_catalog_state world) = (Some (Ok tasks), s', w')"
    using mem_do_flush [OF cat store(5)] by blast
  note sc = do_flush_store [OF mem_db_laws store(1) fl]
  then obtain t where t: "tasks = [t]" "task_cf t = ''active''" by (auto simp: store)
  have s': "db s' ''active'' = Some []" "db s' (active_cf s') = Some []" "orphaned_cfs s' = []"
    "active_cf s' \<noteq> ''active''" "store_inv ?c s'"
    using sc store(4) by (auto simp: was_rotated_def)
  have "do_flush (rocks ?X) (\<lambda>hi. hi) (rest_builder ?X) (glue_builder ?X) 42 cfg (store st) (world st) =
      (Some (Ok tasks), s', w')" using fl by (simp add: X st)
  from flush_cycle_steps [OF this st(9)] obtain cfs where
    froze: "flush_begin ?X (\<lambda>hi. hi) 42 st = st\<lparr>store := s', flushing := Some cfs\<rparr>"
    and spawned: "flush_end ?X cfg cfs (st\<lparr>store := s', flushing := Some cfs\<rparr>) =
      Some (st\<lparr>store := s', world := w', waiting := waiting st @ tasks\<rparr>)" by blast
  define st1 st2 where "st1 = st\<lparr>store := s', flushing := Some cfs\<rparr>\<lparr>main := Flushing\<rparr>"
    and "st2 = st\<lparr>store := s', world := w', waiting := waiting st @ tasks\<rparr>\<lparr>main := Flushing\<rparr>"
  have a: "step ?X ?c ?f cfg h st st1"
    using Emergency_Flush [of st 42 ?X ?c ?f cfg h "\<lambda>hi. hi"] st(6-9) by (simp add: froze st1_def)
  have b: "step ?X ?c ?f cfg h st1 st2"
    unfolding st1_def st2_def by (rule Flush_End [of _ cfs]) (simp_all only: flush_end_main spawned option.map, simp)
  have c: "step ?X ?c ?f cfg h st2 (st2\<lparr>main := Draining\<rparr>)"
    by (rule Emergency_Done) (simp_all add: st2_def st)
  have q: "calm ?X ?c st" "calm ?X ?c st1" "calm ?X ?c st2"
    by (rule demo_calm, simp add: st st1_def st2_def)+
  note guarded_step [OF guarded_step [OF guarded_step [OF reach q(1) a] q(2) b] q(3) c]
  then show ?thesis
    using t s' by (intro exI [of _ "st2\<lparr>main := Draining\<rparr>"] exI [of _ t]) (simp add: st2_def st)
qed

lemma drain_run:
  "\<exists>cfg h st0 st t. demo_startup = Some (Ok (cfg, h, st0)) \<and> unat (concurrent_cf_flushes cfg) = 2 \<and>
     reach (\<lambda>s. s = note_found mem_parquet (\<lambda>d. d) (\<lambda>f. f) mem_tables cfg st0)
       (\<lambda>s s'. calm demo_externals (\<lambda>d. d) s \<and> step demo_externals (\<lambda>d. d) (\<lambda>f. f) cfg h s s') st \<and>
     waiting st = [t] \<and> running st = [] \<and> channel st = [] \<and> appends st = [] \<and> main st = Draining \<and>
     dropping st = [] \<and>
     task_cf t = ''active'' \<and> db (store st) ''active'' = Some [] \<and> store_inv (\<lambda>d. d) (store st) \<and>
     active_cf (store st) \<noteq> ''active'' \<and> stranded st = [] \<and> orphaned_cfs (store st) = [] \<and>
     db (store st) (active_cf (store st)) = Some []"
proof -
  let ?X = demo_externals and ?c = "\<lambda>d :: mem. d" and ?f = "\<lambda>f :: bytes list. f"
  obtain cfg h s where start: "demo_startup = Some (Ok (cfg, h, boot s (cat (mem_world 0))))"
    and two: "unat (concurrent_cf_flushes cfg) = 2" and inv: "store_inv ?c s"
    and cat: "build_catalog mem_load mem_load cfg = Some (Ok h)"
    and s: "db s = mem_open [] [(''active'', make_cf_opts (cfg_write_buffer_size cfg))]"
      "active_cf s = ''active''" "orphaned_cfs s = []" "counter s = 1"
    using demo_startup_ok by blast
  have active: "db s ''active'' = Some []" and fresh: "db s (rotated_cf_name 42) = None"
    by (simp_all add: s rotated_cf_name_42 mem_open_def)
  let ?R = "\<lambda>s s'. calm ?X ?c s \<and> step ?X ?c ?f cfg h s s'"
  define st0 where "st0 = note_found mem_parquet ?c ?f mem_tables cfg (boot s (cat (mem_world 0)) :: demo_engine)"
  define st1 st2 st3 where "st1 = st0\<lparr>main := Stopping\<rparr>" and "st2 = st1\<lparr>grpc_running := False\<rparr>"
    and "st3 = st2\<lparr>loop_running := False\<rparr>"
  note sts = st3_def st2_def st1_def
  have st0: "store st0 = s" "world st0 = mem_world 0" "appends st0 = []" "waiting st0 = []" "running st0 = []"
    "channel st0 = []" "main st0 = Serving" "stranded st0 = []" "flushing st0 = None" "dropping st0 = []"
    by (simp_all add: st0_def note_found_def boot_def mem_world_def)
  have a: "step ?X ?c ?f cfg h st0 st1"
    unfolding st1_def by (rule Signal [where registered = True]) (simp_all add: st0 wait_for_shutdown_def)
  have b: "step ?X ?c ?f cfg h st1 st2" unfolding st2_def by (rule Grpc_Stop) (simp add: st1_def)
  have c: "step ?X ?c ?f cfg h st2 st3" unfolding st3_def by (rule Loop_Stop) (simp_all add: sts st0)
  have q: "calm ?X ?c st0" "calm ?X ?c st1" "calm ?X ?c st2"
    by (rule demo_calm, simp add: st0 sts)+
  have "reach (\<lambda>s. s = st0) ?R st0" by (simp add: reach_init)
  from guarded_step [OF guarded_step [OF guarded_step [OF this q(1) a] q(2) b] q(3) c]
  have run: "reach (\<lambda>s. s = st0) ?R st3" .
  have st3: "world st3 = mem_world 0" "appends st3 = []" "waiting st3 = []" "running st3 = []" "channel st3 = []"
    "main st3 = Stopping" "\<not> grpc_running st3" "\<not> loop_running st3" "flushing st3 = None" "stranded st3 = []"
    "dropping st3 = []" "store st3 = s"
    by (simp_all add: sts st0)
  from emergency_run [OF st3(1-11) cat _ _ _ _ _ run] show ?thesis
    using start two inv s(2,3) active fresh unfolding st3(12) st0_def by blast
qed

lemma exit_run:
  "\<exists>cfg h st0 st. demo_startup = Some (Ok (cfg, h, st0)) \<and>
     reach (\<lambda>s. s = note_found mem_parquet (\<lambda>d. d) (\<lambda>f. f) mem_tables cfg st0)
       (\<lambda>s s'. calm demo_externals (\<lambda>d. d) s \<and> step demo_externals (\<lambda>d. d) (\<lambda>f. f) cfg h s s') st \<and>
     main st = Exited \<and> orphaned_cfs (store st) = [] \<and> stranded st = [] \<and>
     cf_values (\<lambda>d. d) (store st) (active_cf (store st)) = []"
proof -
  from drain_run obtain cfg h st0 st t where start: "demo_startup = Some (Ok (cfg, h, st0))"
    and two: "unat (concurrent_cf_flushes cfg) = 2"
    and run: "reach (\<lambda>s. s = note_found mem_parquet (\<lambda>d. d) (\<lambda>f. f) mem_tables cfg st0)
       (\<lambda>s s'. calm demo_externals (\<lambda>d. d) s \<and> step demo_externals (\<lambda>d. d) (\<lambda>f. f) cfg h s s') st"
    and st: "waiting st = [t]" "running st = []" "channel st = []" "appends st = []" "main st = Draining"
      "task_cf t = ''active''" "db (store st) ''active'' = Some []" "dropping st = []"
    and store: "store_inv (\<lambda>d. d) (store st)" "active_cf (store st) \<noteq> ''active''"
    and left: "stranded st = []" "orphaned_cfs (store st) = []" "db (store st) (active_cf (store st)) = Some []"
    by blast
  from drained_exit [OF st store two run] obtain st' where
    "reach (\<lambda>s. s = note_found mem_parquet (\<lambda>d. d) (\<lambda>f. f) mem_tables cfg st0)
       (\<lambda>s s'. calm demo_externals (\<lambda>d. d) s \<and> step demo_externals (\<lambda>d. d) (\<lambda>f. f) cfg h s s') st'"
    "main st' = Exited" "stranded st' = []" "orphaned_cfs (store st') = []"
    "active_cf (store st') = active_cf (store st)" "db (store st') (active_cf (store st)) = Some []"
    using left by auto
  moreover from this have "cf_values (\<lambda>d. d) (store st') (active_cf (store st')) = []" by (simp add: cf_values_def)
  ultimately show ?thesis using start by blast
qed

end
