(* ===== verification/Delivery_Spec.thy ===== *)
theory Delivery_Spec
  imports Prelude "HOL-Library.Multiset"
begin

text \<open>
  What the engine promises to the applications that send it events, without stores, families,
  tasks or files: events are received, are pending for a while, and are then published, each
  once. A weaker specification adds that pending events may go missing, and a third one, for an
  engine that is restarted or is not told of a commit, that published events may become pending
  again and pending events may be published and stay pending. The locale at the end
  relates the steps of an implementation to those of a specification.
\<close>

section \<open>The specification\<close>

record 'e delivery =
  received :: "'e multiset"
  pending :: "'e multiset"
  published :: "'e multiset"
  missing :: "'e multiset"
  repeated :: "'e multiset"

inductive delivery_step :: "'e delivery \<Rightarrow> 'e delivery \<Rightarrow> bool" where
  Receive: "delivery_step q (q\<lparr>received := received q + es, pending := pending q + es\<rparr>)"
| Publish: "es \<subseteq># pending q \<Longrightarrow>
    delivery_step q (q\<lparr>pending := pending q - es, published := published q + es\<rparr>)"

inductive lossy_step :: "'e delivery \<Rightarrow> 'e delivery \<Rightarrow> bool" where
  Deliver: "delivery_step q q' \<Longrightarrow> lossy_step q q'"
| Lose: "es \<subseteq># pending q \<Longrightarrow>
    lossy_step q (q\<lparr>pending := pending q - es, missing := missing q + es\<rparr>)"

inductive repeating_step :: "'e delivery \<Rightarrow> 'e delivery \<Rightarrow> bool" where
  Once: "lossy_step q q' \<Longrightarrow> repeating_step q q'"
| Repeat: "es \<subseteq># published q \<Longrightarrow>
    repeating_step q (q\<lparr>pending := pending q + es, repeated := repeated q + es\<rparr>)"
| Publish_Again: "set_mset es \<subseteq> set_mset (pending q) \<Longrightarrow>
    repeating_step q (q\<lparr>published := published q + es, repeated := repeated q + es\<rparr>)"

inductive_cases delivery_stepE: "delivery_step q q'"
inductive_cases lossy_stepE: "lossy_step q q'"
inductive_cases repeating_stepE: "repeating_step q q'"

definition accounted :: "'e delivery \<Rightarrow> bool" where
  "accounted q \<longleftrightarrow> received q + repeated q = pending q + published q + missing q"

lemma delivery_step_accounted: "delivery_step q q' \<Longrightarrow> accounted q \<Longrightarrow> accounted q'"
  by (erule delivery_stepE) (auto simp: accounted_def mset_subset_eq_exists_conv ac_simps)

lemma lossy_step_accounted: "lossy_step q q' \<Longrightarrow> accounted q \<Longrightarrow> accounted q'"
  by (erule lossy_stepE) (auto simp: accounted_def mset_subset_eq_exists_conv ac_simps dest: delivery_step_accounted)

lemma repeating_step_accounted: "repeating_step q q' \<Longrightarrow> accounted q \<Longrightarrow> accounted q'"
  by (erule repeating_stepE) (auto simp: accounted_def ac_simps dest: lossy_step_accounted)

lemma delivery_step_mono:
  "delivery_step q q' \<Longrightarrow> received q \<subseteq># received q' \<and> published q \<subseteq># published q' \<and> missing q' = missing q \<and>
   repeated q' = repeated q"
  by (erule delivery_stepE) auto

lemma lossy_step_mono:
  "lossy_step q q' \<Longrightarrow> received q \<subseteq># received q' \<and> published q \<subseteq># published q' \<and> missing q \<subseteq># missing q' \<and>
   repeated q' = repeated q"
  by (erule lossy_stepE) (auto dest: delivery_step_mono)

interpretation reliable: invariant_system "\<lambda>q. accounted q \<and> missing q = {#} \<and> repeated q = {#}" delivery_step
  "\<lambda>q. accounted q \<and> missing q = {#} \<and> repeated q = {#}"
  by unfold_locales (auto dest: delivery_step_accounted delivery_step_mono)

interpretation lossy: invariant_system accounted lossy_step accounted
  by unfold_locales (auto dest: lossy_step_accounted)

text \<open>Whatever is repeated, nothing that was received is missing without being counted.\<close>

interpretation repeating: invariant_system accounted repeating_step accounted
  by unfold_locales (auto dest: repeating_step_accounted)

lemma repeating_at_least_once: "accounted q \<Longrightarrow> received q \<subseteq># pending q + published q + missing q"
  by (metis accounted_def mset_subset_eq_add_left)

section \<open>From accounts to steps\<close>

text \<open>
  Two accounts of which the second has received more are related by a receipt; two of which the
  second has published more by a publication; any two of which the second has more of everything
  but pending events by a receipt, a publication and a loss.
\<close>

lemma receive_account:
  assumes "accounted q" "accounted q'" and "received q \<subseteq># received q'"
    and "published q' = published q" "missing q' = missing q" "repeated q' = repeated q"
  shows "delivery_step q q'"
proof -
  have "pending q' = pending q + (received q' - received q)"
    using assms by (auto simp: accounted_def mset_subset_eq_exists_conv ac_simps)
  then have "q' = q\<lparr>received := received q + (received q' - received q),
      pending := pending q + (received q' - received q)\<rparr>"
    using assms by (intro delivery.equality) (simp_all add: subset_mset.add_diff_inverse)
  then show ?thesis by (metis Receive)
qed

lemma account_publish:
  assumes "accounted q" "accounted q'" and "published q \<subseteq># published q'"
    and "received q' = received q" "missing q' = missing q" "repeated q' = repeated q"
  shows "delivery_step q q'"
proof -
  obtain es where es: "published q' = published q + es" using assms(3) by (auto simp: mset_subset_eq_exists_conv)
  with assms have p: "pending q = pending q' + es" by (simp add: accounted_def ac_simps)
  then have "q' = q\<lparr>pending := pending q - es, published := published q + es\<rparr>"
    using assms es by (intro delivery.equality) simp_all
  moreover have "es \<subseteq># pending q" using p by simp
  ultimately show ?thesis by (metis Publish)
qed

lemma account_lose:
  assumes "accounted q" "accounted q'" and "missing q \<subseteq># missing q'"
    and "received q' = received q" "published q' = published q" "repeated q' = repeated q"
  shows "lossy_step q q'"
proof -
  obtain es where es: "missing q' = missing q + es" using assms(3) by (auto simp: mset_subset_eq_exists_conv)
  with assms have p: "pending q = pending q' + es" by (simp add: accounted_def ac_simps)
  then have "q' = q\<lparr>pending := pending q - es, missing := missing q + es\<rparr>"
    using assms es by (intro delivery.equality) simp_all
  moreover have "es \<subseteq># pending q" using p by simp
  ultimately show ?thesis by (metis Lose)
qed

lemma account_lossy:
  assumes acc: "accounted q" "accounted q'" and rec: "received q \<subseteq># received q'"
    and pub: "published q \<subseteq># published q'" and mis: "missing q \<subseteq># missing q'"
    and rpt: "repeated q' = repeated q"
  shows "lossy_step\<^sup>*\<^sup>* q q'"
proof -
  define a where "a = q\<lparr>received := received q', pending := pending q + (received q' - received q)\<rparr>"
  define b where "b = q'\<lparr>missing := missing q, pending := pending q' + (missing q' - missing q)\<rparr>"
  have a: "accounted a" using acc(1) rec by (auto simp: a_def accounted_def mset_subset_eq_exists_conv ac_simps)
  have b: "accounted b" using acc(2) mis by (auto simp: b_def accounted_def mset_subset_eq_exists_conv ac_simps)
  have "lossy_step q a" by (intro Deliver receive_account acc(1) a) (simp_all add: a_def rec)
  moreover have "lossy_step a b" by (intro Deliver account_publish a b) (simp_all add: a_def b_def pub rpt)
  moreover have "lossy_step b q'" by (intro account_lose b acc(2)) (simp_all add: b_def mis)
  ultimately show ?thesis by (meson converse_rtranclp_into_rtranclp rtranclp.rtrancl_refl)
qed

lemma lossy_repeating: "lossy_step\<^sup>*\<^sup>* q q' \<Longrightarrow> repeating_step\<^sup>*\<^sup>* q q'"
  by (induction rule: rtranclp_induct) (auto intro: Once rtranclp.rtrancl_into_rtrancl)

lemma account_repeating:
  assumes acc: "accounted q" "accounted q'" and rec: "received q \<subseteq># received q'"
    and pub: "published q + es \<subseteq># published q'" and mis: "missing q \<subseteq># missing q'"
    and rpt: "repeated q' = repeated q + es" and es: "set_mset es \<subseteq> set_mset (pending q)"
  shows "repeating_step\<^sup>*\<^sup>* q q'"
proof -
  define a where "a = q\<lparr>published := published q + es, repeated := repeated q + es\<rparr>"
  have "accounted a" using acc(1) by (simp add: a_def accounted_def ac_simps)
  then have "lossy_step\<^sup>*\<^sup>* a q'"
    using acc(2) rec pub mis rpt by (intro account_lossy) (simp_all add: a_def)
  moreover have "repeating_step q a" unfolding a_def using es by (rule Publish_Again)
  ultimately show ?thesis by (meson converse_rtranclp_into_rtranclp lossy_repeating)
qed

section \<open>Refinement\<close>

text \<open>
  An implementation with an invariant refines a specification when every step from a state with
  the invariant is, under the abstraction, a sequence of steps of the specification. Then every
  run of the implementation is a run of the specification.
\<close>

locale refinement_system = invariant_system init step inv
  for init :: "'s \<Rightarrow> bool" and step :: "'s \<Rightarrow> 's \<Rightarrow> bool" and inv :: "'s \<Rightarrow> bool" +
  fixes abs_of :: "'s \<Rightarrow> 'a" and spec_init :: "'a \<Rightarrow> bool" and spec_step :: "'a \<Rightarrow> 'a \<Rightarrow> bool"
  assumes init_refines: "init s \<Longrightarrow> spec_init (abs_of s)"
    and step_refines: "inv s \<Longrightarrow> step s s' \<Longrightarrow> spec_step\<^sup>*\<^sup>* (abs_of s) (abs_of s')"
begin

lemma spec_reach_steps: "spec_step\<^sup>*\<^sup>* a b \<Longrightarrow> reach spec_init spec_step a \<Longrightarrow> reach spec_init spec_step b"
  by (induction rule: rtranclp_induct) (auto intro: reach_step)

lemma reach_refines: "reach init step s \<Longrightarrow> reach spec_init spec_step (abs_of s)"
proof (induction rule: reach.induct)
  case (reach_init s)
  then show ?case by (intro reach.reach_init init_refines)
next
  case (reach_step s s')
  then show ?case using spec_reach_steps step_refines reach_inv by blast
qed

end

end
