(* ===== verification/Engine_Refinement.thy ===== *)
theory Engine_Refinement
  imports Engine_Demo Delivery_Spec
begin

text \<open>
  The engine implements the specification of \<open>Delivery_Spec\<close>: what is in families is pending, what
  is in the table is published. Every run refines the specification with losses, every calm run
  the one without.
\<close>

section \<open>The abstraction\<close>

text \<open>The events that are there more often than accepted.\<close>

definition repeats ::
    "('w, 'e, 'b, 's, 'io, 'f) parquet \<Rightarrow> 'd contents \<Rightarrow> ('f \<Rightarrow> 'e list) \<Rightarrow> ('c, 'f) snapshots \<Rightarrow> config \<Rightarrow>
     ('d, 'c, 's, 'io, 'f, 'e) engine \<Rightarrow> 'e multiset" where
  "repeats P contents file_rows tabs cfg st =
     (committed file_rows tabs cfg st + buffered P contents file_rows st + lost st) - accepted st"

definition delivery_of ::
    "('w, 'e, 'b, 's, 'io, 'f) parquet \<Rightarrow> 'd contents \<Rightarrow> ('f \<Rightarrow> 'e list) \<Rightarrow> ('c, 'f) snapshots \<Rightarrow> config \<Rightarrow>
     ('d, 'c, 's, 'io, 'f, 'e) engine \<Rightarrow> 'e delivery" where
  "delivery_of P contents file_rows tabs cfg st =
     \<lparr> received = accepted st, pending = buffered P contents file_rows st,
       published = committed file_rows tabs cfg st, missing = lost st,
       repeated = repeats P contents file_rows tabs cfg st \<rparr>"

lemma delivery_of_simps [simp]:
  "received (delivery_of P contents file_rows tabs cfg st) = accepted st"
  "pending (delivery_of P contents file_rows tabs cfg st) = buffered P contents file_rows st"
  "published (delivery_of P contents file_rows tabs cfg st) = committed file_rows tabs cfg st"
  "missing (delivery_of P contents file_rows tabs cfg st) = lost st"
  "repeated (delivery_of P contents file_rows tabs cfg st) = repeats P contents file_rows tabs cfg st"
  by (simp_all add: delivery_of_def)

lemma engine_repeats:
  "engine_inv dup X contents file_rows cfg tabs nss st \<Longrightarrow> repeats (pq X) contents file_rows tabs cfg st = dup"
  unfolding repeats_def by (drule buffered_account) (metis add_diff_cancel_left')

lemma engine_accounted:
  "engine_inv dup X contents file_rows cfg tabs nss st \<Longrightarrow> accounted (delivery_of (pq X) contents file_rows tabs cfg st)"
  using buffered_account [of dup X contents file_rows cfg tabs nss st] engine_repeats [of dup X contents file_rows cfg tabs nss st]
  by (simp add: accounted_def ac_simps)

section \<open>What a step adds\<close>

text \<open>The tables of a state without the rest of it.\<close>

abbreviation table_files ::
    "('c, 'f) snapshots \<Rightarrow> config \<Rightarrow> ('d, 'c, 's, 'io, 'f, 'e) engine \<Rightarrow> 'f list" where
  "table_files tabs cfg st \<equiv> files_of tabs (world st) (analytics, micewriter_table cfg)"

lemma flush_end_accounts:
  assumes laws: "engine_laws X contents batch_rows rows file_rows cfg h tabs nss"
    and inv: "engine_inv dup X contents file_rows cfg tabs nss st"
    and run: "flush_end X cfg cfs st = Some st'"
  shows "table_files tabs cfg st' = table_files tabs cfg st \<and> accepted st' = accepted st \<and> lost st' = lost st"
proof -
  obtain r w' where sp: "spawn_tasks (rest_builder X) (glue_builder X) cfg cfs (world st) = (r, w')" by force
  have cinv: "cache_inv tabs nss analytics (world st)" using inv by (simp add: engine_inv_def)
  have "cache_inv tabs nss analytics w' \<and> (\<forall>i. files_of tabs w' i = files_of tabs (world st) i)"
    using laws by (intro spawn_tasks_world [OF _ cinv sp]) (simp add: engine_laws_def)
  with run sp show ?thesis by (cases rule: flush_end_cases) auto
qed

lemma finish_task_accounts:
  "files_of tabs (world (finish_task X uuid t st)) i = files_of tabs (world st) i \<and>
   accepted (finish_task X uuid t st) = accepted st \<and> lost (finish_task X uuid t st) = lost st"
  by (simp add: finish_task_def files_of_def split: prod.splits)

lemma append_finish_accounts:
  "world (append_finish X n v st) = world st \<and> accepted st \<subseteq># accepted (append_finish X n v st) \<and>
   lost (append_finish X n v st) = lost st"
  by (simp add: append_finish_def split: prod.splits sum.splits)

lemma drop_step_accounts:
  "world (drop_step X contents file_rows req st) = world st \<and>
   accepted (drop_step X contents file_rows req st) = accepted st \<and>
   lost st \<subseteq># lost (drop_step X contents file_rows req st)"
  by (simp add: drop_step_def split: prod.splits sum.splits)

lemma commit_step_accounts:
  assumes laws: "engine_laws X contents batch_rows rows file_rows cfg h tabs nss"
    and inv: "engine_inv dup X contents file_rows cfg tabs nss st"
    and st': "st' = commit_step X h cfg batch (st\<lparr>channel := rest\<rparr>)"
  shows "accepted st' = accepted st \<and> lost st' = lost st \<and>
    (\<exists>files. table_files tabs cfg st' = table_files tabs cfg st @ files)"
proof -
  obtain ok w' where run: "commit_batch (hash_order X) h cfg batch (world st) = (ok, w')" by force
  have "catalog_laws (handle_catalog h) tabs nss" "\<And>m. mset (hash_order X m) = mset m"
    using laws by (simp_all add: engine_laws_def)
  from commit_batch_world(2) [OF this(1) engine_invD(2) [OF inv] this(2) run, of "micewriter_table cfg"]
  have "\<exists>files. files_of tabs w' (analytics, micewriter_table cfg) = table_files tabs cfg st @ files" by blast
  with run show ?thesis by (auto simp: st' commit_step_def)
qed

lemma step_accounts:
  assumes laws: "engine_laws X contents batch_rows rows file_rows cfg h tabs nss"
    and inv: "engine_inv dup X contents file_rows cfg tabs nss st"
    and step: "step X contents file_rows cfg h st st'"
  shows "accepted st \<subseteq># accepted st' \<and> lost st \<subseteq># lost st' \<and>
    (\<exists>files. table_files tabs cfg st' = table_files tabs cfg st @ files) \<and>
    (accepted st' = accepted st \<or> world st' = world st)"
  using step
proof (cases rule: step_elim)
  case (Append_Begin v)
  then show ?thesis by (simp add: append_begin_def)
next
  case (Append_Finish as n v bs)
  then show ?thesis using append_finish_accounts [of X n v "st\<lparr>appends := as @ bs\<rparr>"] by simp
next
  case (Flush_Begin wake now g)
  then show ?thesis by (simp add: flush_begin_fields(2-))
next
  case (Flush_End cfs)
  then show ?thesis using flush_end_accounts [OF laws inv] by simp
next
  case (Finish_Task as t bs uuid)
  then show ?thesis using finish_task_accounts [of tabs X uuid t "st\<lparr>running := as @ bs\<rparr>"] by auto
next
  case (Commit_Round batch rest)
  from commit_step_accounts [OF laws inv Commit_Round(1)] show ?thesis by auto
next
  case (Drop_Family req rest)
  then show ?thesis using drop_step_accounts [of X contents file_rows req "st\<lparr>dropping := rest\<rparr>"] by simp
next
  case (Emergency_Flush now g)
  then show ?thesis by (simp add: flush_begin_fields(2-))
qed simp_all

lemma committed_grows:
  "table_files tabs cfg st' = table_files tabs cfg st @ files \<Longrightarrow>
   committed file_rows tabs cfg st \<subseteq># committed file_rows tabs cfg st'"
  by (simp add: committed_def)

section \<open>Every step is one of the specification\<close>

lemma step_published:
  assumes "engine_laws X contents batch_rows rows file_rows cfg h tabs nss"
    and "engine_inv dup X contents file_rows cfg tabs nss st" and "step X contents file_rows cfg h st st'"
  shows "committed file_rows tabs cfg st \<subseteq># committed file_rows tabs cfg st'"
  using step_accounts [OF assms] committed_grows by metis

lemma step_refines_repeating:
  assumes laws: "engine_laws X contents batch_rows rows file_rows cfg h tabs nss"
    and inv: "engine_inv dup X contents file_rows cfg tabs nss st"
    and step: "step X contents file_rows cfg h st st'"
  shows "repeating_step\<^sup>*\<^sup>* (delivery_of (pq X) contents file_rows tabs cfg st)
    (delivery_of (pq X) contents file_rows tabs cfg st')"
proof -
  from step_engine_inv [OF laws inv step] obtain extra where
    inv': "engine_inv (dup + extra) X contents file_rows cfg tabs nss st'"
    and extra: "set_mset extra \<subseteq> set_mset (buffered (pq X) contents file_rows st)"
      "extra = {#} \<or> committed file_rows tabs cfg st + extra \<subseteq># committed file_rows tabs cfg st'" by blast
  then have "committed file_rows tabs cfg st + extra \<subseteq># committed file_rows tabs cfg st'"
    using step_published [OF laws inv step] by auto
  with step_accounts [OF laws inv step] extra(1) show ?thesis
    by (intro account_repeating [where es = extra] engine_accounted [OF inv] engine_accounted [OF inv'])
      (simp_all add: engine_repeats [OF inv] engine_repeats [OF inv'])
qed

text \<open>On a truthful catalog nothing is committed twice in a run.\<close>

lemma step_exact:
  assumes "engine_laws X contents batch_rows rows file_rows cfg h tabs nss"
    and "engine_inv dup X contents file_rows cfg tabs nss st" and "step X contents file_rows cfg h st st'"
    and "truthful (handle_catalog h) tabs"
  shows "engine_inv dup X contents file_rows cfg tabs nss st'"
  using step_engine_inv [OF assms(1-3)] assms(4) by auto

lemma step_refines_lossy:
  assumes laws: "engine_laws X contents batch_rows rows file_rows cfg h tabs nss"
    and inv: "engine_inv dup X contents file_rows cfg tabs nss st"
    and step: "step X contents file_rows cfg h st st'" and tr: "truthful (handle_catalog h) tabs"
  shows "lossy_step\<^sup>*\<^sup>* (delivery_of (pq X) contents file_rows tabs cfg st)
    (delivery_of (pq X) contents file_rows tabs cfg st')"
proof -
  note inv' = step_exact [OF laws inv step tr]
  show ?thesis
    using step_accounts [OF laws inv step] step_published [OF laws inv step]
    by (intro account_lossy engine_accounted [OF inv] engine_accounted [OF inv'])
      (simp_all add: engine_repeats [OF inv] engine_repeats [OF inv'])
qed

lemma step_refines_delivery:
  assumes laws: "engine_laws X contents batch_rows rows file_rows cfg h tabs nss"
    and inv: "engine_inv dup X contents file_rows cfg tabs nss st" and calm: "calm X contents st"
    and nl: "no_loss X contents file_rows st" and step: "step X contents file_rows cfg h st st'"
    and tr: "truthful (handle_catalog h) tabs"
  shows "delivery_step (delivery_of (pq X) contents file_rows tabs cfg st)
    (delivery_of (pq X) contents file_rows tabs cfg st')"
proof -
  note inv' = step_exact [OF laws inv step tr]
  note acc = engine_accounted [OF inv] engine_accounted [OF inv']
  note rpt = engine_repeats [OF inv] engine_repeats [OF inv']
  have none: "lost st = {#}" "lost st' = {#}"
    using nl step_no_loss [OF laws inv calm nl step] by (simp_all add: no_loss_def)
  note grows = step_published [OF laws inv step]
  from step_accounts [OF laws inv step] consider "accepted st' = accepted st" | "world st' = world st" by blast
  then show ?thesis
  proof cases
    case 1
    then show ?thesis using grows none by (intro account_publish acc) (simp_all add: rpt)
  next
    case 2
    then show ?thesis using step_accounts [OF laws inv step] none
      by (intro receive_account acc) (auto simp: committed_def rpt)
  qed
qed

text \<open>The laws as a side condition of the runs, with a truthful catalog for those that repeat nothing.\<close>

definition lawful ::
    "('p, 'd, 'w, 'e, 'b, 's, 'io, 'f, 'c, 't) externals \<Rightarrow> 'd contents \<Rightarrow> ('b \<Rightarrow> 'e list) \<Rightarrow> ('w \<Rightarrow> 'e list) \<Rightarrow>
     ('f \<Rightarrow> 'e list) \<Rightarrow> config \<Rightarrow> ('c, 't, 's, 'io, 'f) catalog catalog_handle \<Rightarrow>
     ('c, 'f) snapshots \<Rightarrow> 'c namespaces \<Rightarrow> 'p \<Rightarrow> (string \<Rightarrow> kv list option) \<Rightarrow> bool" where
  "lawful X contents batch_rows rows file_rows cfg h tabs nss path disk \<longleftrightarrow>
     engine_laws X contents batch_rows rows file_rows cfg h tabs nss \<and> path_laws X contents path disk"

interpretation lossy_run: refinement_system
  "\<lambda>st. lawful X contents batch_rows rows file_rows cfg h tabs nss path disk \<and> truthful (handle_catalog h) tabs \<and>
     booted X contents file_rows cfg tabs path st \<and> st = start"
  "step X contents file_rows cfg h"
  "\<lambda>st. engine_laws X contents batch_rows rows file_rows cfg h tabs nss \<and> truthful (handle_catalog h) tabs \<and>
     engine_inv {#} X contents file_rows cfg tabs nss st"
  "delivery_of (pq X) contents file_rows tabs cfg"
  "\<lambda>q. q = delivery_of (pq X) contents file_rows tabs cfg start" lossy_step
  for X contents file_rows cfg tabs path h batch_rows rows nss disk start
  by unfold_locales
    (auto simp: lawful_def intro: booted_inv step_exact step_refines_lossy)

interpretation calm_run: refinement_system
  "\<lambda>st. lawful X contents batch_rows rows file_rows cfg h tabs nss path disk \<and> truthful (handle_catalog h) tabs \<and>
     booted X contents file_rows cfg tabs path st \<and> st = start"
  "\<lambda>st st'. calm X contents st \<and> step X contents file_rows cfg h st st'"
  "\<lambda>st. engine_laws X contents batch_rows rows file_rows cfg h tabs nss \<and> truthful (handle_catalog h) tabs \<and>
     engine_inv {#} X contents file_rows cfg tabs nss st \<and> no_loss X contents file_rows st"
  "delivery_of (pq X) contents file_rows tabs cfg"
  "\<lambda>q. q = delivery_of (pq X) contents file_rows tabs cfg start" delivery_step
  for X contents file_rows cfg tabs path h batch_rows rows nss disk start
  by unfold_locales
    (auto simp: lawful_def intro: booted_inv booted_no_loss step_exact step_no_loss step_refines_delivery)

end
