(* ===== verification/Engine_Shutdown.thy ===== *)
theory Engine_Shutdown
  imports Engine_Invariant
begin

text \<open>
  The end of a run: after the emergency flush the engine only works off what is left. Every step
  but those of the ingest handlers and of the server makes the amount of work smaller, and as
  long as there is a permit to be had, some step is possible until the process is gone.
\<close>

section \<open>The work that is left\<close>

text \<open>
  A waiting task needs a permit, a run and a commit, and its family is then to be dropped; the exit
  itself is the last step.
\<close>

definition drain_work :: "('d, 'c, 's, 'io, 'f, 'e) engine \<Rightarrow> nat" where
  "drain_work st =
     4 * length (waiting st) + 3 * length (running st) + 2 * length (channel st) + length (dropping st) +
     (if main st = Exited then 0 else 1)"

text \<open>A step of the ingest handlers or of the server leaves the tasks and the requests as they are.\<close>

definition idle_step :: "('d, 'c, 's, 'io, 'f, 'e) engine \<Rightarrow> ('d, 'c, 's, 'io, 'f, 'e) engine \<Rightarrow> bool" where
  "idle_step st st' \<longleftrightarrow>
     waiting st' = waiting st \<and> running st' = running st \<and> channel st' = channel st \<and> dropping st' = dropping st \<and>
     main st' = main st"

lemma finish_task_work:
  "waiting (finish_task X uuid t st) = waiting st \<and> running (finish_task X uuid t st) = running st \<and>
   main (finish_task X uuid t st) = main st \<and> dropping (finish_task X uuid t st) = dropping st \<and>
   length (channel (finish_task X uuid t st)) \<le> Suc (length (channel st))"
  by (simp add: finish_task_def split: prod.splits option.splits)

lemma commit_step_work:
  "waiting (commit_step X h cfg batch st) = waiting st \<and> running (commit_step X h cfg batch st) = running st \<and>
   main (commit_step X h cfg batch st) = main st \<and> channel (commit_step X h cfg batch st) = channel st \<and>
   dropping (commit_step X h cfg batch st) \<in> {batch, dropping st}"
  by (simp add: commit_step_def split: prod.splits)

lemma drop_step_work:
  "waiting (drop_step X contents file_rows req st) = waiting st \<and>
   running (drop_step X contents file_rows req st) = running st \<and>
   main (drop_step X contents file_rows req st) = main st \<and>
   channel (drop_step X contents file_rows req st) = channel st \<and>
   dropping (drop_step X contents file_rows req st) = dropping st"
  by (simp add: drop_step_def split: prod.splits sum.splits)

lemma append_idle: "idle_step st (append_begin v st)" "idle_step (st\<lparr>appends := as\<rparr>) (append_finish X n v (st\<lparr>appends := as\<rparr>))"
  by (simp_all add: idle_step_def append_begin_def append_finish_def split: prod.splits sum.splits)

section \<open>Every step works something off\<close>

lemma drain_step:
  assumes "main st = Draining" and "\<not> loop_running st" and "step X contents file_rows cfg h st st'" and "flushing st = None"
  shows "idle_step st st' \<or> drain_work st' < drain_work st"
  using assms(3)
proof (cases rule: step_elim)
  case (Append_Begin v)
  then show ?thesis by (simp add: append_idle)
next
  case (Append_Finish as n v bs)
  then show ?thesis using append_idle(2) [where st = st and as = "as @ bs" and X = X and n = n and v = v] by (simp add: idle_step_def)
next
  case (Finish_Task as t bs uuid)
  then show ?thesis using finish_task_work [of X uuid t "st\<lparr>running := as @ bs\<rparr>"] by (simp add: drain_work_def)
next
  case (Commit_Round batch rest)
  then show ?thesis
    using commit_step_work [of X h cfg batch "st\<lparr>channel := rest\<rparr>"]
    by (cases batch) (auto simp: drain_work_def)
next
  case (Drop_Family req rest)
  then show ?thesis
    using drop_step_work [of X contents file_rows req "st\<lparr>dropping := rest\<rparr>"] by (simp add: drain_work_def)
next
  case (Grpc_Fail serve e)
  then show ?thesis by (simp add: idle_step_def)
qed (use assms in \<open>auto simp: drain_work_def\<close>)

lemma drain_progress:
  assumes phase: "main st = Draining" and permits: "concurrent_cf_flushes cfg \<noteq> 0"
  shows "\<exists>st'. step X contents file_rows cfg h st st' \<and> drain_work st' < drain_work st \<and> main st' \<in> {Draining, Exited}"
proof -
  consider (committed) req rest where "dropping st = req # rest"
    | (request) req rest where "dropping st = []" "channel st = req # rest"
    | (running) t bs where "running st = t # bs"
    | (waiting) t bs where "running st = []" "waiting st = t # bs"
    | (drained) "channel st = []" "running st = []" "waiting st = []" "dropping st = []"
    by (metis neq_Nil_conv)
  then show ?thesis
  proof cases
    case committed
    let ?st' = "drop_step X contents file_rows req (st\<lparr>dropping := rest\<rparr>)"
    have "step X contents file_rows cfg h st ?st'" using committed by (rule Drop_Family)
    moreover have "drain_work ?st' < drain_work st \<and> main ?st' = Draining"
      using committed phase by (simp add: drain_work_def drop_step_work)
    ultimately show ?thesis by blast
  next
    case request
    let ?st' = "commit_step X h cfg [req] (st\<lparr>channel := rest\<rparr>)"
    have "step X contents file_rows cfg h st ?st'" using request by (intro Commit_Round) simp_all
    moreover have "drain_work ?st' < drain_work st \<and> main ?st' = Draining"
      using request phase commit_step_work [of X h cfg "[req]" "st\<lparr>channel := rest\<rparr>"]
      by (auto simp: drain_work_def)
    ultimately show ?thesis by blast
  next
    case running
    let ?st' = "finish_task X ''u'' t (st\<lparr>running := bs\<rparr>)"
    have "step X contents file_rows cfg h st ?st'"
      using Finish_Task [of st "[]" t bs X contents file_rows cfg h "''u''"] running by simp
    moreover have "drain_work ?st' < drain_work st \<and> main ?st' = Draining"
      using finish_task_work [of X "''u''" t "st\<lparr>running := bs\<rparr>"] running phase by (simp add: drain_work_def)
    ultimately show ?thesis by blast
  next
    case waiting
    have "0 < unat (concurrent_cf_flushes cfg)" using permits by (simp add: unat_gt_0)
    then have "step X contents file_rows cfg h st (st\<lparr>waiting := bs, running := [t]\<rparr>)"
      using Acquire_Permit [of st "[]" t bs cfg X contents file_rows h] waiting by simp
    moreover have "drain_work (st\<lparr>waiting := bs, running := [t]\<rparr>) < drain_work st"
      "main (st\<lparr>waiting := bs, running := [t]\<rparr>) = Draining"
      using waiting phase by (simp_all add: drain_work_def)
    ultimately show ?thesis by blast
  next
    case drained
    then have "step X contents file_rows cfg h st (st\<lparr>main := Exited\<rparr>)"
      using phase by (intro Committer_Exit) simp_all
    moreover have "drain_work (st\<lparr>main := Exited\<rparr>) < drain_work st" "main (st\<lparr>main := Exited\<rparr>) = Exited"
      using phase by (simp_all add: drain_work_def)
    ultimately show ?thesis by blast
  qed
qed

lemma drain_completes:
  assumes "main st = Draining" and permits: "concurrent_cf_flushes cfg \<noteq> 0"
  shows "\<exists>st'. (step X contents file_rows cfg h)\<^sup>*\<^sup>* st st' \<and> main st' = Exited"
  using assms(1)
proof (induction "drain_work st" arbitrary: st rule: less_induct)
  case less
  from drain_progress [OF less.prems permits] obtain st1 where
    one: "step X contents file_rows cfg h st st1" "drain_work st1 < drain_work st" "main st1 \<in> {Draining, Exited}"
    by blast
  show ?case
  proof (cases "main st1 = Exited")
    case True
    with one(1) show ?thesis by blast
  next
    case False
    with one less.hyps obtain st' where "(step X contents file_rows cfg h)\<^sup>*\<^sup>* st1 st'" "main st' = Exited" by auto
    with one(1) show ?thesis by (meson converse_rtranclp_into_rtranclp)
  qed
qed

text \<open>Without permits a task that waits keeps the engine from ever exiting.\<close>

definition stuck :: "config \<Rightarrow> ('d, 'c, 's, 'io, 'f, 'e) engine \<Rightarrow> bool" where
  "stuck cfg st \<longleftrightarrow> unat (concurrent_cf_flushes cfg) = 0 \<and> waiting st \<noteq> [] \<and> main st \<noteq> Exited"

lemma step_stuck:
  assumes "stuck cfg st" and "step X contents file_rows cfg h st st'"
  shows "stuck cfg st'"
  using assms(2)
proof (cases rule: step_elim)
  case (Flush_End cfs)
  from Flush_End(2) assms(1) show ?thesis by (cases rule: flush_end_cases) (simp_all add: stuck_def)
qed (use assms(1) in \<open>auto simp: stuck_def append_begin_def append_finish_def finish_task_def commit_step_def drop_step_def
      flush_begin_fields(2-) split: prod.splits sum.splits\<close>)

lemma steps_stuck: "(step X contents file_rows cfg h)\<^sup>*\<^sup>* st st' \<Longrightarrow> stuck cfg st \<Longrightarrow> stuck cfg st'"
  by (induction rule: rtranclp_induct) (auto intro: step_stuck)

end
