(* ===== verification/Engine_Runs.thy ===== *)
theory Engine_Runs
  imports Engine_Refinement Engine_Shutdown
begin

text \<open>
  What holds of every run of the engine from its startup.
\<close>

section \<open>Properties\<close>

text \<open>C1: in every reachable state of the engine, whatever the interleaving and whatever calls of
  the database, the writer and the catalog fail, every event accepted so far, those found at
  startup included, is among the committed ones, the ones that are only in families, and
  the ones lost with a dropped family, as often as it was accepted; if the catalog reports no error for
  a commit it has made, they are exactly these: nothing is duplicated and nothing disappears
  unaccounted.\<close>

theorem engine_conserves_events:
  assumes "startup X J fs par env g at_path register registry c = Some (Ok (cfg, h, st0))"
    and "engine_laws X contents batch_rows rows file_rows cfg h tabs nss"
    and "path_laws X contents (at_path (rocksdb_path cfg)) disk"
    and "reach (\<lambda>s. s = note_found (pq X) contents file_rows tabs cfg st0)
      (step X contents file_rows cfg h) st"
  shows "accepted st \<subseteq># committed file_rows tabs cfg st + buffered (pq X) contents file_rows st + lost st \<and>
    (truthful (handle_catalog h) tabs \<longrightarrow>
       accepted st = committed file_rows tabs cfg st + buffered (pq X) contents file_rows st + lost st)"
proof -
  have "engine_ok X contents file_rows cfg h tabs nss st"
    using engine_run.reach_inv [OF run_from_startup [OF assms(1,4)]] assms(2,3) by blast
  from engine_ok_account [OF this] show ?thesis by blast
qed

text \<open>C5: in a run in which no append is overtaken by a rotation and scans are complete, no event
  is ever lost: every accepted event is in the table or in a family that is still to be committed, and
  exactly once if the catalog reports no error for a commit it has made.\<close>

theorem engine_loses_nothing_when_calm:
  assumes "startup X J fs par env g at_path register registry c = Some (Ok (cfg, h, st0))"
    and "engine_laws X contents batch_rows rows file_rows cfg h tabs nss"
    and "path_laws X contents (at_path (rocksdb_path cfg)) disk"
    and "reach (\<lambda>s. s = note_found (pq X) contents file_rows tabs cfg st0)
      (\<lambda>s s'. calm X contents s \<and> step X contents file_rows cfg h s s') st"
  shows "lost st = {#} \<and>
    buffered (pq X) contents file_rows st = (\<Sum>n \<leftarrow> tracked st. family_events (pq X) contents (store st) n) \<and>
    accepted st \<subseteq># committed file_rows tabs cfg st + buffered (pq X) contents file_rows st \<and>
    (truthful (handle_catalog h) tabs \<longrightarrow>
       accepted st = committed file_rows tabs cfg st + buffered (pq X) contents file_rows st)"
proof -
  have ok: "engine_ok X contents file_rows cfg h tabs nss st" and nl: "no_loss X contents file_rows st"
    using engine_run.reach_extra [OF run_from_startup [OF assms(1,4)]] assms(2,3) by blast+
  then have "lost st = {#}" by (simp add: no_loss_def)
  with engine_ok_account [OF ok] no_loss_buffered [OF nl] show ?thesis by simp
qed


text \<open>C30: at any time at most the configured number of pipelines run, also while flush cycles
  overlap; with the number zero, which the configuration accepts, no pipeline ever runs and
  nothing is ever handed to the committer.\<close>

theorem pipelines_bounded:
  assumes "startup X J fs par env g at_path register registry c = Some (Ok (cfg, h, st0))"
    and "engine_laws X contents batch_rows rows file_rows cfg h tabs nss"
    and "path_laws X contents (at_path (rocksdb_path cfg)) disk"
    and "reach (\<lambda>s. s = note_found (pq X) contents file_rows tabs cfg st0)
      (step X contents file_rows cfg h) st"
  shows "length (running st) \<le> unat (concurrent_cf_flushes cfg) \<and>
    (concurrent_cf_flushes cfg = 0 \<longrightarrow> running st = [] \<and> channel st = [] \<and> dropping st = [])"
proof -
  note run = run_from_startup [OF assms(1,4)]
  have "blocked cfg st" using engine_blocked.reach_inv [OF run] .
  with engine_run.reach_inv [OF run] assms(2,3) show ?thesis
    by (auto simp: engine_ok_def engine_inv_def tasks_ok_def blocked_def)
qed

text \<open>C7: on a catalog that reports no error for a commit it has made, every calm run of the engine is a
  run of the lossless delivery specification: with the events in
  the families as pending and the events in the table as published, each step of the engine is a
  receipt or a publication of pending events, and from the startup on the specification reaches
  the image of every state the engine reaches.\<close>

theorem engine_refines_delivery:
  assumes "startup X J fs par env g at_path register registry c = Some (Ok (cfg, h, st0))"
    and "engine_laws X contents batch_rows rows file_rows cfg h tabs nss"
    and "path_laws X contents (at_path (rocksdb_path cfg)) disk"
    and "reach (\<lambda>s. s = note_found (pq X) contents file_rows tabs cfg st0)
      (\<lambda>s s'. calm X contents s \<and> step X contents file_rows cfg h s s') st"
    and "truthful (handle_catalog h) tabs"
  shows "reach (\<lambda>q. q = delivery_of (pq X) contents file_rows tabs cfg
        (note_found (pq X) contents file_rows tabs cfg st0)) delivery_step
      (delivery_of (pq X) contents file_rows tabs cfg st) \<and>
    (\<forall>st'. calm X contents st \<and> step X contents file_rows cfg h st st' \<longrightarrow>
       delivery_step (delivery_of (pq X) contents file_rows tabs cfg st)
         (delivery_of (pq X) contents file_rows tabs cfg st'))"
proof -
  let ?start = "note_found (pq X) contents file_rows tabs cfg st0"
  have run: "reach (\<lambda>s. lawful X contents batch_rows rows file_rows cfg h tabs nss (at_path (rocksdb_path cfg)) disk \<and>
      truthful (handle_catalog h) tabs \<and> booted X contents file_rows cfg tabs (at_path (rocksdb_path cfg)) s \<and> s = ?start)
      (\<lambda>s s'. calm X contents s \<and> step X contents file_rows cfg h s s') st"
    using assms(4) by (rule reach_mono) (use startup_booted [OF assms(1)] assms(2,3,5) in \<open>auto simp: lawful_def\<close>)
  from calm_run.reach_inv [OF run] calm_run.reach_refines [OF run] show ?thesis
    using step_refines_delivery [OF assms(2) _ _ _ _ assms(5)] by blast
qed

text \<open>On such a catalog every run of the engine, whatever the interleaving and the failures, is a run
  of the delivery specification in which pending events may go missing; in particular what is published stays
  published.\<close>

theorem engine_refines_lossy_delivery:
  assumes "startup X J fs par env g at_path register registry c = Some (Ok (cfg, h, st0))"
    and "engine_laws X contents batch_rows rows file_rows cfg h tabs nss"
    and "path_laws X contents (at_path (rocksdb_path cfg)) disk"
    and "reach (\<lambda>s. s = note_found (pq X) contents file_rows tabs cfg st0)
      (step X contents file_rows cfg h) st"
    and "step X contents file_rows cfg h st st'"
    and "truthful (handle_catalog h) tabs"
  shows "reach (\<lambda>q. q = delivery_of (pq X) contents file_rows tabs cfg
        (note_found (pq X) contents file_rows tabs cfg st0)) lossy_step
      (delivery_of (pq X) contents file_rows tabs cfg st) \<and>
    lossy_step\<^sup>*\<^sup>* (delivery_of (pq X) contents file_rows tabs cfg st)
      (delivery_of (pq X) contents file_rows tabs cfg st') \<and>
    committed file_rows tabs cfg st \<subseteq># committed file_rows tabs cfg st'"
proof -
  let ?start = "note_found (pq X) contents file_rows tabs cfg st0"
  have run: "reach (\<lambda>s. lawful X contents batch_rows rows file_rows cfg h tabs nss (at_path (rocksdb_path cfg)) disk \<and>
      truthful (handle_catalog h) tabs \<and> booted X contents file_rows cfg tabs (at_path (rocksdb_path cfg)) s \<and> s = ?start)
      (step X contents file_rows cfg h) st"
    using assms(4) by (rule reach_mono) (use startup_booted [OF assms(1)] assms(2,3,6) in \<open>auto simp: lawful_def\<close>)
  have inv: "engine_inv {#} X contents file_rows cfg tabs nss st" using lossy_run.reach_inv [OF run] by blast
  from lossy_run.reach_refines [OF run] step_refines_lossy [OF assms(2) inv assms(5,6)]
    step_published [OF assms(2) inv assms(5)] show ?thesis by blast
qed

text \<open>C11: in every reachable state each family of the engine in the database is in exactly one
  place, and no other family is: it is active, waiting for another attempt, frozen by a cycle in progress,
  in a task, in the channel, left over by a failed cycle, about to be dropped, or could not be
  dropped; every key of the active family is below the counter; the total of unflushed
  bytes is the active family's size plus the recorded sizes; and every request in the channel or of a
  family to be dropped is for the configured table and holds only events of its family.\<close>

theorem engine_well_formed:
  assumes "startup X J fs par env g at_path register registry c = Some (Ok (cfg, h, st0))"
    and "engine_laws X contents batch_rows rows file_rows cfg h tabs nss"
    and "path_laws X contents (at_path (rocksdb_path cfg)) disk"
    and "reach (\<lambda>s. s = note_found (pq X) contents file_rows tabs cfg st0)
      (step X contents file_rows cfg h) st"
  shows "distinct (active_cf (store st) # orphaned_cfs (store st) @
      (case flushing st of None \<Rightarrow> [] | Some cfs \<Rightarrow> cfs) @ map task_cf (waiting st) @
      map task_cf (running st) @ map cf_name (channel st) @ stranded st @
      map cf_name (dropping st) @ map cf_name (undropped st)) \<and>
    (\<forall>n. n \<in> set (known st) \<longleftrightarrow> contents (db (store st)) n \<noteq> None \<and> active_cf_timestamp n \<noteq> None) \<and>
    (\<exists>kvs. contents (db (store st)) (active_cf (store st)) = Some kvs \<and>
       (\<forall>(k, v) \<in> set kvs. k < to_be_bytes (counter (store st)))) \<and>
    unflushed_bytes (store st) = active_cf_bytes (store st) + total_of (frozen_cf_sizes (store st)) \<and>
    (\<forall>req \<in> set (channel st @ dropping st). map fst (table_data_files req) = [micewriter_table cfg] \<and>
       request_rows file_rows req \<subseteq># family_events (pq X) contents (store st) (cf_name req))"
proof -
  obtain dup where "engine_inv dup X contents file_rows cfg tabs nss st"
    using engine_run.reach_inv [OF run_from_startup [OF assms(1,4)]] assms(2,3)
    unfolding engine_ok_def by blast
  note parts = engine_invD [OF this]
  have "distinct (known st)" and fam: "\<forall>n. n \<in> set (known st) \<longleftrightarrow>
      contents (db (store st)) n \<noteq> None \<and> active_cf_timestamp n \<noteq> None"
    using parts(3) by (simp_all add: families_ok_def)
  then have "distinct (active_cf (store st) # orphaned_cfs (store st) @
      (case flushing st of None \<Rightarrow> [] | Some cfs \<Rightarrow> cfs) @ map task_cf (waiting st) @
      map task_cf (running st) @ map cf_name (channel st) @ stranded st @
      map cf_name (dropping st) @ map cf_name (undropped st))"
    unfolding known_def tracked_def settled_requests_def by simp
  moreover have "map fst (table_data_files req) = [micewriter_table cfg] \<and>
      request_rows file_rows req \<subseteq># family_events (pq X) contents (store st) (cf_name req)"
    if "req \<in> set (channel st @ dropping st)" for req
    using that parts(7) [of req] by (auto simp: requests_def settled_requests_def request_ok_def)
  ultimately show ?thesis
    using fam parts(1) by (simp only: store_inv_def keys_below_def) blast
qed

text \<open>C10: the shutdown ends. Once the emergency flush is over, every step other than one of the ingest
  handlers or of the server makes the work that is left smaller; with at least one permit some such
  step is possible until the engine has exited; with none, a waiting task keeps it from ever
  exiting.\<close>

theorem shutdown_drains:
  assumes "startup X J fs par env g at_path register registry c = Some (Ok (cfg, h, st0))"
    and "reach (\<lambda>s. s = note_found (pq X) contents file_rows tabs cfg st0)
      (step X contents file_rows cfg h) st"
    and "main st = Draining"
  shows "(\<forall>st'. step X contents file_rows cfg h st st' \<longrightarrow> idle_step st st' \<or> drain_work st' < drain_work st) \<and>
    (if concurrent_cf_flushes cfg \<noteq> 0
     then \<exists>st'. (step X contents file_rows cfg h)\<^sup>*\<^sup>* st st' \<and> main st' = Exited
     else waiting st \<noteq> [] \<longrightarrow> (\<forall>st'. (step X contents file_rows cfg h)\<^sup>*\<^sup>* st st' \<longrightarrow> main st' \<noteq> Exited))"
proof -
  have "exit_ok st" using engine_exit.reach_inv [OF run_from_startup [OF assms(1,2)]] .
  then have idle: "\<not> loop_running st" "flushing st = None" using assms(3) by (simp_all add: exit_ok_def)
  have works: "\<forall>st'. step X contents file_rows cfg h st st' \<longrightarrow> idle_step st st' \<or> drain_work st' < drain_work st"
    by (intro allI impI) (rule drain_step [OF assms(3) idle(1) _ idle(2)])
  show ?thesis
  proof (cases "concurrent_cf_flushes cfg = 0")
    case True
    have "main st' \<noteq> Exited" if "waiting st \<noteq> []" "(step X contents file_rows cfg h)\<^sup>*\<^sup>* st st'" for st'
      using steps_stuck [OF that(2)] that(1) assms(3) True by (simp add: stuck_def)
    with works True show ?thesis by simp
  next
    case False
    with works drain_completes [OF assms(3) False, of X contents file_rows h] show ?thesis by simp
  qed
qed

theorem engine_conserves_events_witness:
  "\<exists>cfg h st0 st. demo_startup = Some (Ok (cfg, h, st0)) \<and>
     reach (\<lambda>s. s = note_found mem_parquet (\<lambda>d. d) (\<lambda>f. f) mem_tables cfg st0)
       (step demo_externals (\<lambda>d. d) (\<lambda>f. f) cfg h) st \<and>
     accepted st = {#[5]#} \<and> committed (\<lambda>f. f) mem_tables cfg st + buffered mem_parquet (\<lambda>d. d) (\<lambda>f. f) st = {#}"
proof -
  from race_frozen obtain cfg h st0 st1 t where start: "demo_startup = Some (Ok (cfg, h, st0))"
    and "reach (\<lambda>s. s = note_found mem_parquet (\<lambda>d. d) (\<lambda>f. f) mem_tables cfg st0)
       (step demo_externals (\<lambda>d. d) (\<lambda>f. f) cfg h) st1"
    and "running st1 = [t]" "task_cf t = ''active''" "channel st1 = []" "appends st1 = [(''active'', [5])]"
      "db (store st1) ''active'' = Some []" "counter (store st1) = 1" "main st1 = Serving"
      "lost st1 = {#}" "accepted st1 = {#}" "dropping st1 = []" by blast
  then obtain st where run: "reach (\<lambda>s. s = note_found mem_parquet (\<lambda>d. d) (\<lambda>f. f) mem_tables cfg st0)
       (step demo_externals (\<lambda>d. d) (\<lambda>f. f) cfg h) st" and st: "accepted st = {#[5]#}" "lost st = {#[5]#}"
    using race_lost by blast
  note run' = run [unfolded demo_hyps(3) [OF start]]
  from engine_conserves_events [OF demo_hyps(1) [OF start] demo_laws [OF start] demo_hyps(2) [OF start] run'] st
  have "committed (\<lambda>f. f) mem_tables cfg st + buffered mem_parquet (\<lambda>d. d) (\<lambda>f. f) st = {#}"
    by (simp add: demo_pq demo_truthful [OF start])
  with start run st show ?thesis by blast
qed

theorem pipelines_bounded_witness:
  "\<exists>cfg h st0 st. demo_startup = Some (Ok (cfg, h, st0)) \<and>
     reach (\<lambda>s. s = note_found mem_parquet (\<lambda>d. d) (\<lambda>f. f) mem_tables cfg st0)
       (step demo_externals (\<lambda>d. d) (\<lambda>f. f) cfg h) st \<and>
     length (running st) = 1 \<and> 1 \<le> unat (concurrent_cf_flushes cfg)"
proof -
  from race_frozen obtain cfg h st0 st t where start: "demo_startup = Some (Ok (cfg, h, st0))"
    and run: "reach (\<lambda>s. s = note_found mem_parquet (\<lambda>d. d) (\<lambda>f. f) mem_tables cfg st0)
       (step demo_externals (\<lambda>d. d) (\<lambda>f. f) cfg h) st"
    and st: "running st = [t]" by blast
  note run' = run [unfolded demo_hyps(3) [OF start]]
  from pipelines_bounded [OF demo_hyps(1) [OF start] demo_laws [OF start] demo_hyps(2) [OF start] run'] st
  have "length (running st) = 1 \<and> 1 \<le> unat (concurrent_cf_flushes cfg)" by simp
  with start run show ?thesis by blast
qed

text \<open>C12: an accepted record can be lost. A run of the engine reaches a state in which one record
  has been accepted and has gone with a dropped family without being committed: it was written
  to the family when that had been frozen and scanned after the append had read its name.\<close>

theorem late_append_is_lost:
  "\<exists>cfg h st0 st. demo_startup = Some (Ok (cfg, h, st0)) \<and>
     reach (\<lambda>s. s = note_found mem_parquet (\<lambda>d. d) (\<lambda>f. f) mem_tables cfg st0)
       (step demo_externals (\<lambda>d. d) (\<lambda>f. f) cfg h) st \<and>
     accepted st = {#[5]#} \<and> lost st = {#[5]#}"
  using race_frozen race_lost by blast

theorem engine_loses_nothing_when_calm_witness:
  "\<exists>cfg h st0 st. demo_startup = Some (Ok (cfg, h, st0)) \<and>
     reach (\<lambda>s. s = note_found mem_parquet (\<lambda>d. d) (\<lambda>f. f) mem_tables cfg st0)
       (\<lambda>s s'. calm demo_externals (\<lambda>d. d) s \<and> step demo_externals (\<lambda>d. d) (\<lambda>f. f) cfg h s s') st \<and>
     committed (\<lambda>f. f) mem_tables cfg st + buffered mem_parquet (\<lambda>d. d) (\<lambda>f. f) st = {#[5]#}"
proof -
  from append_run obtain cfg h st0 st where start: "demo_startup = Some (Ok (cfg, h, st0))"
    and run: "reach (\<lambda>s. s = note_found mem_parquet (\<lambda>d. d) (\<lambda>f. f) mem_tables cfg st0)
       (\<lambda>s s'. calm demo_externals (\<lambda>d. d) s \<and> step demo_externals (\<lambda>d. d) (\<lambda>f. f) cfg h s s') st"
    and st: "accepted st = {#[5]#}" by blast
  note run' = run [unfolded demo_hyps(3) [OF start]]
  from engine_loses_nothing_when_calm [OF demo_hyps(1) [OF start] demo_laws [OF start] demo_hyps(2) [OF start] run'] st
  have "committed (\<lambda>f. f) mem_tables cfg st + buffered mem_parquet (\<lambda>d. d) (\<lambda>f. f) st = {#[5]#}"
    by (simp add: demo_pq demo_truthful [OF start])
  with start run show ?thesis by blast
qed


theorem engine_refines_delivery_witness:
  "\<exists>cfg h st0 (st :: demo_engine). demo_startup = Some (Ok (cfg, h, st0)) \<and> accepted st = {#[5]#} \<and>
     reach (\<lambda>q. q = delivery_of mem_parquet (\<lambda>d. d) (\<lambda>f. f) mem_tables cfg
         (note_found mem_parquet (\<lambda>d. d) (\<lambda>f. f) mem_tables cfg st0)) delivery_step
       (delivery_of mem_parquet (\<lambda>d. d) (\<lambda>f. f) mem_tables cfg st)"
proof -
  from append_run obtain cfg h st0 st where start: "demo_startup = Some (Ok (cfg, h, st0))"
    and run: "reach (\<lambda>s. s = note_found mem_parquet (\<lambda>d. d) (\<lambda>f. f) mem_tables cfg st0)
       (\<lambda>s s'. calm demo_externals (\<lambda>d. d) s \<and> step demo_externals (\<lambda>d. d) (\<lambda>f. f) cfg h s s') st"
    and st: "accepted st = {#[5]#}" by blast
  note run' = run [unfolded demo_hyps(3) [OF start]]
  note engine_refines_delivery [OF demo_hyps(1) [OF start] demo_laws [OF start] demo_hyps(2) [OF start] run'
      demo_truthful [OF start], unfolded demo_hyps(3) [OF start, symmetric] demo_pq]
  with start st show ?thesis by blast
qed

theorem engine_refines_lossy_delivery_witness:
  "\<exists>cfg h st0 (st :: demo_engine). demo_startup = Some (Ok (cfg, h, st0)) \<and> appends st = [(''active'', [5])] \<and>
     reach (\<lambda>q. q = delivery_of mem_parquet (\<lambda>d. d) (\<lambda>f. f) mem_tables cfg
         (note_found mem_parquet (\<lambda>d. d) (\<lambda>f. f) mem_tables cfg st0)) lossy_step
       (delivery_of mem_parquet (\<lambda>d. d) (\<lambda>f. f) mem_tables cfg st)"
proof -
  from race_frozen obtain cfg h st0 st where start: "demo_startup = Some (Ok (cfg, h, st0))"
    and run: "reach (\<lambda>s. s = note_found mem_parquet (\<lambda>d. d) (\<lambda>f. f) mem_tables cfg st0)
       (step demo_externals (\<lambda>d. d) (\<lambda>f. f) cfg h) st"
    and st: "appends st = [(''active'', [5])]" "main st = Serving" by blast
  have "step demo_externals (\<lambda>d. d) (\<lambda>f. f) cfg h st (st\<lparr>main := Stopping\<rparr>)" by (rule Signal [where registered = True]) (simp_all add: st wait_for_shutdown_def)
  note engine_refines_lossy_delivery [OF demo_hyps(1) [OF start] demo_laws [OF start] demo_hyps(2) [OF start]
      run [unfolded demo_hyps(3) [OF start]] this demo_truthful [OF start], unfolded demo_hyps(3) [OF start, symmetric] demo_pq]
  with start st(1) show ?thesis by blast
qed

theorem engine_well_formed_witness:
  "\<exists>cfg h st0 st. demo_startup = Some (Ok (cfg, h, st0)) \<and>
     reach (\<lambda>s. s = note_found mem_parquet (\<lambda>d. d) (\<lambda>f. f) mem_tables cfg st0)
       (step demo_externals (\<lambda>d. d) (\<lambda>f. f) cfg h) st \<and>
     map task_cf (running st) = [''active''] \<and> active_cf (store st) \<noteq> ''active''"
proof -
  from race_frozen obtain cfg h st0 st t where start: "demo_startup = Some (Ok (cfg, h, st0))"
    and run: "reach (\<lambda>s. s = note_found mem_parquet (\<lambda>d. d) (\<lambda>f. f) mem_tables cfg st0)
       (step demo_externals (\<lambda>d. d) (\<lambda>f. f) cfg h) st"
    and st: "running st = [t]" "task_cf t = ''active''" by blast
  from engine_well_formed [OF demo_hyps(1) [OF start] demo_laws [OF start] demo_hyps(2) [OF start]
      run [unfolded demo_hyps(3) [OF start]]] st
  have "map task_cf (running st) = [''active'']" "active_cf (store st) \<noteq> ''active''" by auto
  with start run show ?thesis by (intro exI conjI)
qed

theorem shutdown_drains_witness:
  "\<exists>cfg h st0 st st'. demo_startup = Some (Ok (cfg, h, st0)) \<and>
     reach (\<lambda>s. s = note_found mem_parquet (\<lambda>d. d) (\<lambda>f. f) mem_tables cfg st0)
       (step demo_externals (\<lambda>d. d) (\<lambda>f. f) cfg h) st \<and>
     waiting st \<noteq> [] \<and> (step demo_externals (\<lambda>d. d) (\<lambda>f. f) cfg h)\<^sup>*\<^sup>* st st' \<and> main st' = Exited"
proof -
  from drain_run obtain cfg h st0 st t where start: "demo_startup = Some (Ok (cfg, h, st0))"
    and two: "unat (concurrent_cf_flushes cfg) = 2"
    and run: "reach (\<lambda>s. s = note_found mem_parquet (\<lambda>d. d) (\<lambda>f. f) mem_tables cfg st0)
       (\<lambda>s s'. calm demo_externals (\<lambda>d. d) s \<and> step demo_externals (\<lambda>d. d) (\<lambda>f. f) cfg h s s') st"
    and st: "waiting st = [t]" "main st = Draining" by blast
  have run': "reach (\<lambda>s. s = note_found mem_parquet (\<lambda>d. d) (\<lambda>f. f) mem_tables cfg st0)
      (step demo_externals (\<lambda>d. d) (\<lambda>f. f) cfg h) st"
    using run by (rule reach_mono) auto
  have "concurrent_cf_flushes cfg \<noteq> 0" using two by auto
  with shutdown_drains [OF demo_hyps(1) [OF start] run' [unfolded demo_hyps(3) [OF start]] st(2)]
  obtain st' where "(step demo_externals (\<lambda>d. d) (\<lambda>f. f) cfg h)\<^sup>*\<^sup>* st st'" "main st' = Exited" by auto
  moreover have "waiting st \<noteq> []" using st(1) by simp
  ultimately show ?thesis using start run' by blast
qed

end
