(* ===== verification/Engine_Restart.thy ===== *)
theory Engine_Restart
  imports Engine_Refinement
begin

text \<open>
  Lives of the engine over several processes: at any time the process may be gone, by a crash or
  after its exit, and another one is started on the same directory and catalog with the same
  configuration. What the first one kept in memory is gone; the database has what it had. A life
  accounts for every event, and refines the specification in which published events may become
  pending again.
\<close>

section \<open>Restarts\<close>

text \<open>
  The state of the new process: opened on the directory, with an empty cache; the accounts go on.
\<close>

definition restarted ::
    "'d rocks_store \<Rightarrow> ('d, 'c, 's, 'io, 'f, 'e) engine \<Rightarrow> ('d, 'c, 's, 'io, 'f, 'e) engine" where
  "restarted s st = (boot s (cat (world st)))\<lparr>accepted := accepted st, lost := lost st\<rparr>"

text \<open>
  \<open>path\<close> is what lies on disk when the new process opens it: the data the database had, of which
  RocksDB can list the families.
\<close>

definition restart ::
    "('p, 'd, 'w, 'e, 'b, 's, 'io, 'f, 'c, 't) externals \<Rightarrow> 'd contents \<Rightarrow> config \<Rightarrow>
     ('d, 'c, 's, 'io, 'f, 'e) engine \<Rightarrow> ('d, 'c, 's, 'io, 'f, 'e) engine \<Rightarrow> bool" where
  "restart X contents cfg st st' \<longleftrightarrow>
     (\<exists>path names g s.
        open_law (rocks X) contents path (contents (db (store st))) \<and> list_cf (rocks X) path = Ok names \<and>
        new (rocks X) g path (cfg_flush_size_bytes cfg) (cfg_flush_size_jitter_bytes cfg)
          (rocksdb_sync_writes cfg) (cfg_write_buffer_size cfg) = Ok s \<and>
        st' = restarted s st)"

definition life_step ::
    "('p, 'd, 'w, 'e, 'b, 's, 'io, 'f, 'c, 't) externals \<Rightarrow> 'd contents \<Rightarrow> ('f \<Rightarrow> 'e list) \<Rightarrow> config \<Rightarrow>
     ('c, 't, 's, 'io, 'f) catalog catalog_handle \<Rightarrow>
     ('d, 'c, 's, 'io, 'f, 'e) engine \<Rightarrow> ('d, 'c, 's, 'io, 'f, 'e) engine \<Rightarrow> bool" where
  "life_step X contents file_rows cfg h st st' \<longleftrightarrow>
     step X contents file_rows cfg h st st' \<or> restart X contents cfg st st'"

text \<open>A life whose processes are calm; they may be gone at any time.\<close>

definition calm_life_step ::
    "('p, 'd, 'w, 'e, 'b, 's, 'io, 'f, 'c, 't) externals \<Rightarrow> 'd contents \<Rightarrow> ('f \<Rightarrow> 'e list) \<Rightarrow> config \<Rightarrow>
     ('c, 't, 's, 'io, 'f) catalog catalog_handle \<Rightarrow>
     ('d, 'c, 's, 'io, 'f, 'e) engine \<Rightarrow> ('d, 'c, 's, 'io, 'f, 'e) engine \<Rightarrow> bool" where
  "calm_life_step X contents file_rows cfg h st st' \<longleftrightarrow>
     calm X contents st \<and> step X contents file_rows cfg h st st' \<or> restart X contents cfg st st'"

section \<open>What a restart finds\<close>

lemma left_by_engine:
  assumes inv: "engine_inv dup X contents file_rows cfg tabs nss st"
    and opn: "open_law (rocks X) contents path (contents (db (store st)))"
    and names: "list_cf (rocks X) path = Ok names"
  shows "engine_path (rocks X) path (contents (db (store st)))"
proof -
  have "active_cf (store st) \<in> set (known st)" by (simp add: place_defs)
  then have act: "contents (db (store st)) (active_cf (store st)) \<noteq> None"
    "active_cf_timestamp (active_cf (store st)) \<noteq> None"
    using engine_invD(3) [OF inv] by (simp_all add: families_ok_def)
  then have "active_cf (store st) \<in> set names" using opn names by (auto simp: open_law_def)
  with act(2) have "active_cf (store st) \<in> set (engine_cfs names)" by (simp add: engine_cfs_def)
  then have "engine_cfs names \<noteq> []" by auto
  then show ?thesis
    using engine_invD(5) [OF inv] names by (auto simp: engine_path_def keys_ok_def counter_keys_def)
qed

lemma restart_families:
  assumes laws: "rocksdb_laws (rocks X) contents" and inv: "engine_inv dup X contents file_rows cfg tabs nss st"
    and opn: "open_law (rocks X) contents path (contents (db (store st)))"
    and names: "list_cf (rocks X) path = Ok names"
    and new: "new (rocks X) g path fs fj sync wbs = Ok s"
  shows "store_inv contents s" and "mset (active_cf s # orphaned_cfs s) = mset (known st)"
    and "n \<in> set (known st) \<Longrightarrow> contents (db s) n = contents (db (store st)) n"
    and "contents (db s) n = Some kvs \<Longrightarrow> counter_keys kvs"
    and "n \<in> set (active_cf s # orphaned_cfs s) \<longleftrightarrow> contents (db s) n \<noteq> None \<and> active_cf_timestamp n \<noteq> None"
proof -
  note path = left_by_engine [OF inv opn names]
  note found = new_engine_families [OF laws opn path new]
  show "store_inv contents s" by (rule new_store_inv [OF laws opn path new])
  show "contents (db s) n = Some kvs \<Longrightarrow> counter_keys kvs" by (rule found(3))
  have fam: "n \<in> set (known st) \<longleftrightarrow> contents (db (store st)) n \<noteq> None \<and> active_cf_timestamp n \<noteq> None" for n
    using engine_invD(3) [OF inv] by (simp add: families_ok_def)
  show same: "contents (db s) n = contents (db (store st)) n" if "n \<in> set (known st)" for n
    using that fam found(2) by blast
  have "set names = dom (contents (db (store st)))" using opn names by (auto simp: open_law_def)
  moreover obtain a orphans where sel: "select_cfs (opened_cfs (rocks X) path) = (a, orphans)" by force
  note new_fields(1) [OF new sel]
  ultimately have none: "contents (db s) n = None" if "contents (db (store st)) n = None" "n \<noteq> ''default''" for n
    using that opn unfolding open_law_def by (fastforce simp: opened_cfs_def names image_image)
  have "set (active_cf s # orphaned_cfs s) = set (known st)"
    using found(1) fam same none active_cf_timestamp_default by (metis (no_types, lifting) subsetI subset_antisym)
  moreover have "distinct (active_cf s # orphaned_cfs s)" by (rule new_families(1) [OF laws opn path new])
  moreover have "distinct (known st)" using engine_invD(3) [OF inv] by (simp add: families_ok_def)
  ultimately show "mset (active_cf s # orphaned_cfs s) = mset (known st)"
    by (simp only: set_eq_iff_mset_eq_distinct [symmetric])
  show "n \<in> set (active_cf s # orphaned_cfs s) \<longleftrightarrow> contents (db s) n \<noteq> None \<and> active_cf_timestamp n \<noteq> None"
    by (rule found(1))
qed

lemma restarted_fields:
  "store (restarted s st) = s" "requests (restarted s st) = []"
  "settled_requests (restarted s st) = []" "known (restarted s st) = active_cf s # orphaned_cfs s"
  "accepted (restarted s st) = accepted st" "lost (restarted s st) = lost st"
  "committed fr tabs cfg (restarted s st) = committed fr tabs cfg st"
  "settled fr (restarted s st) = {#}"
  by (simp_all add: restarted_def boot_def place_defs account_defs files_of_def)

lemma restarted_inv:
  assumes laws: "rocksdb_laws (rocks X) contents" and inv: "engine_inv dup X contents file_rows cfg tabs nss st"
    and opn: "open_law (rocks X) contents path (contents (db (store st)))"
    and names: "list_cf (rocks X) path = Ok names"
    and new: "new (rocks X) g path fs fj sync wbs = Ok s"
  shows "engine_inv (dup + settled file_rows st) X contents file_rows cfg tabs nss (restarted s st)"
    and "stored (pq X) contents (restarted s st) = stored (pq X) contents st"
proof -
  let ?st = "restarted s st"
  note fam = restart_families [OF laws inv opn names new]
  have "(\<Sum>n \<in># mset (known st). family_events (pq X) contents s n) =
      (\<Sum>n \<in># mset (known st). family_events (pq X) contents (store st) n)"
    using fam(3) by (intro arg_cong [where f = sum_mset] image_mset_cong family_events_cong) simp
  then show sto: "stored (pq X) contents ?st = stored (pq X) contents st"
    unfolding stored_mset restarted_fields fam(2) .
  have "distinct (active_cf s # orphaned_cfs s) = distinct (known st)"
    by (rule mset_eq_imp_distinct_iff [OF fam(2)])
  then have "families_ok contents ?st"
    using fam(5) engine_invD(3) [OF inv] by (simp add: families_ok_def restarted_fields)
  moreover have "keys_ok contents ?st" using fam(4) by (simp add: keys_ok_def restarted_fields)
  moreover have "account_ok (dup + settled file_rows st) (pq X) contents file_rows tabs cfg ?st"
    using engine_invD(8) [OF inv] by (simp add: account_ok_def sto restarted_fields ac_simps)
  ultimately show "engine_inv (dup + settled file_rows st) X contents file_rows cfg tabs nss ?st"
    using fam(1) by (simp add: engine_inv_def restarted_fields)
      (simp add: restarted_def boot_def cache_inv_def appends_ok_def tasks_ok_def)
qed

lemma restarted_no_loss: "no_loss X contents file_rows st \<Longrightarrow> no_loss X contents file_rows (restarted s st)"
  by (simp add: no_loss_def restarted_fields)

section \<open>Every life\<close>

lemma life_step_inv:
  assumes laws: "engine_laws X contents batch_rows rows file_rows cfg h tabs nss"
    and inv: "engine_inv dup X contents file_rows cfg tabs nss st"
    and step: "life_step X contents file_rows cfg h st st'"
  shows "\<exists>dup'. engine_inv dup' X contents file_rows cfg tabs nss st'"
proof -
  have "rocksdb_laws (rocks X) contents" using laws by (simp add: engine_laws_def)
  from step restarted_inv(1) [OF this inv] step_engine_inv [OF laws inv] show ?thesis
    unfolding life_step_def restart_def by blast
qed

lemma calm_life_step_no_loss:
  assumes laws: "engine_laws X contents batch_rows rows file_rows cfg h tabs nss"
    and inv: "engine_inv dup X contents file_rows cfg tabs nss st" and nl: "no_loss X contents file_rows st"
    and step: "calm_life_step X contents file_rows cfg h st st'"
  shows "(\<exists>dup'. engine_inv dup' X contents file_rows cfg tabs nss st') \<and> no_loss X contents file_rows st'"
proof -
  have "life_step X contents file_rows cfg h st st'"
    using step by (auto simp: calm_life_step_def life_step_def)
  from life_step_inv [OF laws inv this] step show ?thesis
    using step_no_loss [OF laws inv _ nl] restarted_no_loss [OF nl]
    by (auto simp: calm_life_step_def restart_def)
qed

text \<open>A restart is a repetition of the events that were settled.\<close>

lemma restart_accounts:
  assumes laws: "engine_laws X contents batch_rows rows file_rows cfg h tabs nss"
    and inv: "engine_inv dup X contents file_rows cfg tabs nss st" and step: "restart X contents cfg st st'"
  shows "engine_inv (dup + settled file_rows st) X contents file_rows cfg tabs nss st'"
    and "buffered (pq X) contents file_rows st' = buffered (pq X) contents file_rows st + settled file_rows st"
    and "accepted st' = accepted st \<and> lost st' = lost st \<and>
      committed file_rows tabs cfg st' = committed file_rows tabs cfg st"
    and "mset (active_cf (store st') # orphaned_cfs (store st')) = mset (known st)"
    and "n \<in> set (known st) \<Longrightarrow> contents (db (store st')) n = contents (db (store st)) n"
proof -
  from step obtain path names g s where
    opened: "open_law (rocks X) contents path (contents (db (store st)))" "list_cf (rocks X) path = Ok names"
      "new (rocks X) g path (cfg_flush_size_bytes cfg) (cfg_flush_size_jitter_bytes cfg)
        (rocksdb_sync_writes cfg) (cfg_write_buffer_size cfg) = Ok s"
    and st': "st' = restarted s st" by (auto simp: restart_def)
  have rl: "rocksdb_laws (rocks X) contents" using laws by (simp add: engine_laws_def)
  note ri = restarted_inv [OF rl inv opened]
  note fam = restart_families [OF rl inv opened]
  show "engine_inv (dup + settled file_rows st) X contents file_rows cfg tabs nss st'" unfolding st' by (rule ri(1))
  have "buffered (pq X) contents file_rows st' = stored (pq X) contents st"
    by (simp add: buffered_def st' ri(2) restarted_fields)
  then show "buffered (pq X) contents file_rows st' = buffered (pq X) contents file_rows st + settled file_rows st"
    using settled_stored [OF inv] by (simp add: buffered_def)
  show "accepted st' = accepted st \<and> lost st' = lost st \<and>
      committed file_rows tabs cfg st' = committed file_rows tabs cfg st" by (simp add: st' restarted_fields)
  show "mset (active_cf (store st') # orphaned_cfs (store st')) = mset (known st)"
    unfolding st' restarted_fields by (rule fam(2))
  show "n \<in> set (known st) \<Longrightarrow> contents (db (store st')) n = contents (db (store st)) n"
    unfolding st' restarted_fields by (rule fam(3))
qed

lemma restart_refines:
  assumes laws: "engine_laws X contents batch_rows rows file_rows cfg h tabs nss"
    and inv: "engine_inv dup X contents file_rows cfg tabs nss st" and step: "restart X contents cfg st st'"
  shows "repeating_step (delivery_of (pq X) contents file_rows tabs cfg st)
    (delivery_of (pq X) contents file_rows tabs cfg st')"
proof -
  let ?q = "delivery_of (pq X) contents file_rows tabs cfg st" and ?es = "settled file_rows st"
  note acc = restart_accounts [OF laws inv step]
  have "delivery_of (pq X) contents file_rows tabs cfg st' =
      ?q\<lparr>pending := pending ?q + ?es, repeated := repeated ?q + ?es\<rparr>"
    using acc(2,3) by (simp add: delivery_of_def engine_repeats [OF inv] engine_repeats [OF acc(1)])
  moreover have "?es \<subseteq># published ?q" using engine_invD(8) [OF inv] by (simp add: account_ok_def)
  ultimately show ?thesis by (metis Repeat)
qed

lemma life_step_refines:
  assumes "engine_laws X contents batch_rows rows file_rows cfg h tabs nss"
    and "engine_inv dup X contents file_rows cfg tabs nss st" and "life_step X contents file_rows cfg h st st'"
  shows "repeating_step\<^sup>*\<^sup>* (delivery_of (pq X) contents file_rows tabs cfg st)
    (delivery_of (pq X) contents file_rows tabs cfg st')"
  using assms(3) step_refines_repeating [OF assms(1,2)] restart_refines [OF assms(1,2)]
  by (auto simp: life_step_def)

interpretation life: refinement_system
  "\<lambda>st. lawful X contents batch_rows rows file_rows cfg h tabs nss path disk \<and>
     booted X contents file_rows cfg tabs path st \<and> st = start"
  "life_step X contents file_rows cfg h"
  "\<lambda>st. engine_laws X contents batch_rows rows file_rows cfg h tabs nss \<and>
     (\<exists>dup. engine_inv dup X contents file_rows cfg tabs nss st)"
  "delivery_of (pq X) contents file_rows tabs cfg"
  "\<lambda>q. q = delivery_of (pq X) contents file_rows tabs cfg start" repeating_step
  for X contents file_rows cfg tabs path h batch_rows rows nss disk start
  by unfold_locales (auto simp: lawful_def intro: booted_inv life_step_inv life_step_refines)

interpretation calm_life: invariant_system
  "\<lambda>st. lawful X contents batch_rows rows file_rows cfg h tabs nss path disk \<and>
     booted X contents file_rows cfg tabs path st"
  "calm_life_step X contents file_rows cfg h"
  "\<lambda>st. engine_laws X contents batch_rows rows file_rows cfg h tabs nss \<and>
     (\<exists>dup. engine_inv dup X contents file_rows cfg tabs nss st) \<and> no_loss X contents file_rows st"
  for X contents file_rows cfg tabs path h batch_rows rows nss disk
  by unfold_locales (auto simp: lawful_def intro: booted_inv booted_no_loss dest: calm_life_step_no_loss)

end
