(* ===== verification/Engine_Lives.thy ===== *)
theory Engine_Lives
  imports Engine_Restart
begin

text \<open>
  What holds of every life of the engine, with a concrete life in which the process is gone after a
  commit and before the family of the committed events is dropped.
\<close>

section \<open>A life with a restart\<close>

text \<open>A catalog in which the table of the engine exists and is cached.\<close>

definition mem_ready :: "string \<Rightarrow> 'f mem_catalog_state world \<Rightarrow> bool" where
  "mem_ready n w \<longleftrightarrow>
     mem_tables (cat w) (analytics, n) = Some [] \<and> failures (cat w) = 0 \<and>
     join ''/'' analytics \<in> known_namespaces (ice w) \<and> table_key analytics n \<in> known_tables (ice w)"

lemma mem_context_ready:
  "\<exists>ctx w. get_table_write_context (Glue_Handle mem_catalog) n analytics defs (mem_world 0) = (Ok ctx, w) \<and> mem_ready n w"
  by (simp add: get_table_write_context_def get_or_create_table_def mem_world_def analytics_def mem_ready_def
      ensure_namespace_def bind_w_def on_cat_def return_w_def note_namespace_def note_table_def
      mem_catalog_simps mem_schema Let_def)

lemma mem_flush_ready:
  fixes h :: "('f mem_catalog_state, table_ident, nested_field list, unit, 'f) catalog catalog_handle"
  assumes "build_catalog mem_load mem_load cfg = Some (Ok h)" and "db s (rotated_cf_name now) = None"
  shows "\<exists>tasks s' w'. do_flush mem_db g mem_load mem_load now cfg s
    (mem_world 0 :: 'f mem_catalog_state world) = (Some (Ok tasks), s', w') \<and> mem_ready (micewriter_table cfg) w'"
proof -
  have h: "get_table_write_context h = get_table_write_context (Glue_Handle mem_catalog)"
    using assms(1) by (auto simp: build_catalog_defs get_table_write_context_def fun_eq_iff
        split: catalog_type.splits option.splits)
  obtain ctx w where ctx: "get_table_write_context h (micewriter_table cfg) analytics (field_defs cfg)
      (mem_world 0) = (Ok ctx, w)" "mem_ready (micewriter_table cfg) w" unfolding h using mem_context_ready by blast
  obtain f s2 where rot: "rotate mem_db g now (s\<lparr>orphaned_cfs := []\<rparr>) = (Ok f, s2)"
    using assms(2) by (simp add: rotate_def mem_db_def Let_def)
  show ?thesis
    using assms(1) ctx rot by (simp add: do_flush_def freeze_cfs_def spawn_tasks_def get_orphaned_cfs_def Let_def)
qed

lemma mem_commit_ready:
  fixes w :: "'f mem_catalog_state world"
  assumes "mem_ready n w" and "handle_catalog h = mem_catalog" and "files \<noteq> []"
  shows "\<exists>w'. commit_batch (\<lambda>m. m) h cfg [\<lparr> cf_name = f, table_data_files = [(n, files)] \<rparr>] w = (True, w') \<and>
    mem_tables (cat w') (analytics, n) = Some files"
proof -
  have first: "[1..<max_attempts + 1] = 1 # [2..<max_attempts + 1]"
    using upt_conv_Cons [of 1 "max_attempts + 1"] by (simp add: max_attempts_def numeral_2_eq_2)
  have "get_or_create_table mem_catalog n analytics defs w = (Ok (analytics, n), w)" for defs
    using assms(1) by (simp add: get_or_create_table_def mem_ready_def ensure_namespace_def bind_w_def on_cat_def
        mem_catalog_simps Let_def analytics_def) (simp add: mem_catalog_def)
  moreover have "\<exists>w'. commit_with_retry mem_catalog (analytics, n) files w = (Ok (), w') \<and>
      mem_tables (cat w') (analytics, n) = Some files"
    using assms(1) unfolding commit_with_retry_def first
    by (simp add: on_cat_def mem_ready_def mem_catalog_def)
  ultimately have "\<exists>w'. do_commit_data_files mem_catalog n analytics files (field_defs cfg) w = (Ok (), w') \<and>
      mem_tables (cat w') (analytics, n) = Some files"
    by (auto simp: do_commit_data_files_def bind_w_def)
  moreover have "commit_data_files h n analytics files (field_defs cfg) w =
      do_commit_data_files mem_catalog n analytics files (field_defs cfg) w"
    using assms(2,3) by (cases h) (simp_all add: commit_data_files_def)
  ultimately show ?thesis
    using assms(3) by (auto simp: commit_batch_def collect_data_files_def extend_entry_def)
qed

lemma mem_compile_one:
  assumes "db s n = Some [(k, v)]" and "v \<noteq> []"
  shows "\<exists>m'. compile_cf_pipeline mem_db mem_parquet uuid s n target compr ctx sch m = (Ok [[v]], m')"
proof -
  obtain io loc schema where ctx: "ctx = (io, loc, schema)" using prod_cases3 by blast
  have "iterator_start mem_db (db s) n = [Inr (k, v)]" "cf_handle mem_db (db s) n"
    using assms by (simp_all add: mem_db_def)
  then show ?thesis
    using assms(2) concat_chunks [OF batch_limit_pos, of "[v]"]
    by (simp add: ctx compile_cf_pipeline_chunks mem_write_chunks mem_parquet_simps)
qed

lemma frozen_run:
  "\<exists>cfg h st0 (st :: demo_engine) t. demo_startup = Some (Ok (cfg, h, st0)) \<and>
     reach (\<lambda>s. s = note_found mem_parquet (\<lambda>d. d) (\<lambda>f. f) mem_tables cfg st0)
       (\<lambda>s s'. calm demo_externals (\<lambda>d. d) s \<and> step demo_externals (\<lambda>d. d) (\<lambda>f. f) cfg h s s') st \<and>
     accepted st = {#[5]#} \<and> running st = [t] \<and> task_cf t = ''active'' \<and> task_table t = micewriter_table cfg \<and>
     at_rest (st\<lparr>running := []\<rparr>) \<and> mem_ready (micewriter_table cfg) (world st) \<and> lost st = {#} \<and>
     db (store st) = [''default'' \<mapsto> [], ''active'' \<mapsto> [(to_be_bytes 1, [5])], ''active_42'' \<mapsto> []]"
proof -
  let ?X = demo_externals and ?c = "\<lambda>d :: mem. d" and ?f = "\<lambda>f :: bytes list. f"
  have X: "rocks ?X = mem_db" "rest_builder ?X = mem_load" "glue_builder ?X = mem_load"
    by (simp_all add: demo_externals_def)
  from append_run obtain cfg h st0 st where start: "demo_startup = Some (Ok (cfg, h, st0))"
    and run: "reach (\<lambda>s. s = note_found mem_parquet ?c ?f mem_tables cfg st0)
       (\<lambda>s s'. calm ?X ?c s \<and> step ?X ?c ?f cfg h s s') st"
    and st: "accepted st = {#[5]#}" "at_rest st" "world st = mem_world 0" "lost st = {#}"
    and inv: "store_inv ?c (store st)"
    and s: "active_cf (store st) = ''active''" "orphaned_cfs (store st) = []"
      "db (store st) = [''default'' \<mapsto> [], ''active'' \<mapsto> [(to_be_bytes 1, [5])]]"
    and cat: "build_catalog mem_load mem_load cfg = Some (Ok h)" and two: "unat (concurrent_cf_flushes cfg) = 2"
    by blast
  have rest: "appends st = []" "flushing st = None" "waiting st = []" "running st = []" "loop_running st"
    using st(2) by (simp_all add: at_rest_def)
  have "db (store st) (rotated_cf_name 42) = None" by (simp add: s rotated_cf_name_42)
  from mem_flush_ready [OF cat this] obtain tasks s' w' where
    fl: "do_flush mem_db (\<lambda>hi. hi) mem_load mem_load 42 cfg (store st)
      (mem_world 0 :: bytes list mem_catalog_state world) = (Some (Ok tasks), s', w')"
    and ready: "mem_ready (micewriter_table cfg) w'" by blast
  note sc = do_flush_store [OF mem_db_laws inv fl]
  then obtain t where t: "tasks = [t]" "task_cf t = ''active''" "task_table t = micewriter_table cfg" by (auto simp: s)
  obtain cfs where fr: "freeze_cfs mem_db (\<lambda>hi. hi) 42 (store st) = (Ok cfs, s')" using do_flush_parts [OF fl] by auto
  from freeze_cfs_store [OF mem_db_laws inv fr] have db': "db s' = (db (store st))(''active_42'' \<mapsto> [])"
    by (simp add: was_rotated_def rotated_cf_name_42)
  have "do_flush (rocks ?X) (\<lambda>hi. hi) (rest_builder ?X) (glue_builder ?X) 42 cfg (store st) (world st) =
      (Some (Ok tasks), s', w')" using fl by (simp add: X st)
  from flush_cycle_steps [OF this rest(2)] obtain cfs where
    cyc: "flush_begin ?X (\<lambda>hi. hi) 42 st = st\<lparr>store := s', flushing := Some cfs\<rparr>"
      "flush_end ?X cfg cfs (st\<lparr>store := s', flushing := Some cfs\<rparr>) =
        Some (st\<lparr>store := s', world := w', waiting := waiting st @ tasks\<rparr>)" by blast
  define st1 st2 st3 where "st1 = st\<lparr>store := s', flushing := Some cfs\<rparr>"
    and "st2 = st\<lparr>store := s', world := w', waiting := waiting st @ tasks\<rparr>"
    and "st3 = st\<lparr>store := s', world := w', running := [t]\<rparr>"
  have a: "step ?X ?c ?f cfg h st st1"
    using Flush_Begin [of st Timer 42 ?X ?c ?f cfg h "\<lambda>hi. hi"] rest by (simp add: cyc(1) st1_def)
  have b: "step ?X ?c ?f cfg h st1 st2"
    unfolding st1_def st2_def by (rule Flush_End [OF _ cyc(2)]) simp
  have "st2\<lparr>waiting := [], running := [t]\<rparr> = st3" using rest by (simp add: st2_def st3_def)
  then have c: "step ?X ?c ?f cfg h st2 st3"
    using Acquire_Permit [of st2 "[]" t "[]" cfg ?X ?c ?f h] two rest t by (simp add: st2_def)
  have q: "calm ?X ?c st" "calm ?X ?c st1" "calm ?X ?c st2"
    by (rule demo_calm, simp add: rest st1_def st2_def)+
  note run3 = guarded_step [OF guarded_step [OF guarded_step [OF run q(1) a] q(2) b] q(3) c]
  have "at_rest (st3\<lparr>running := []\<rparr>)" using st(2) by (simp add: st3_def at_rest_def)
  with start run3 t ready st(1,4) db' show ?thesis
    by (intro exI [of _ cfg] exI [of _ h] exI [of _ st0] exI [of _ st3] exI [of _ t]) (simp add: st3_def s fun_upd_twist)
qed

lemma committed_run:
  "\<exists>cfg h st0 (st :: demo_engine). demo_startup = Some (Ok (cfg, h, st0)) \<and>
     reach (\<lambda>s. s = note_found mem_parquet (\<lambda>d. d) (\<lambda>f. f) mem_tables cfg st0)
       (\<lambda>s s'. calm demo_externals (\<lambda>d. d) s \<and> step demo_externals (\<lambda>d. d) (\<lambda>f. f) cfg h s s') st \<and>
     accepted st = {#[5]#} \<and> committed (\<lambda>f. f) mem_tables cfg st = {#[5]#} \<and> settled (\<lambda>f. f) st = {#[5]#} \<and>
     lost st = {#} \<and>
     db (store st) = [''default'' \<mapsto> [], ''active'' \<mapsto> [(to_be_bytes 1, [5])], ''active_42'' \<mapsto> []]"
proof -
  let ?X = demo_externals and ?c = "\<lambda>d :: mem. d" and ?f = "\<lambda>f :: bytes list. f"
  have X: "rocks ?X = mem_db" "pq ?X = mem_parquet" "hash_order ?X = (\<lambda>m. m)" by (simp_all add: demo_externals_def)
  from frozen_run obtain cfg h st0 st t where start: "demo_startup = Some (Ok (cfg, h, st0))"
    and run: "reach (\<lambda>s. s = note_found mem_parquet ?c ?f mem_tables cfg st0)
       (\<lambda>s s'. calm ?X ?c s \<and> step ?X ?c ?f cfg h s s') st"
    and st: "accepted st = {#[5]#}" "running st = [t]" "task_cf t = ''active''" "task_table t = micewriter_table cfg"
      "at_rest (st\<lparr>running := []\<rparr>)" "mem_ready (micewriter_table cfg) (world st)" "lost st = {#}"
      "db (store st) = [''default'' \<mapsto> [], ''active'' \<mapsto> [(to_be_bytes 1, [5])], ''active_42'' \<mapsto> []]"
    by blast
  have rest: "appends st = []" "channel st = []" "dropping st = []" "undropped st = []" "main st = Serving"
    using st(5) by (simp_all add: at_rest_def)
  define req where "req = \<lparr> cf_name = ''active'', table_data_files = [(micewriter_table cfg, [[[5 :: u8]]])] \<rparr>"
  have "db (store st) ''active'' = Some [(to_be_bytes 1, [5])]" by (simp add: st(8))
  from mem_compile_one [OF this] obtain m where
    "compile_cf_pipeline mem_db mem_parquet ''u'' (store st) ''active'' (task_target_parquet_bytes t)
      (task_parquet_compression t) (task_write_context t) (task_arrow_schema t) (mets (world st)) = (Ok [[[5]]], m)"
    by blast
  then have fin: "finish_task ?X ''u'' t (st\<lparr>running := []\<rparr>) =
      st\<lparr>running := [], world := (world st)\<lparr>mets := m\<rparr>, channel := [req]\<rparr>"
    by (simp add: finish_task_def run_flush_task_def X st rest req_def)
  define st1 where "st1 = st\<lparr>running := [], world := (world st)\<lparr>mets := m\<rparr>, channel := [req]\<rparr>"
  have a: "step ?X ?c ?f cfg h st st1"
    using Finish_Task [of st "[]" t "[]" ?X ?c ?f cfg h "''u''"] st(2) fin by (simp add: st1_def)
  have "mem_ready (micewriter_table cfg) (world st1)" using st(6) by (simp add: st1_def mem_ready_def)
  from mem_commit_ready [OF this demo_handle(1) [OF start], of "[[[5]]]" cfg "''active''"] obtain w' where
    com: "commit_batch (\<lambda>m. m) h cfg [req] (world st1) = (True, w')"
      "mem_tables (cat w') (analytics, micewriter_table cfg) = Some [[[5]]]" by (auto simp: req_def)
  define st2 where "st2 = st1\<lparr>channel := [], world := w', dropping := [req]\<rparr>"
  have "commit_step ?X h cfg [req] (st1\<lparr>channel := []\<rparr>) = st2" using com(1) by (simp add: commit_step_def X st2_def)
  then have b: "step ?X ?c ?f cfg h st1 st2"
    using Commit_Round [of st1 "[req]" "[]" ?X ?c ?f cfg h] rest by (simp add: st1_def)
  have q: "calm ?X ?c st" "calm ?X ?c st1" by (rule demo_calm, simp add: rest st1_def)+
  note run2 = guarded_step [OF guarded_step [OF run q(1) a] q(2) b]
  have "committed ?f mem_tables cfg st2 = {#[5]#}" by (simp add: committed_def files_of_def st2_def com(2))
  moreover have "settled ?f st2 = {#[5]#}"
    by (simp add: settled_def settled_requests_def st2_def st1_def rest request_rows_def req_def)
  moreover have "accepted st2 = {#[5]#}" "lost st2 = {#}" "store st2 = store st"
    by (simp_all add: st2_def st1_def st)
  ultimately show ?thesis using start run2 st(8)
    by (intro exI [of _ cfg] exI [of _ h] exI [of _ st0] exI [of _ st2]) simp
qed

lemma demo_rocks: "rocks demo_externals = mem_db"
  by (simp add: demo_externals_def)

lemma restart_demo:
  fixes st :: demo_engine
  assumes disk: "db (store st) = map_of path" and path: "path \<noteq> []" "distinct (map fst path)"
    and short: "\<forall>(n, kvs) \<in> set path. length kvs \<le> 1"
  shows "\<exists>st'. restart demo_externals (\<lambda>d. d) cfg st st'"
proof -
  have one: "kvs = [] \<or> (\<exists>kv. kvs = [kv])" if "map_of path n = Some kvs" for n kvs
    using short map_of_SomeD [OF that] by (cases kvs) auto
  then have "map_of path n = Some kvs \<Longrightarrow> sorted_wrt (<) (map fst kvs)"
    "map_of path n = Some kvs \<Longrightarrow> kvs \<noteq> [] \<Longrightarrow> \<exists>items. map Inr (rev kvs) = Inr (last kvs) # items" for n kvs by fastforce+
  moreover have "set (map fst path) = dom (map_of path)" by (simp add: dom_map_of_conv_image_fst)
  ultimately have "open_law mem_db (\<lambda>d. d) path (map_of path)"
    using path by (auto simp: open_law_def mem_db_def mem_open_def)
  moreover have "list_cf mem_db path = Ok (map fst path)" using path by (simp add: mem_db_def)
  moreover obtain s where "new mem_db (\<lambda>hi. hi) path (cfg_flush_size_bytes cfg) (cfg_flush_size_jitter_bytes cfg)
      (rocksdb_sync_writes cfg) (cfg_write_buffer_size cfg) = Ok s"
    by (simp add: new_def mem_db_def split_beta Let_def)
  ultimately show ?thesis
    unfolding restart_def disk by (metis demo_rocks)
qed

text \<open>The life: the run above, and then a restart.\<close>

lemma restarted_run:
  "\<exists>cfg h st0 (st1 :: demo_engine) st. demo_startup = Some (Ok (cfg, h, st0)) \<and>
     reach (\<lambda>s. s = note_found mem_parquet (\<lambda>d. d) (\<lambda>f. f) mem_tables cfg st0)
       (calm_life_step demo_externals (\<lambda>d. d) (\<lambda>f. f) cfg h) st1 \<and>
     restart demo_externals (\<lambda>d. d) cfg st1 st \<and>
     reach (\<lambda>s. s = note_found mem_parquet (\<lambda>d. d) (\<lambda>f. f) mem_tables cfg st0)
       (calm_life_step demo_externals (\<lambda>d. d) (\<lambda>f. f) cfg h) st \<and>
     accepted st = {#[5]#} \<and> committed (\<lambda>f. f) mem_tables cfg st = {#[5]#} \<and>
     buffered mem_parquet (\<lambda>d. d) (\<lambda>f. f) st = {#[5]#}"
proof -
  let ?X = demo_externals and ?c = "\<lambda>d :: mem. d" and ?f = "\<lambda>f :: bytes list. f"
  from committed_run obtain cfg h st0 and st :: demo_engine where start: "demo_startup = Some (Ok (cfg, h, st0))"
    and run: "reach (\<lambda>s. s = note_found mem_parquet ?c ?f mem_tables cfg st0)
       (\<lambda>s s'. calm ?X ?c s \<and> step ?X ?c ?f cfg h s s') st"
    and st: "accepted st = {#[5]#}" "committed ?f mem_tables cfg st = {#[5]#}" "settled ?f st = {#[5]#}" "lost st = {#}"
      "db (store st) = [''default'' \<mapsto> [], ''active'' \<mapsto> [(to_be_bytes 1, [5])], ''active_42'' \<mapsto> []]"
    by blast
  have "engine_ok ?X ?c ?f cfg h mem_tables mem_namespaces st"
    using engine_run.reach_extra [OF run_from_startup [OF demo_hyps(1) [OF start] run [unfolded demo_hyps(3) [OF start]]]]
      demo_laws [OF start] demo_hyps(2) [OF start] by blast
  then have inv: "engine_inv {#} ?X ?c ?f cfg mem_tables mem_namespaces st"
    using demo_truthful [OF start] by (auto simp: engine_ok_def)
  from buffered_account [OF inv] st have none: "buffered mem_parquet ?c ?f st = {#}" by (simp add: demo_pq)
  have "db (store st) = map_of [(''default'', []), (''active'', [(to_be_bytes 1, [5])]), (''active_42'', [])]"
    by (auto simp: st(5) fun_eq_iff)
  from restart_demo [OF this, of cfg] obtain st' where rs: "restart ?X ?c cfg st st'" by auto
  note acc = restart_accounts(2,3) [OF demo_laws [OF start] inv rs]
  have life: "reach (\<lambda>s. s = note_found mem_parquet ?c ?f mem_tables cfg st0) (calm_life_step ?X ?c ?f cfg h) st"
    using run by (rule reach_mono) (auto simp: calm_life_step_def)
  have "reach (\<lambda>s. s = note_found mem_parquet ?c ?f mem_tables cfg st0) (calm_life_step ?X ?c ?f cfg h) st'"
    by (rule reach_step [OF life]) (simp add: calm_life_step_def rs)
  with start life rs acc st none show ?thesis
    by (intro exI [of _ cfg] exI [of _ h] exI [of _ st0] exI [of _ st] exI [of _ st']) (simp add: demo_pq)
qed

section \<open>Properties\<close>

text \<open>
  The start of a life, as the invariants of lives have it.
\<close>

lemma life_from_startup:
  assumes "startup X J fs par env g at_path register registry c = Some (Ok (cfg, h, st0))"
    and "engine_laws X contents batch_rows rows file_rows cfg h tabs nss"
    and "path_laws X contents (at_path (rocksdb_path cfg)) disk"
    and "reach (\<lambda>s. s = note_found (pq X) contents file_rows tabs cfg st0) R st"
  shows "reach (\<lambda>s. lawful X contents batch_rows rows file_rows cfg h tabs nss (at_path (rocksdb_path cfg)) disk \<and>
      booted X contents file_rows cfg tabs (at_path (rocksdb_path cfg)) s \<and>
      s = note_found (pq X) contents file_rows tabs cfg st0) R st"
    and "reach (\<lambda>s. lawful X contents batch_rows rows file_rows cfg h tabs nss (at_path (rocksdb_path cfg)) disk \<and>
      booted X contents file_rows cfg tabs (at_path (rocksdb_path cfg)) s) R st"
  by (rule reach_mono [OF assms(4)], use startup_booted [OF assms(1)] assms(2,3) in \<open>auto simp: lawful_def\<close>)+

lemma no_loss_delivered:
  assumes "engine_inv dup X contents file_rows cfg tabs nss st" and "no_loss X contents file_rows st"
  shows "accepted st \<subseteq># committed file_rows tabs cfg st +
    (\<Sum>n \<leftarrow> tracked st. family_events (pq X) contents (store st) n)"
proof -
  have "lost st = {#}" using assms(2) by (simp add: no_loss_def)
  with buffered_account [OF assms(1)] no_loss_buffered [OF assms(2)] show ?thesis
    by (metis add.right_neutral mset_subset_eq_add_left)
qed



text \<open>C6: every life of the engine, whatever is lost, restarted or reported wrongly by the catalog, is a
  run of the delivery specification in which pending events may go missing, published events may become
  pending again and pending events may be published early; in particular it accounts for every event
  accepted, and what is published stays published.\<close>

theorem lives_refine_repeating_delivery:
  assumes "startup X J fs par env g at_path register registry c = Some (Ok (cfg, h, st0))"
    and "engine_laws X contents batch_rows rows file_rows cfg h tabs nss"
    and "path_laws X contents (at_path (rocksdb_path cfg)) disk"
    and "reach (\<lambda>s. s = note_found (pq X) contents file_rows tabs cfg st0)
      (life_step X contents file_rows cfg h) st"
  shows "reach (\<lambda>q. q = delivery_of (pq X) contents file_rows tabs cfg
        (note_found (pq X) contents file_rows tabs cfg st0)) repeating_step
      (delivery_of (pq X) contents file_rows tabs cfg st) \<and>
    accepted st + repeats (pq X) contents file_rows tabs cfg st =
      committed file_rows tabs cfg st + buffered (pq X) contents file_rows st + lost st \<and>
    (\<forall>st'. life_step X contents file_rows cfg h st st' \<longrightarrow>
       committed file_rows tabs cfg st \<subseteq># committed file_rows tabs cfg st')"
proof -
  note run = life_from_startup(1) [OF assms]
  from life.reach_inv [OF run] obtain dup where inv: "engine_inv dup X contents file_rows cfg tabs nss st" by blast
  have "committed file_rows tabs cfg st \<subseteq># committed file_rows tabs cfg st'"
    if "life_step X contents file_rows cfg h st st'" for st'
    using that step_published [OF assms(2) inv] restart_accounts(3) [OF assms(2) inv] by (auto simp: life_step_def)
  with life.reach_refines [OF run] buffered_account [OF inv] engine_repeats [OF inv] show ?thesis by simp
qed

lemma calm_life_is_life:
  "reach init (calm_life_step X contents file_rows cfg h) st \<Longrightarrow> reach init (life_step X contents file_rows cfg h) st"
  by (erule reach_mono) (auto simp: calm_life_step_def life_step_def)

theorem lives_refine_repeating_delivery_witness:
  "\<exists>cfg h st0 (st :: demo_engine). demo_startup = Some (Ok (cfg, h, st0)) \<and> accepted st = {#[5]#} \<and>
     reach (\<lambda>q. q = delivery_of mem_parquet (\<lambda>d. d) (\<lambda>f. f) mem_tables cfg
         (note_found mem_parquet (\<lambda>d. d) (\<lambda>f. f) mem_tables cfg st0)) repeating_step
       (delivery_of mem_parquet (\<lambda>d. d) (\<lambda>f. f) mem_tables cfg st)"
proof -
  from restarted_run obtain cfg h st0 and st :: demo_engine where start: "demo_startup = Some (Ok (cfg, h, st0))"
    and run: "reach (\<lambda>s. s = note_found mem_parquet (\<lambda>d. d) (\<lambda>f. f) mem_tables cfg st0)
       (calm_life_step demo_externals (\<lambda>d. d) (\<lambda>f. f) cfg h) st" and st: "accepted st = {#[5]#}" by blast
  note lives_refine_repeating_delivery [OF demo_hyps(1) [OF start] demo_laws [OF start] demo_hyps(2) [OF start]
      calm_life_is_life [OF run [unfolded demo_hyps(3) [OF start]]], unfolded demo_hyps(3) [OF start, symmetric] demo_pq]
  with start st show ?thesis by blast
qed

text \<open>C8: A restart finds everything. Whenever the process is gone in a life of the engine, the next one
  knows every family of the engine in the database, as its active one or as one to be flushed, with the
  records it had; nothing that was accepted is lost by it, and the events that come back although they
  are committed are exactly those of committed requests whose families had not been dropped.\<close>

theorem restart_finds_everything:
  assumes "startup X J fs par env g at_path register registry c = Some (Ok (cfg, h, st0))"
    and "engine_laws X contents batch_rows rows file_rows cfg h tabs nss"
    and "path_laws X contents (at_path (rocksdb_path cfg)) disk"
    and "reach (\<lambda>s. s = note_found (pq X) contents file_rows tabs cfg st0)
      (life_step X contents file_rows cfg h) st"
    and "restart X contents cfg st st'"
  shows "mset (active_cf (store st') # orphaned_cfs (store st')) = mset (known st) \<and>
    (\<forall>n \<in> set (known st). contents (db (store st')) n = contents (db (store st)) n) \<and>
    committed file_rows tabs cfg st' = committed file_rows tabs cfg st \<and>
    buffered (pq X) contents file_rows st' = buffered (pq X) contents file_rows st +
      (\<Sum>req \<leftarrow> dropping st @ undropped st. request_rows file_rows req)"
proof -
  from life.reach_inv [OF life_from_startup(1) [OF assms(1-4)]] obtain dup where
    inv: "engine_inv dup X contents file_rows cfg tabs nss st" by blast
  note acc = restart_accounts [OF assms(2) inv assms(5)]
  from acc(2-5) show ?thesis by (simp add: settled_def settled_requests_def)
qed

theorem restart_finds_everything_witness:
  "\<exists>cfg h st0 (st :: demo_engine) st'. demo_startup = Some (Ok (cfg, h, st0)) \<and>
     restart demo_externals (\<lambda>d. d) cfg st st' \<and> accepted st' = {#[5]#} \<and>
     mset (active_cf (store st') # orphaned_cfs (store st')) = mset (known st)"
proof -
  from restarted_run obtain cfg h st0 and st st' :: demo_engine where start: "demo_startup = Some (Ok (cfg, h, st0))"
    and run: "reach (\<lambda>s. s = note_found mem_parquet (\<lambda>d. d) (\<lambda>f. f) mem_tables cfg st0)
       (calm_life_step demo_externals (\<lambda>d. d) (\<lambda>f. f) cfg h) st"
    and rs: "restart demo_externals (\<lambda>d. d) cfg st st'" and st': "accepted st' = {#[5]#}" by blast
  from restart_finds_everything [OF demo_hyps(1) [OF start] demo_laws [OF start] demo_hyps(2) [OF start]
      calm_life_is_life [OF run [unfolded demo_hyps(3) [OF start]]] rs]
  have "mset (active_cf (store st') # orphaned_cfs (store st')) = mset (known st)" by blast
  with start rs st' show ?thesis by blast
qed

text \<open>C13: an event can be delivered twice: a life of the engine reaches a state in which the one event
  accepted is in the table and also in a family that will be flushed again. The process was gone after
  the commit and before it had dropped the family.\<close>

theorem restart_repeats_committed_event:
  "\<exists>cfg h st0 (st :: demo_engine). demo_startup = Some (Ok (cfg, h, st0)) \<and>
     reach (\<lambda>s. s = note_found mem_parquet (\<lambda>d. d) (\<lambda>f. f) mem_tables cfg st0)
       (calm_life_step demo_externals (\<lambda>d. d) (\<lambda>f. f) cfg h) st \<and>
     accepted st = {#[5]#} \<and> committed (\<lambda>f. f) mem_tables cfg st = {#[5]#} \<and>
     buffered mem_parquet (\<lambda>d. d) (\<lambda>f. f) st = {#[5]#}"
  using restarted_run by blast

end
