(* ===== verification/Engine_Acks.thy ===== *)
theory Engine_Acks
  imports Engine_Lives
begin

text \<open>
  From the acknowledgement to the table: a call of \<open>ingest\<close> is a run of the engine, and what it
  acknowledges is delivered in every later life of the engine.
\<close>

section \<open>An append as two steps\<close>

definition appended_state ::
    "('p, 'd, 'w, 'e, 'b, 's, 'io, 'f, 'c, 't) externals \<Rightarrow> bytes list \<Rightarrow> 'd rocks_store \<Rightarrow>
     ('d, 'c, 's, 'io, 'f, 'e) engine \<Rightarrow> ('d, 'c, 's, 'io, 'f, 'e) engine" where
  "appended_state X vs s st = st\<lparr>store := s, accepted := accepted st + mset (decoded (pq X) vs)\<rparr>"

lemma appended_state_simps:
  "appended_state X [] (store st) st = st"
  "appended_state X ws s2 (appended_state X vs s1 st) = appended_state X (vs @ ws) s2 st"
  "store (appended_state X vs s st) = s" "main (appended_state X vs s st) = main st"
  by (simp_all add: appended_state_def decoded_def map_filter_def)

lemma append_batch_finish:
  assumes "append_batch (rocks X) [v] (store st) = (r, s')"
  shows "append_finish X (active_cf (store st)) v st = appended_state X (if is_ok r then [v] else []) s' st"
  using assms by (cases r) (simp_all add: append_batch_def append_finish_def appended_state_def)

lemma append_batch_steps:
  assumes "append_batch (rocks X) [v] (store st) = (r, s')"
    and "main st \<noteq> Exited" and "unat (counter (store st)) + 1 < 2 ^ 64"
  shows "(step X contents file_rows cfg h)\<^sup>*\<^sup>* st (appended_state X (if is_ok r then [v] else []) s' st)"
proof -
  let ?n = "active_cf (store st)"
  have "step X contents file_rows cfg h st (append_begin v st)" using assms(2) by (rule Append_Begin)
  moreover have "append_finish X ?n v ((append_begin v st)\<lparr>appends := appends st\<rparr>) =
      appended_state X (if is_ok r then [v] else []) s' st"
    using append_batch_finish [OF assms(1)] by (simp add: append_begin_def)
  then have "step X contents file_rows cfg h (append_begin v st) (appended_state X (if is_ok r then [v] else []) s' st)"
    using Append_Finish [of "append_begin v st" "appends st" ?n v "[]" X contents file_rows cfg h] assms(2,3)
    by (simp add: append_begin_def)
  ultimately show ?thesis by (meson converse_rtranclp_into_rtranclp rtranclp.rtrancl_refl)
qed

text \<open>Such an append is never overtaken, so it loses nothing.\<close>

definition sound ::
    "('p, 'd, 'w, 'e, 'b, 's, 'io, 'f, 'c, 't) externals \<Rightarrow> 'd contents \<Rightarrow> ('f \<Rightarrow> 'e list) \<Rightarrow> config \<Rightarrow>
     ('c, 'f) snapshots \<Rightarrow> 'c namespaces \<Rightarrow> ('d, 'c, 's, 'io, 'f, 'e) engine \<Rightarrow> bool" where
  "sound X contents file_rows cfg tabs nss st \<longleftrightarrow>
     (\<exists>dup. engine_inv dup X contents file_rows cfg tabs nss st) \<and> no_loss X contents file_rows st"

lemma steps_inv:
  assumes "(step X contents file_rows cfg h)\<^sup>*\<^sup>* st st'"
    and "engine_laws X contents batch_rows rows file_rows cfg h tabs nss"
    and "\<exists>dup. engine_inv dup X contents file_rows cfg tabs nss st"
  shows "\<exists>dup. engine_inv dup X contents file_rows cfg tabs nss st'"
  using assms(1,3) by (induction rule: rtranclp_induct) (use step_engine_inv [OF assms(2)] in blast)+

lemma append_batch_sound:
  assumes laws: "engine_laws X contents batch_rows rows file_rows cfg h tabs nss"
    and run: "append_batch (rocks X) [v] (store st) = (r, s')"
    and live: "main st \<noteq> Exited" and room: "unat (counter (store st)) + 1 < 2 ^ 64"
    and sound: "sound X contents file_rows cfg tabs nss st"
  shows "sound X contents file_rows cfg tabs nss (appended_state X (if is_ok r then [v] else []) s' st)"
proof -
  have rl: "rocksdb_laws (rocks X) contents" using laws by (simp add: engine_laws_def)
  obtain dup where inv: "engine_inv dup X contents file_rows cfg tabs nss st" and nl: "no_loss X contents file_rows st"
    using sound by (auto simp: sound_def)
  have "no_loss X contents file_rows (appended_state X (if is_ok r then [v] else []) s' st)"
    using append_finish_no_loss [OF rl inv nl refl room] append_batch_finish [OF run] by metis
  moreover have "\<exists>dup. engine_inv dup X contents file_rows cfg tabs nss (appended_state X (if is_ok r then [v] else []) s' st)"
    using steps_inv [OF append_batch_steps [OF run live room] laws] inv by blast
  ultimately show ?thesis by (simp add: sound_def)
qed

section \<open>A stream as a run\<close>

lemma ingest_message_cases:
  assumes "framable table" and "ingest_message A table payload s = (a, notify, s')"
  obtains r where "append_batch A [frame_record payload] s = (r, s')" "ack_ok a = is_ok r"
    | "\<not> ack_ok a" "s' = s"
proof (cases "payload = frame table (frame_record payload)")
  case True
  obtain r s1 where "append_batch A [frame_record payload] s = (r, s1)" by force
  with ingest_message_frame [OF assms(1), of A "frame_record payload" s] True assms(2) that(1)
  show ?thesis by (cases r) auto
next
  case False
  with ingest_message_not_frame [OF assms(1) False, of A s] assms(2) that(2) show ?thesis by auto
qed

definition acknowledged :: "(bytes \<times> ack \<times> bool) list \<Rightarrow> bytes list" where
  "acknowledged handled = [frame_record p. (p, a, sent) \<leftarrow> handled, ack_ok a]"

lemma acknowledged_simps [simp]:
  "acknowledged [] = []"
  "acknowledged ((p, a, sent) # handled) = (if ack_ok a then [frame_record p] else []) @ acknowledged handled"
  by (simp_all add: acknowledged_def)

lemma ingest_message_steps:
  assumes laws: "engine_laws X contents batch_rows rows file_rows cfg h tabs nss" and fr: "framable table"
    and live: "main st \<noteq> Exited" and room: "unat (counter (store st)) + 1 < 2 ^ 64"
    and sound: "sound X contents file_rows cfg tabs nss st"
    and msg: "ingest_message (rocks X) table payload (store st) = (a, notify, s')"
  defines "st' \<equiv> appended_state X (if ack_ok a then [frame_record payload] else []) s' st"
  shows "(step X contents file_rows cfg h)\<^sup>*\<^sup>* st st'" and "sound X contents file_rows cfg tabs nss st'"
    and "unat (counter s') \<le> unat (counter (store st)) + 1"
proof -
  have rl: "rocksdb_laws (rocks X) contents" using laws by (simp add: engine_laws_def)
  have "store_inv contents (store st)" using sound engine_invD(1) by (auto simp: sound_def)
  from ingest_message_log [OF rl this room fr msg] show "unat (counter s') \<le> unat (counter (store st)) + 1" by blast
  from fr msg have "(step X contents file_rows cfg h)\<^sup>*\<^sup>* st st' \<and> sound X contents file_rows cfg tabs nss st'"
  proof (cases rule: ingest_message_cases)
    case (1 r)
    then show ?thesis
      using append_batch_steps [OF 1(1) live room] append_batch_sound [OF laws 1(1) live room sound]
      by (simp add: st'_def)
  next
    case 2
    then show ?thesis using sound by (simp add: st'_def appended_state_simps)
  qed
  then show "(step X contents file_rows cfg h)\<^sup>*\<^sup>* st st'" and "sound X contents file_rows cfg tabs nss st'" by blast+
qed

lemma ingest_steps:
  assumes laws: "engine_laws X contents batch_rows rows file_rows cfg h tabs nss" and fr: "framable table"
  shows "main st \<noteq> Exited \<Longrightarrow> unat (counter (store st)) + length stream < 2 ^ 64 \<Longrightarrow>
    sound X contents file_rows cfg tabs nss st \<Longrightarrow>
    ingest (rocks X) table stream (store st) = (handled, n, s') \<Longrightarrow>
    (step X contents file_rows cfg h)\<^sup>*\<^sup>* st (appended_state X (acknowledged handled) s' st) \<and>
    sound X contents file_rows cfg tabs nss (appended_state X (acknowledged handled) s' st)"
proof (induction stream arbitrary: st handled n)
  case Nil
  then show ?case by (auto simp: appended_state_simps)
next
  case (Cons m stream)
  obtain payload sent where m: "m = (payload, sent)" by force
  obtain a notify s1 where msg: "ingest_message (rocks X) table payload (store st) = (a, notify, s1)"
    by (metis prod_cases3)
  let ?one = "if ack_ok a then [frame_record payload] else []"
  let ?st = "appended_state X ?one s1 st"
  have room: "unat (counter (store st)) + 1 < 2 ^ 64" using Cons.prems(2) by simp
  note one = ingest_message_steps [OF laws fr Cons.prems(1) room Cons.prems(3) msg]
  show ?case
  proof (cases "ack_ok a \<and> \<not> sent")
    case True
    with Cons.prems(4) m msg one(1,2) show ?thesis by (auto simp: Let_def)
  next
    case False
    then obtain handled' n' where rest: "ingest (rocks X) table stream s1 = (handled', n', s')"
      and handled: "handled = (payload, a, sent) # handled'"
      using Cons.prems(4) m msg by (auto simp: Let_def split: prod.splits)
    have "main ?st \<noteq> Exited" "unat (counter (store ?st)) + length stream < 2 ^ 64"
      using Cons.prems(1,2) one(3) by (simp_all add: appended_state_simps)
    from Cons.IH [OF this one(2)] rest have "(step X contents file_rows cfg h)\<^sup>*\<^sup>* ?st
          (appended_state X (acknowledged handled') s' ?st) \<and>
        sound X contents file_rows cfg tabs nss (appended_state X (acknowledged handled') s' ?st)"
      by (simp add: appended_state_simps)
    moreover have "appended_state X (acknowledged handled') s' ?st = appended_state X (acknowledged handled) s' st"
      by (simp only: handled appended_state_simps acknowledged_simps)
    ultimately show ?thesis using one(1) rtranclp_trans by metis
  qed
qed

section \<open>Later lives\<close>

lemma step_accepted: "step X contents file_rows cfg h st st' \<Longrightarrow> accepted st \<subseteq># accepted st'"
  by (erule step_elim)
    (auto simp: append_begin_def append_finish_def finish_task_def commit_step_def drop_step_def
      flush_begin_fields(2-) elim!: flush_end_cases split: prod.splits sum.splits)

lemma calm_life_step_accepted: "calm_life_step X contents file_rows cfg h st st' \<Longrightarrow> accepted st \<subseteq># accepted st'"
  using step_accepted by (auto simp: calm_life_step_def restart_def restarted_def)

lemma calm_life_step_sound:
  "engine_laws X contents batch_rows rows file_rows cfg h tabs nss \<Longrightarrow> sound X contents file_rows cfg tabs nss st \<Longrightarrow>
   calm_life_step X contents file_rows cfg h st st' \<Longrightarrow> sound X contents file_rows cfg tabs nss st'"
  unfolding sound_def using calm_life_step_no_loss by blast

interpretation later: invariant_system
  "\<lambda>st. st = start" "calm_life_step X contents file_rows cfg h"
  "\<lambda>st. engine_laws X contents batch_rows rows file_rows cfg h tabs nss \<and> sound X contents file_rows cfg tabs nss start \<longrightarrow>
     sound X contents file_rows cfg tabs nss st \<and> accepted start \<subseteq># accepted st"
  for X contents file_rows cfg h batch_rows rows tabs nss start
  by unfold_locales (blast intro: calm_life_step_sound calm_life_step_accepted subset_mset.order_trans)+

section \<open>The property\<close>


lemma demo_table:
  assumes "demo_startup = Some (Ok (cfg, h, st0))"
  shows "micewriter_table cfg = ''telemetry_events''" and "framable (micewriter_table cfg)"
proof -
  have "from_env sample_json sample_fs (Some 8) sample_env = Ok cfg"
    using assms by (auto simp: demo_startup_def startup_def split: sum.splits option.splits if_splits)
  then show name: "micewriter_table cfg = ''telemetry_events''" using sample_defaults by auto
  show "framable (micewriter_table cfg)" unfolding name by (rule framable_ascii) simp_all
qed

lemma demo_ingest:
  assumes "framable table" and "db s ''active'' = Some []" and "active_cf s = ''active''" and "counter s = 1"
  shows "\<exists>n s'. ingest mem_db table [(frame table [5], True)] s =
    ([(frame table [5], \<lparr> ack_ok = True, ack_message = ''OK'' \<rparr>, True)], n, s')"
proof -
  obtain full s' where "append_batch mem_db [[5]] s = (Ok full, s')"
    using mem_append [OF assms(2,4), of "[5]"] by (auto simp: append_batch_def assms(3))
  then show ?thesis by (simp add: ingest_message_frame [OF assms(1)] Let_def)
qed


end
