(* ===== verification/Nothing_Fails.thy ===== *)
theory Nothing_Fails
  imports Flush_Engine
begin

text \<open>
  The engine's operations when the database, the catalog and the writer do what they are asked:
  a table is found or created, a commit succeeds at its first attempt, a flush cycle spawns its tasks,
  a pipeline yields its files, and a family is dropped.
\<close>

section \<open>External calls that succeed\<close>

definition db_works :: "('p, 'd) rocksdb \<Rightarrow> 'd contents \<Rightarrow> bool" where
  "db_works A contents \<longleftrightarrow>
     (\<forall>d n opts. contents d n = None \<longrightarrow> is_ok (fst (create_cf A d n opts))) \<and>
     (\<forall>d n. contents d n \<noteq> None \<longrightarrow> is_ok (fst (drop_cf A d n))) \<and>
     (\<forall>d n kvs. contents d n = Some kvs \<longrightarrow> iterator_start A d n = map Inr kvs)"

definition writer_works :: "('w, 'e, 'b, 's, 'io, 'f) parquet \<Rightarrow> bool" where
  "writer_works P \<longleftrightarrow>
     (\<forall>compr rg loc uuid schema target io. is_ok (build_writer P compr rg loc uuid schema target io)) \<and>
     (\<forall>sch evs. is_ok (to_record_batch P sch evs)) \<and> (\<forall>w b. is_ok (fst (write_batch P w b))) \<and>
     (\<forall>w. is_ok (close_writer P w))"

lemma db_worksD:
  assumes "db_works A contents"
  shows "contents d n = None \<Longrightarrow> is_ok (fst (create_cf A d n opts))"
    and "contents d n \<noteq> None \<Longrightarrow> is_ok (fst (drop_cf A d n))"
    and "contents d n = Some kvs \<Longrightarrow> iterator_start A d n = map Inr kvs"
  using assms unfolding db_works_def by blast+

lemma writer_worksD:
  assumes "writer_works P"
  shows "is_ok (build_writer P compr rg loc uuid schema target io)" and "is_ok (to_record_batch P sch evs)"
    and "is_ok (fst (write_batch P w b))" and "is_ok (close_writer P w)"
  using assms unfolding writer_works_def by blast+

text \<open>The catalog works in the states \<open>up\<close>, and stays in them.\<close>

definition call_works :: "('c \<Rightarrow> bool) \<Rightarrow> ('c \<Rightarrow> bool) \<Rightarrow> ('c \<Rightarrow> 'a result \<times> 'c) \<Rightarrow> bool" where
  "call_works up pre f \<longleftrightarrow> (\<forall>c. up c \<longrightarrow> pre c \<longrightarrow> is_ok (fst (f c)) \<and> up (snd (f c)))"

definition catalog_works ::
    "('c, 't, 's, 'io, 'f) catalog \<Rightarrow> ('c, 'f) snapshots \<Rightarrow> 'c namespaces \<Rightarrow> ('c \<Rightarrow> bool) \<Rightarrow> bool" where
  "catalog_works K tabs nss up \<longleftrightarrow>
     (\<forall>ns. ns \<noteq> [] \<longrightarrow> is_ok (namespace_from_vec K ns)) \<and> (\<forall>cols. is_ok (schema_build K cols)) \<and>
     (\<forall>ns. call_works up (\<lambda>c. True) (namespace_exists K ns)) \<and>
     (\<forall>ns. call_works up (\<lambda>c. ns \<notin> nss c) (create_namespace K ns)) \<and>
     (\<forall>i. call_works up (\<lambda>c. True) (table_exists K i)) \<and>
     (\<forall>i. call_works up (\<lambda>c. tabs c i \<noteq> None) (load_table K i)) \<and>
     (\<forall>ns n schema. call_works up (\<lambda>c. ns \<in> nss c \<and> tabs c (ns, n) = None) (create_table K ns n schema)) \<and>
     (\<forall>t files. call_works up (\<lambda>c. tabs c (table_identifier K t) \<noteq> None) (append_commit K t files))"

lemma catalog_worksD:
  assumes "catalog_works K tabs nss up"
  shows "ns \<noteq> [] \<Longrightarrow> is_ok (namespace_from_vec K ns)" and "is_ok (schema_build K cols)"
    and "call_works up (\<lambda>c. True) (namespace_exists K ns)"
    and "call_works up (\<lambda>c. ns \<notin> nss c) (create_namespace K ns)"
    and "call_works up (\<lambda>c. True) (table_exists K i)"
    and "call_works up (\<lambda>c. tabs c i \<noteq> None) (load_table K i)"
    and "call_works up (\<lambda>c. ns \<in> nss c \<and> tabs c (ns, n) = None) (create_table K ns n schema)"
    and "call_works up (\<lambda>c. tabs c (table_identifier K t) \<noteq> None) (append_commit K t files)"
  using assms unfolding catalog_works_def by blast+

lemma on_cat_works:
  assumes "call_works up pre f" and "\<And>w. P w \<Longrightarrow> up (cat w) \<and> pre (cat w)"
    and "\<And>w x c. P w \<Longrightarrow> f (cat w) = (Ok x, c) \<Longrightarrow> up c \<Longrightarrow> Q x (w\<lparr>cat := c\<rparr>)"
  shows "ensures P (on_cat f) (\<lambda>r w. \<exists>x. r = Ok x \<and> Q x w)"
  unfolding ensures_on_cat
proof (intro allI impI)
  fix w r c assume w: "P w" and run: "f (cat w) = (r, c)"
  have "is_ok r" "up c" using assms(1) assms(2) [OF w] run unfolding call_works_def by (metis fst_conv snd_conv)+
  then show "\<exists>x. r = Ok x \<and> Q x (w\<lparr>cat := c\<rparr>)" using assms(3) [OF w] run by (auto simp: is_ok_iff)
qed

lemma bind_works:
  assumes "ensures P f (\<lambda>r w. \<exists>x. r = Ok x \<and> R x w)" and "\<And>x. ensures (R x) (g x) Q"
  shows "ensures P (bind_w f g) Q"
  by (rule ensures_bind [OF ensures_mono [OF assms(1)] assms(2)]) auto

lemma ensures_cases:
  "ensures (\<lambda>w. P w \<and> b) f Q \<Longrightarrow> ensures (\<lambda>w. P w \<and> \<not> b) g Q \<Longrightarrow> ensures P (if b then f else g) Q"
  by (cases b) (auto simp: ensures_def)

section \<open>The catalog\<close>

definition fine ::
    "('c, 'f) snapshots \<Rightarrow> 'c namespaces \<Rightarrow> ('c \<Rightarrow> bool) \<Rightarrow> string list \<Rightarrow> 'c world \<Rightarrow> bool" where
  "fine tabs nss up ns w \<longleftrightarrow> cache_inv tabs nss ns w \<and> up (cat w)"

lemma fine_update:
  "fine tabs nss up ns w \<Longrightarrow> up c \<Longrightarrow> \<forall>i. tabs (cat w) i \<noteq> None \<longrightarrow> tabs c i \<noteq> None \<Longrightarrow> nss (cat w) \<subseteq> nss c \<Longrightarrow>
   fine tabs nss up ns (w\<lparr>cat := c\<rparr>)"
  by (auto simp: fine_def cache_inv_def)

lemma ensure_namespace_works:
  assumes laws: "catalog_laws K tabs nss" and works: "catalog_works K tabs nss up"
  shows "ensures (fine tabs nss up ns) (ensure_namespace K ns ns)
    (\<lambda>r w. \<exists>u. r = Ok u \<and> fine tabs nss up ns w \<and> ns \<in> nss (cat w))"
proof -
  let ?I = "fine tabs nss up ns"
  have "ensures ?I (on_cat (namespace_exists K ns)) (\<lambda>r w. \<exists>b. r = Ok b \<and> ?I w \<and> b = (ns \<in> nss (cat w)))"
    by (rule on_cat_works [OF catalog_worksD(3) [OF works]])
      (auto simp: namespace_exists_law [OF laws] fine_def cache_inv_def)
  moreover have "ensures (\<lambda>w. ?I w \<and> b = (ns \<in> nss (cat w)))
      (if \<not> b then on_cat (create_namespace K ns) else return_w ()) (\<lambda>r w. \<exists>u. r = Ok u \<and> ?I w \<and> ns \<in> nss (cat w))" for b
  proof (rule ensures_cases)
    show "ensures (\<lambda>w. (?I w \<and> b = (ns \<in> nss (cat w))) \<and> \<not> b) (on_cat (create_namespace K ns))
        (\<lambda>r w. \<exists>u. r = Ok u \<and> ?I w \<and> ns \<in> nss (cat w))"
      by (rule on_cat_works [OF catalog_worksD(4) [OF works]])
        (auto simp: create_namespace_law [OF laws] fine_def cache_inv_def)
  qed (auto simp: ensures_def return_w_def)
  moreover have "ensures (\<lambda>w. ?I w \<and> ns \<in> nss (cat w)) (note_namespace (join ''/'' ns))
      (\<lambda>r w. \<exists>u. r = Ok u \<and> ?I w \<and> ns \<in> nss (cat w))"
    by (auto simp: ensures_def note_namespace_def fine_def cache_inv_def)
  ultimately have slow: "ensures ?I
      (bind_w (on_cat (namespace_exists K ns)) (\<lambda>b.
       bind_w (if \<not> b then on_cat (create_namespace K ns) else return_w ()) (\<lambda>_.
       note_namespace (join ''/'' ns)))) (\<lambda>r w. \<exists>u. r = Ok u \<and> ?I w \<and> ns \<in> nss (cat w))"
    by (intro bind_works)
  have eq: "ensure_namespace K ns ns = (\<lambda>w. if join ''/'' ns \<notin> known_namespaces (ice w) then
      bind_w (on_cat (namespace_exists K ns)) (\<lambda>b.
       bind_w (if \<not> b then on_cat (create_namespace K ns) else return_w ()) (\<lambda>_.
       note_namespace (join ''/'' ns))) w else return_w () w)"
    by (simp add: fun_eq_iff ensure_namespace_def Let_def return_w_def)
  show ?thesis unfolding eq
    by (rule ensures_cond [OF ensures_pre [OF slow]]) (auto simp: ensures_def return_w_def fine_def cache_inv_def)
qed

lemma load_works:
  assumes laws: "catalog_laws K tabs nss" and works: "catalog_works K tabs nss up"
  shows "ensures (\<lambda>w. fine tabs nss up ns w \<and> tabs (cat w) i \<noteq> None) (on_cat (load_table K i))
    (\<lambda>r w. \<exists>t. r = Ok t \<and> fine tabs nss up ns w \<and> tabs (cat w) i \<noteq> None)"
  by (rule on_cat_works [OF catalog_worksD(6) [OF works]]) (auto simp: load_table_law [OF laws] fine_def cache_inv_def)

lemma create_works:
  assumes laws: "catalog_laws K tabs nss" and works: "catalog_works K tabs nss up"
  shows "ensures (\<lambda>w. fine tabs nss up ns w \<and> ns \<in> nss (cat w) \<and> tabs (cat w) (ns, n) = None)
    (on_cat (create_table K ns n schema))
    (\<lambda>r w. \<exists>t. r = Ok t \<and> fine tabs nss up ns w \<and> tabs (cat w) (ns, n) \<noteq> None)"
proof (rule on_cat_works [OF catalog_worksD(7) [OF works]])
  fix w t c assume "fine tabs nss up ns w \<and> ns \<in> nss (cat w) \<and> tabs (cat w) (ns, n) = None"
    and "create_table K ns n schema (cat w) = (Ok t, c)" and "up c"
  then show "fine tabs nss up ns (w\<lparr>cat := c\<rparr>) \<and> tabs (cat (w\<lparr>cat := c\<rparr>)) (ns, n) \<noteq> None"
    using create_table_law [OF laws] by (auto simp: fine_def cache_inv_def)
qed (simp add: fine_def)

lemma get_or_create_table_works:
  assumes laws: "catalog_laws K tabs nss" and works: "catalog_works K tabs nss up" and ns: "ns \<noteq> []"
  shows "ensures (fine tabs nss up ns) (get_or_create_table K n ns defs) (\<lambda>r w. \<exists>t. r = Ok t \<and> fine tabs nss up ns w)"
proof -
  let ?I = "fine tabs nss up ns" and ?key = "table_key ns n"
  obtain schema where schema: "build_iceberg_schema (schema_build K) defs = Ok schema"
    using catalog_worksD(2) [OF works, of "fst (map_next_id iceberg_column defs 1)"]
    by (auto simp: build_iceberg_schema_def is_ok_iff context_err_def split_beta Let_def)
  have from_vec: "namespace_from_vec K ns = Ok ns"
    using catalog_worksD(1) [OF works ns] laws by (auto simp: catalog_laws_def query_law_def is_ok_iff)
  have ex: "ensures (\<lambda>w. ?I w \<and> ns \<in> nss (cat w)) (on_cat (table_exists K (ns, n)))
      (\<lambda>r w. \<exists>b. r = Ok b \<and> (?I w \<and> ns \<in> nss (cat w)) \<and> b = (tabs (cat w) (ns, n) \<noteq> None))"
  proof (rule on_cat_works [OF catalog_worksD(5) [OF works]])
    fix w b c assume "?I w \<and> ns \<in> nss (cat w)" and run: "table_exists K (ns, n) (cat w) = (Ok b, c)" and "up c"
    then show "(?I (w\<lparr>cat := c\<rparr>) \<and> ns \<in> nss (cat (w\<lparr>cat := c\<rparr>))) \<and> b = (tabs (cat (w\<lparr>cat := c\<rparr>)) (ns, n) \<noteq> None)"
      using table_exists_law(3) [OF laws run refl] by (simp add: table_exists_law(1,2) [OF laws run] fine_def cache_inv_def)
  qed (simp add: fine_def)
  have make: "ensures (\<lambda>w. (?I w \<and> ns \<in> nss (cat w)) \<and> b = (tabs (cat w) (ns, n) \<noteq> None))
      (if b then on_cat (load_table K (ns, n))
       else (\<lambda>w2. case build_iceberg_schema (schema_build K) defs of Inl e \<Rightarrow> (Err e, w2)
          | Inr schema \<Rightarrow> on_cat (create_table K ns n schema) w2))
      (\<lambda>r w. \<exists>t. r = Ok t \<and> ?I w \<and> tabs (cat w) (ns, n) \<noteq> None)" for b
    unfolding schema sum.case
  proof (rule ensures_cases)
    show "ensures (\<lambda>w. ((?I w \<and> ns \<in> nss (cat w)) \<and> b = (tabs (cat w) (ns, n) \<noteq> None)) \<and> b)
        (on_cat (load_table K (ns, n))) (\<lambda>r w. \<exists>t. r = Ok t \<and> ?I w \<and> tabs (cat w) (ns, n) \<noteq> None)"
      by (rule ensures_pre [OF load_works [OF laws works]]) blast
    show "ensures (\<lambda>w. ((?I w \<and> ns \<in> nss (cat w)) \<and> b = (tabs (cat w) (ns, n) \<noteq> None)) \<and> \<not> b)
        (\<lambda>w2. on_cat (create_table K ns n schema) w2) (\<lambda>r w. \<exists>t. r = Ok t \<and> ?I w \<and> tabs (cat w) (ns, n) \<noteq> None)"
      by (rule ensures_pre [OF create_works [OF laws works]]) blast
  qed
  have "ensures (\<lambda>w. ?I w \<and> tabs (cat w) (ns, n) \<noteq> None) (bind_w (note_table ?key) (\<lambda>_. return_w t))
      (\<lambda>r w. \<exists>t. r = Ok t \<and> ?I w)" for t
    by (auto simp: ensures_def bind_w_def note_table_def return_w_def fine_def cache_inv_def)
  note slow = bind_works [OF ex bind_works [OF make this]]
  have "ensures ?I (bind_w (ensure_namespace K ns ns) (\<lambda>_ w1.
      if ?key \<in> known_tables (ice w1) then on_cat (load_table K (ns, n)) w1
      else bind_w (on_cat (table_exists K (ns, n))) (\<lambda>b. bind_w (if b then on_cat (load_table K (ns, n))
       else (\<lambda>w2. case build_iceberg_schema (schema_build K) defs of Inl e \<Rightarrow> (Err e, w2)
          | Inr schema \<Rightarrow> on_cat (create_table K ns n schema) w2))
        (\<lambda>t. bind_w (note_table ?key) (\<lambda>_. return_w t))) w1)) (\<lambda>r w. \<exists>t. r = Ok t \<and> ?I w)"
    by (rule bind_works [OF ensure_namespace_works [OF laws works]],
        rule ensures_cond [OF ensures_pre [OF ensures_mono [OF load_works [OF laws works]]] ensures_pre [OF slow]])
      (auto simp: fine_def cache_inv_def)
  then show ?thesis unfolding ensures_def get_or_create_table_def by (simp add: from_vec Let_def)
qed

lemma get_table_write_context_works:
  assumes "catalog_laws (handle_catalog h) tabs nss" and "catalog_works (handle_catalog h) tabs nss up" and "ns \<noteq> []"
  shows "ensures (fine tabs nss up ns) (get_table_write_context h n ns defs) (\<lambda>r w. \<exists>ctx. r = Ok ctx \<and> fine tabs nss up ns w)"
proof -
  have "get_table_write_context h n ns defs = bind_w (get_or_create_table (handle_catalog h) n ns defs)
      (\<lambda>t. return_w (file_io (handle_catalog h) t, location (handle_catalog h) t, current_schema (handle_catalog h) t))"
    by (cases h) (simp_all add: get_table_write_context_def)
  then show ?thesis
    by (simp only:) (rule bind_works [OF get_or_create_table_works [OF assms]], simp add: ensures_def return_w_def)
qed

lemma commit_with_retry_works:
  assumes laws: "catalog_laws K tabs nss" and works: "catalog_works K tabs nss up"
    and "fine tabs nss up ns w" and "tabs (cat w) (table_identifier K t) \<noteq> None"
  shows "\<exists>w'. commit_with_retry K t files w = (Ok (), w') \<and> up (cat w')"
proof -
  have first: "[1..<max_attempts + 1] = 1 # [2..<max_attempts + 1]"
    using upt_conv_Cons [of 1 "max_attempts + 1"] by (simp add: max_attempts_def numeral_2_eq_2)
  obtain r c where run: "append_commit K t files (cat w) = (r, c)" by force
  have "is_ok r" "up c"
    using catalog_worksD(8) [OF works, of t files] assms(3,4) run unfolding call_works_def fine_def
    by (metis fst_conv snd_conv)+
  with run show ?thesis unfolding commit_with_retry_def first by (auto simp: on_cat_def is_ok_iff)
qed

lemma commit_data_files_works:
  assumes laws: "catalog_laws (handle_catalog h) tabs nss" and works: "catalog_works (handle_catalog h) tabs nss up"
    and ns: "ns \<noteq> []" and w: "fine tabs nss up ns w"
  shows "\<exists>w'. commit_data_files h n ns files defs w = (Ok (), w') \<and> fine tabs nss up ns w'"
proof (cases "files = []")
  case True
  then show ?thesis using w by (simp add: commit_data_files_def)
next
  case False
  let ?K = "handle_catalog h"
  obtain r w1 where get: "get_or_create_table ?K n ns defs w = (r, w1)" by force
  obtain t where t: "r = Ok t" "fine tabs nss up ns w1"
    using ensuresD [OF get_or_create_table_works [OF laws works ns] w get] by blast
  have "keeps tabs nss ns w w" using w by (simp add: keeps_def fine_def)
  from ensuresD [OF get_or_create_table_keeps [OF laws] this get] t(1)
  have "tabs (cat w1) (table_identifier ?K t) \<noteq> None" by simp
  from commit_with_retry_works [OF laws works t(2) this] obtain w2 where
    com: "commit_with_retry ?K t files w1 = (Ok (), w2)" "up (cat w2)" by blast
  have "commit_data_files h n ns files defs w = do_commit_data_files ?K n ns files defs w"
    using False by (cases h) (simp_all add: commit_data_files_def)
  then obtain w' where run: "commit_data_files h n ns files defs w = (Ok (), w')" "cat w' = cat w2"
    using get t(1) com(1) by (simp add: do_commit_data_files_def bind_w_def)
  with commit_data_files_spec [OF laws _ run(1)] w com(2) show ?thesis by (simp add: fine_def)
qed

lemma commit_each_works:
  assumes "\<And>n files w. I w \<Longrightarrow> \<exists>w'. commit n files w = (Ok (), w') \<and> I w'"
  shows "I w \<Longrightarrow> \<exists>w'. commit_each commit m True w = (True, w') \<and> I w'"
proof (induction m arbitrary: w)
  case (Cons p m)
  obtain n files where p: "p = (n, files)" by force
  from assms [OF Cons.prems, of n files] obtain w1 where "commit n files w = (Ok (), w1)" "I w1" by blast
  with Cons.IH [of w1] Cons.IH [OF Cons.prems] show ?case by (simp add: p)
qed simp

lemma commit_batch_works:
  assumes "catalog_laws (handle_catalog h) tabs nss" and "catalog_works (handle_catalog h) tabs nss up"
    and "fine tabs nss up analytics w"
  shows "\<exists>w'. commit_batch order h cfg batch w = (True, w') \<and> fine tabs nss up analytics w'"
  unfolding commit_batch_def using assms(3)
  by (rule commit_each_works [rotated]) (rule commit_data_files_works [OF assms(1,2)], simp_all add: analytics_def)

section \<open>The flush cycle and the pipeline\<close>

lemma do_flush_works:
  assumes db: "rocksdb_laws A contents" "db_works A contents" "store_inv contents s"
    and cat: "build_catalog lr lg cfg = Some (Ok h)" "catalog_laws (handle_catalog h) tabs nss"
      "catalog_works (handle_catalog h) tabs nss up" "fine tabs nss up analytics w"
    and name: "contents (db s) (rotated_cf_name now) = None"
  shows "\<exists>tasks s' w'. do_flush A g lr lg now cfg s w = (Some (Ok tasks), s', w') \<and>
    fine tabs nss up analytics w' \<and> active_cf s' = rotated_cf_name now \<and> contents (db s') (active_cf s') = Some []"
proof -
  obtain r s2 where fr: "freeze_cfs A g now s = (r, s2)" by force
  have "is_ok (fst (create_cf A (db s) (rotated_cf_name now) (make_cf_opts (write_buffer_size s))))"
    using db(2) name by (simp add: db_works_def)
  then obtain cfs where r: "r = Ok cfs"
    using fr by (auto simp: freeze_cfs_def get_orphaned_cfs_def rotate_def Let_def is_ok_iff split: prod.splits)
  obtain c w1 where get: "get_table_write_context h (micewriter_table cfg) analytics (field_defs cfg) w = (c, w1)" by force
  have "analytics \<noteq> []" by (simp add: analytics_def)
  from ensuresD [OF get_table_write_context_works [OF cat(2,3) this] cat(4) get]
  obtain ctx where "c = Ok ctx" "fine tabs nss up analytics w1" by blast
  with get cat(1) fr r freeze_cfs_store [OF db(1,3) fr] show ?thesis
    by (auto simp: do_flush_def spawn_tasks_def was_rotated_def Let_def)
qed

lemma write_chunks_works: "writer_works P \<Longrightarrow> is_ok (write_chunks P sch cs w)"
proof (induction cs arbitrary: w)
  case (Cons c cs)
  obtain b where b: "to_record_batch P sch c = Ok b"
    using writer_worksD(2) [OF Cons.prems, of sch c] unfolding is_ok_iff by blast
  obtain u w' where "write_batch P w b = (Ok u, w')"
    using writer_worksD(3) [OF Cons.prems, of w b] unfolding is_ok_iff by (metis prod.collapse)
  with b Cons show ?case by (simp add: flush_events_to_writer_def context_err_def)
qed (simp add: is_ok_iff)

lemma compile_cf_pipeline_works:
  assumes "writer_works P"
  shows "\<exists>files m'. compile_cf_pipeline A P uuid s n target compr ctx sch m = (Ok files, m')"
proof -
  obtain io loc schema where ctx: "ctx = (io, loc, schema)" using prod_cases3 by blast
  obtain w where w: "build_writer P compr (1024 * 1024) (loc @ ''/data'') uuid schema target io = Ok w"
    using writer_worksD(1) [OF assms] unfolding is_ok_iff by blast
  obtain w' where w': "write_chunks P sch (chunks batch_limit (decoded P
      (if cf_handle A (db s) n then yielded (iterator_start A (db s) n) else []))) w = Ok w'"
    using write_chunks_works [OF assms] unfolding is_ok_iff by blast
  obtain files where "close_writer P w' = Ok files"
    using writer_worksD(4) [OF assms, of w'] unfolding is_ok_iff by blast
  with w w' show ?thesis
    by (simp add: ctx compile_cf_pipeline_chunks and_then_def context_err_def)
qed

lemma run_flush_task_works:
  assumes "writer_works P"
  shows "\<exists>files m'. run_flush_task A P uuid True t s m =
    (Some \<lparr> cf_name = task_cf t, table_data_files = [(task_table t, files)] \<rparr>, s, m')"
  using compile_cf_pipeline_works [OF assms, of A uuid s "task_cf t" "task_target_parquet_bytes t"
      "task_parquet_compression t" "task_write_context t" "task_arrow_schema t" m]
  by (auto simp: run_flush_task_def)

lemma drop_frozen_cf_works:
  "db_works A contents \<Longrightarrow> contents (db s) n \<noteq> None \<Longrightarrow> \<exists>s'. drop_frozen_cf A n s = (Ok (), s')"
  using db_worksD(2) [of A contents "db s" n]
  by (cases "drop_cf A (db s) n") (auto simp: drop_frozen_cf_def is_ok_iff Let_def split: option.splits)

end
