(* ===== verification/Engine_Recovery.thy ===== *)
theory Engine_Recovery
  imports Engine_Acks Nothing_Fails
begin

text \<open>
  A restart can always recover: from any state of a life, if nothing fails any more, the restarted
  engine can bring everything that was accepted into the table. In particular nothing that a failed
  flush cycle forgot stays behind for good, and no family is wedged.
\<close>

section \<open>Runs in which nothing fails\<close>

definition nothing_fails ::
    "('p, 'd, 'w, 'e, 'b, 's, 'io, 'f, 'c, 't) externals \<Rightarrow> 'd contents \<Rightarrow> config \<Rightarrow>
     ('c, 't, 's, 'io, 'f) catalog catalog_handle \<Rightarrow> ('c, 'f) snapshots \<Rightarrow> 'c namespaces \<Rightarrow> ('c \<Rightarrow> bool) \<Rightarrow> bool" where
  "nothing_fails X contents cfg h tabs nss up \<longleftrightarrow>
     db_works (rocks X) contents \<and> writer_works (pq X) \<and> catalog_works (handle_catalog h) tabs nss up \<and>
     0 < unat (concurrent_cf_flushes cfg)"

definition calm_step ::
    "('p, 'd, 'w, 'e, 'b, 's, 'io, 'f, 'c, 't) externals \<Rightarrow> 'd contents \<Rightarrow> ('f \<Rightarrow> 'e list) \<Rightarrow> config \<Rightarrow>
     ('c, 't, 's, 'io, 'f) catalog catalog_handle \<Rightarrow>
     ('d, 'c, 's, 'io, 'f, 'e) engine \<Rightarrow> ('d, 'c, 's, 'io, 'f, 'e) engine \<Rightarrow> bool" where
  "calm_step X contents file_rows cfg h st st' \<longleftrightarrow> calm X contents st \<and> step X contents file_rows cfg h st st'"

lemma working_calm_step:
  assumes "db_works (rocks X) contents" and "appends st = []" and "step X contents file_rows cfg h st st'"
  shows "calm_step X contents file_rows cfg h st st'"
  using assms db_worksD(3) by (fastforce simp: calm_step_def calm_def)

lemma calm_step_sound:
  "engine_laws X contents batch_rows rows file_rows cfg h tabs nss \<Longrightarrow> sound X contents file_rows cfg tabs nss st \<Longrightarrow>
   calm_step X contents file_rows cfg h st st' \<Longrightarrow> sound X contents file_rows cfg tabs nss st'"
  by (erule (1) calm_life_step_sound) (simp add: calm_step_def calm_life_step_def)

lemma calm_steps_sound:
  assumes "(calm_step X contents file_rows cfg h)\<^sup>*\<^sup>* st st'"
    and "engine_laws X contents batch_rows rows file_rows cfg h tabs nss" and "sound X contents file_rows cfg tabs nss st"
  shows "sound X contents file_rows cfg tabs nss st'"
  using assms(1,3) by (induction rule: rtranclp_induct) (use calm_step_sound [OF assms(2)] in blast)+

text \<open>The tasks run one after the other.\<close>

lemma tasks_run:
  assumes "nothing_fails X contents cfg h tabs nss up"
  shows "waiting st = ts \<Longrightarrow> appends st = [] \<Longrightarrow> running st = [] \<Longrightarrow> main st \<noteq> Exited \<Longrightarrow>
    \<exists>reqs w'. (calm_step X contents file_rows cfg h)\<^sup>*\<^sup>* st (st\<lparr>waiting := [], world := w', channel := channel st @ reqs\<rparr>) \<and>
      map cf_name reqs = map task_cf ts \<and> cat w' = cat (world st) \<and> ice w' = ice (world st)"
proof (induction ts arbitrary: st)
  case Nil
  then have "st\<lparr>waiting := [], world := world st, channel := channel st @ []\<rparr> = st" by simp
  then show ?case by (intro exI [of _ "[]"] exI [of _ "world st"]) simp
next
  case (Cons t ts)
  have works: "db_works (rocks X) contents" "writer_works (pq X)" "0 < unat (concurrent_cf_flushes cfg)"
    using assms by (simp_all add: nothing_fails_def)
  obtain files m where run: "run_flush_task (rocks X) (pq X) ''u'' True t (store st) (mets (world st)) =
      (Some \<lparr> cf_name = task_cf t, table_data_files = [(task_table t, files)] \<rparr>, store st, m)" (is "_ = (Some ?req, _)")
    using run_flush_task_works [OF works(2)] by metis
  define st1 st2 where "st1 = st\<lparr>waiting := ts, running := [t]\<rparr>"
    and "st2 = st\<lparr>waiting := ts, world := (world st)\<lparr>mets := m\<rparr>, channel := channel st @ [?req]\<rparr>"
  have a: "step X contents file_rows cfg h st st1"
    using Acquire_Permit [of st "[]" t ts cfg X contents file_rows h] Cons.prems works(3) by (simp add: st1_def)
  have "finish_task X ''u'' t (st1\<lparr>running := []\<rparr>) = st2"
    using run Cons.prems by (simp add: finish_task_def st1_def st2_def)
  then have b: "step X contents file_rows cfg h st1 st2"
    using Finish_Task [of st1 "[]" t "[]" X contents file_rows cfg h "''u''"] by (simp add: st1_def)
  have "waiting st2 = ts" "appends st2 = []" "running st2 = []" "main st2 \<noteq> Exited"
    using Cons.prems by (simp_all add: st2_def)
  from Cons.IH [OF this] obtain reqs w' where rest:
    "(calm_step X contents file_rows cfg h)\<^sup>*\<^sup>* st2 (st2\<lparr>waiting := [], world := w', channel := channel st2 @ reqs\<rparr>)"
    "map cf_name reqs = map task_cf ts" "cat w' = cat (world st)" "ice w' = ice (world st)" by (auto simp: st2_def)
  have "calm_step X contents file_rows cfg h st st1" "calm_step X contents file_rows cfg h st1 st2"
    using working_calm_step [OF works(1)] a b Cons.prems(2) by (simp_all add: st1_def)
  then have "(calm_step X contents file_rows cfg h)\<^sup>*\<^sup>* st (st2\<lparr>waiting := [], world := w', channel := channel st2 @ reqs\<rparr>)"
    using rest(1) by (meson converse_rtranclp_into_rtranclp)
  with rest show ?case
    by (intro exI [of _ "?req # reqs"] exI [of _ w']) (simp add: st2_def)
qed

text \<open>The families of committed requests are dropped one after the other.\<close>

lemma drops_run:
  assumes laws: "engine_laws X contents batch_rows rows file_rows cfg h tabs nss"
    and nf: "nothing_fails X contents cfg h tabs nss up"
  shows "dropping st = reqs \<Longrightarrow> appends st = [] \<Longrightarrow> sound X contents file_rows cfg tabs nss st \<Longrightarrow>
    \<exists>s'. (calm_step X contents file_rows cfg h)\<^sup>*\<^sup>* st (st\<lparr>store := s', dropping := []\<rparr>) \<and>
      active_cf s' = active_cf (store st) \<and> orphaned_cfs s' = orphaned_cfs (store st) \<and>
      contents (db s') (active_cf (store st)) = contents (db (store st)) (active_cf (store st))"
proof (induction reqs arbitrary: st)
  case Nil
  then have "st\<lparr>store := store st, dropping := []\<rparr> = st" by simp
  then show ?case by (intro exI [of _ "store st"]) simp
next
  case (Cons req rest)
  have rl: "rocksdb_laws (rocks X) contents" and dw: "db_works (rocks X) contents"
    using laws nf by (simp_all add: engine_laws_def nothing_fails_def)
  obtain dup where inv: "engine_inv dup X contents file_rows cfg tabs nss st" and nl: "no_loss X contents file_rows st"
    using Cons.prems(3) by (auto simp: sound_def)
  have "cf_name req \<in> set (known st)" using Cons.prems(1) by (simp add: place_defs)
  then obtain s1 where drop: "drop_frozen_cf (rocks X) (cf_name req) (store st) = (Ok (), s1)"
    using drop_frozen_cf_works [OF dw, of "store st" "cf_name req"] known_exists [OF inv] by blast
  have "distinct (known st)" using engine_invD(3) [OF inv] by (simp add: families_ok_def)
  then have act: "cf_name req \<noteq> active_cf (store st)" using Cons.prems(1) by (auto simp: place_defs)
  note dropped = drop_frozen_cf_cases [OF rl engine_invD(1) [OF inv] act drop]
  have "request_rows file_rows req = family_events (pq X) contents (store st) (cf_name req)"
    using nl Cons.prems(1) by (simp add: no_loss_def requests_def settled_requests_def)
  then have "drop_step X contents file_rows req (st\<lparr>dropping := rest\<rparr>) = st\<lparr>dropping := rest, store := s1\<rparr>"
    (is "_ = ?st1") using drop by (simp add: drop_step_def)
  then have "calm_step X contents file_rows cfg h st ?st1"
    using Drop_Family [OF Cons.prems(1), of X contents file_rows cfg h] working_calm_step [OF dw Cons.prems(2)] by metis
  moreover have "\<exists>s'. (calm_step X contents file_rows cfg h)\<^sup>*\<^sup>* ?st1 (?st1\<lparr>store := s', dropping := []\<rparr>) \<and>
      active_cf s' = active_cf (store ?st1) \<and> orphaned_cfs s' = orphaned_cfs (store ?st1) \<and>
      contents (db s') (active_cf (store ?st1)) = contents (db (store ?st1)) (active_cf (store ?st1))"
    using Cons.prems(2) calm_step_sound [OF laws Cons.prems(3) calculation] by (intro Cons.IH) simp_all
  then obtain s' where "(calm_step X contents file_rows cfg h)\<^sup>*\<^sup>* ?st1 (st\<lparr>store := s', dropping := []\<rparr>)"
    "active_cf s' = active_cf s1" "orphaned_cfs s' = orphaned_cfs s1"
    "contents (db s') (active_cf s1) = contents (db s1) (active_cf s1)" by auto
  ultimately show ?case
    using dropped act by (intro exI [of _ s']) (auto intro: converse_rtranclp_into_rtranclp)
qed

section \<open>A cycle that leaves nothing\<close>

definition idle :: "('d, 'c, 's, 'io, 'f, 'e) engine \<Rightarrow> bool" where
  "idle st \<longleftrightarrow> appends st = [] \<and> flushing st = None \<and> waiting st = [] \<and> running st = [] \<and> channel st = [] \<and>
     dropping st = [] \<and> undropped st = [] \<and> stranded st = [] \<and> main st = Serving \<and> loop_running st"

lemma idle_restarted: "restart X contents cfg st st' \<Longrightarrow> idle st' \<and> cat (world st') = cat (world st)"
  by (auto simp: restart_def restarted_def boot_def idle_def)

lemma recovery_flush:
  assumes laws: "engine_laws X contents batch_rows rows file_rows cfg h tabs nss"
    and nf: "nothing_fails X contents cfg h tabs nss up"
    and builds: "build_catalog (rest_builder X) (glue_builder X) cfg = Some (Ok h)"
    and sound: "sound X contents file_rows cfg tabs nss st" and idle: "idle st" and up: "up (cat (world st))"
    and now: "now < 2 ^ 64" "contents (db (store st)) (rotated_cf_name now) = None"
  shows "\<exists>s' w' tasks. (calm_step X contents file_rows cfg h)\<^sup>*\<^sup>* st (st\<lparr>store := s', world := w', waiting := tasks\<rparr>) \<and>
    up (cat w') \<and> tasks \<noteq> [] \<and> orphaned_cfs s' = [] \<and> contents (db s') (active_cf s') = Some []"
proof -
  have works: "rocksdb_laws (rocks X) contents" "db_works (rocks X) contents" "catalog_laws (handle_catalog h) tabs nss"
    "catalog_works (handle_catalog h) tabs nss up"
    using laws nf by (simp_all add: engine_laws_def nothing_fails_def)
  obtain dup where inv: "engine_inv dup X contents file_rows cfg tabs nss st" using sound by (auto simp: sound_def)
  have w: "fine tabs nss up analytics (world st)" using engine_invD(2) [OF inv] up by (simp add: fine_def)
  from do_flush_works [OF works(1,2) engine_invD(1) [OF inv] builds works(3,4) w now(2)] obtain tasks s' w' where
    fl: "do_flush (rocks X) (\<lambda>hi. hi) (rest_builder X) (glue_builder X) now cfg (store st) (world st) = (Some (Ok tasks), s', w')"
    and out: "fine tabs nss up analytics w'" "contents (db s') (active_cf s') = Some []" by blast
  note st = do_flush_store [OF works(1) engine_invD(1) [OF inv] fl]
  have rest: "appends st = []" "flushing st = None" "waiting st = []" "loop_running st"
    using idle by (simp_all add: idle_def)
  from flush_cycle_steps [OF fl rest(2)] obtain cfs where
    cyc: "flush_begin X (\<lambda>hi. hi) now st = st\<lparr>store := s', flushing := Some cfs\<rparr>" (is "_ = ?st1")
      "flush_end X cfg cfs (st\<lparr>store := s', flushing := Some cfs\<rparr>) =
        Some (st\<lparr>store := s', world := w', waiting := waiting st @ tasks\<rparr>)" by blast
  have "step X contents file_rows cfg h st ?st1"
    using Flush_Begin [of st Timer now X contents file_rows cfg h "\<lambda>hi. hi"] rest now(1) by (simp add: cyc(1))
  moreover have "step X contents file_rows cfg h ?st1 (st\<lparr>store := s', world := w', waiting := tasks\<rparr>)"
    using Flush_End [OF _ cyc(2), of contents file_rows h] rest(3) by simp
  ultimately have "(calm_step X contents file_rows cfg h)\<^sup>*\<^sup>* st (st\<lparr>store := s', world := w', waiting := tasks\<rparr>)"
    using working_calm_step [OF works(2)] rest(1)
    by (intro converse_rtranclp_into_rtranclp [OF _ r_into_rtranclp, of _ st ?st1]) simp_all
  moreover have "tasks \<noteq> []" using st by auto
  ultimately show ?thesis using out st by (auto simp: fine_def)
qed

lemma recovery_commit:
  assumes laws: "engine_laws X contents batch_rows rows file_rows cfg h tabs nss"
    and nf: "nothing_fails X contents cfg h tabs nss up"
    and sound: "sound X contents file_rows cfg tabs nss st" and up: "up (cat (world st))"
    and st: "channel st = reqs" "reqs \<noteq> []" "dropping st = []" "appends st = []"
  shows "\<exists>w'. (calm_step X contents file_rows cfg h)\<^sup>*\<^sup>* st (st\<lparr>channel := [], world := w', dropping := reqs\<rparr>)"
proof -
  have works: "db_works (rocks X) contents" "catalog_laws (handle_catalog h) tabs nss"
    "catalog_works (handle_catalog h) tabs nss up"
    using laws nf by (simp_all add: engine_laws_def nothing_fails_def)
  have "fine tabs nss up analytics (world st)" using sound up engine_invD(2) by (auto simp: sound_def fine_def)
  from commit_batch_works [OF works(2,3) this] obtain w' where
    "commit_batch (hash_order X) h cfg reqs (world st) = (True, w')" by blast
  then have "commit_step X h cfg reqs (st\<lparr>channel := []\<rparr>) = st\<lparr>channel := [], world := w', dropping := reqs\<rparr>"
    by (simp add: commit_step_def)
  then have "step X contents file_rows cfg h st (st\<lparr>channel := [], world := w', dropping := reqs\<rparr>)"
    using Commit_Round [of st reqs "[]" X contents file_rows cfg h] st by simp
  then show ?thesis using working_calm_step [OF works(1) st(4)] by blast
qed

lemma recovery_run:
  assumes laws: "engine_laws X contents batch_rows rows file_rows cfg h tabs nss"
    and nf: "nothing_fails X contents cfg h tabs nss up"
    and builds: "build_catalog (rest_builder X) (glue_builder X) cfg = Some (Ok h)"
    and sound: "sound X contents file_rows cfg tabs nss st" and idle: "idle st" and up: "up (cat (world st))"
    and now: "now < 2 ^ 64" "contents (db (store st)) (rotated_cf_name now) = None"
  shows "\<exists>st'. (calm_step X contents file_rows cfg h)\<^sup>*\<^sup>* st st' \<and> accepted st' = accepted st \<and> idle st' \<and>
    orphaned_cfs (store st') = [] \<and> contents (db (store st')) (active_cf (store st')) = Some []"
proof -
  let ?R = "(calm_step X contents file_rows cfg h)\<^sup>*\<^sup>*"
  from recovery_flush [OF assms] obtain s1 w1 tasks where
    flush: "?R st (st\<lparr>store := s1, world := w1, waiting := tasks\<rparr>)" and w1: "up (cat w1)" and tasks: "tasks \<noteq> []"
    and s1: "orphaned_cfs s1 = []" "contents (db s1) (active_cf s1) = Some []" by blast
  define st1 where "st1 = st\<lparr>store := s1, world := w1, waiting := tasks\<rparr>"
  have i: "waiting st1 = tasks" "appends st1 = []" "running st1 = []" "main st1 \<noteq> Exited" "channel st1 = []"
    using idle by (simp_all add: st1_def idle_def)
  from tasks_run [OF nf i(1-4), of file_rows] obtain reqs w2 where
    run: "?R st1 (st1\<lparr>waiting := [], world := w2, channel := channel st1 @ reqs\<rparr>)"
    and reqs: "map cf_name reqs = map task_cf tasks" and w2: "cat w2 = cat w1" by (auto simp: st1_def)
  define st2 where "st2 = st\<lparr>store := s1, world := w2, channel := reqs\<rparr>"
  have st2: "st1\<lparr>waiting := [], world := w2, channel := channel st1 @ reqs\<rparr> = st2"
    using idle by (simp add: st1_def st2_def idle_def)
  have R2: "?R st st2" using flush run unfolding st2 st1_def [symmetric] by (rule rtranclp_trans)
  have "reqs \<noteq> []" using reqs tasks by auto
  moreover have "channel st2 = reqs" "dropping st2 = []" "appends st2 = []" "up (cat (world st2))"
    using idle w1 w2 by (simp_all add: st2_def idle_def)
  ultimately obtain w3 where commit: "?R st2 (st2\<lparr>channel := [], world := w3, dropping := reqs\<rparr>)"
    using recovery_commit [OF laws nf calm_steps_sound [OF R2 laws sound]] by blast
  define st3 where "st3 = st\<lparr>store := s1, world := w3, dropping := reqs\<rparr>"
  have "st2\<lparr>channel := [], world := w3, dropping := reqs\<rparr> = st3"
    using idle by (simp add: st2_def st3_def idle_def)
  with commit R2 have R3: "?R st st3" by (metis rtranclp_trans)
  have "dropping st3 = reqs" "appends st3 = []" using idle by (simp_all add: st3_def idle_def)
  from drops_run [OF laws nf this calm_steps_sound [OF R3 laws sound]] obtain s4 where
    drops: "?R st3 (st3\<lparr>store := s4, dropping := []\<rparr>)"
    and s4: "active_cf s4 = active_cf s1" "orphaned_cfs s4 = orphaned_cfs s1"
      "contents (db s4) (active_cf s1) = contents (db s1) (active_cf s1)" by (auto simp: st3_def)
  have "?R st (st3\<lparr>store := s4, dropping := []\<rparr>)" using R3 drops by (rule rtranclp_trans)
  moreover have "accepted (st3\<lparr>store := s4, dropping := []\<rparr>) = accepted st" "idle (st3\<lparr>store := s4, dropping := []\<rparr>)"
    using idle by (simp_all add: st3_def idle_def)
  ultimately show ?thesis using s1 s4 by (intro exI [of _ "st3\<lparr>store := s4, dropping := []\<rparr>"]) simp
qed

section \<open>The property\<close>


lemma demo_works:
  assumes "demo_startup = Some (Ok (cfg, h, st0))" and "0 < unat (concurrent_cf_flushes cfg)"
  shows "nothing_fails demo_externals (\<lambda>d. d) cfg h mem_tables mem_namespaces (\<lambda>c. failures c = 0)"
proof -
  have "db_works mem_db (\<lambda>d. d)" by (auto simp: db_works_def mem_db_def is_ok_iff)
  moreover have "writer_works mem_parquet" by (simp add: writer_works_def mem_parquet_def is_ok_iff)
  moreover have "catalog_works mem_catalog mem_tables mem_namespaces (\<lambda>c. failures c = 0)"
    by (auto simp: catalog_works_def call_works_def mem_catalog_def is_ok_iff)
  ultimately show ?thesis
    using assms(2) demo_handle(1) [OF assms(1)] by (simp add: nothing_fails_def demo_rocks demo_pq)
qed


end
