(* ===== verification/Flush_Loops.thy ===== *)
theory Flush_Loops
  imports Flush_Engine
begin

text \<open>
  src/src/flush_engine.rs: the two loops on their own, \<open>run_flush_loop\<close> over the wake-ups it gets and
  \<open>run_committer_loop\<close> over the batches it receives. In the theory \<open>Engine\<close> their iterations are
  interleaved with the steps of all other tasks.
\<close>

section \<open>The committer loop\<close>

text \<open>
  Each element is what \<open>recv\<close> returned and what \<open>try_recv\<close> returned after it until the channel was
  empty; the list ends where \<open>recv\<close> finds the channel closed.
\<close>

fun run_committer_loop ::
    "('p, 'd) rocksdb \<Rightarrow> ((string \<times> 'f list) list \<Rightarrow> (string \<times> 'f list) list) \<Rightarrow>
     ('c, 't, 's, 'io, 'f) catalog catalog_handle \<Rightarrow> config \<Rightarrow> ('f commit_request \<times> 'f commit_request list) list \<Rightarrow>
     'd rocks_store \<Rightarrow> 'c world \<Rightarrow> 'd rocks_store \<times> 'c world" where
  "run_committer_loop A hash_order h cfg [] s w = (s, w)"
| "run_committer_loop A hash_order h cfg ((first_req, reqs) # rx) s w =
     (case committer_round A hash_order h cfg (first_req # reqs) s w of
        (fully_committed, s', w') \<Rightarrow> run_committer_loop A hash_order h cfg rx s' w')"

section \<open>The flush loop\<close>

text \<open>
  One turn of the loop: what ended the sleep, what the random numbers and the clock are, and what the
  other tasks have done to the store and the catalog in the meantime.
\<close>

record ('d, 'c) turn =
  woken :: wake
  interval_draw :: "u64 \<Rightarrow> u64"
  limit_draw :: "u64 \<Rightarrow> u64"
  clock :: nat
  meanwhile :: "'d rocks_store \<times> 'c world \<Rightarrow> 'd rocks_store \<times> 'c world"

datatype loop_end = Asleep | Returned | Panicked

text \<open>What the loop leaves behind: how it ended, how long it slept, what its cycles returned.\<close>

record ('d, 'c, 'io, 's) loop_trace =
  ended :: loop_end
  slept :: "u64 list"
  cycles :: "('io, 's) flush_task list result list"
  end_store :: "'d rocks_store"
  end_world :: "'c world"

fun run_flush_loop ::
    "('p, 'd) rocksdb \<Rightarrow>
     (string \<Rightarrow> (string \<times> string) list \<Rightarrow> ('c, 't, 's, 'io, 'f) catalog result) \<Rightarrow>
     (string \<Rightarrow> (string \<times> string) list \<Rightarrow> ('c, 't, 's, 'io, 'f) catalog result) \<Rightarrow>
     config \<Rightarrow> ('d, 'c) turn list \<Rightarrow> 'd rocks_store \<Rightarrow> 'c world \<Rightarrow> ('d, 'c, 'io, 's) loop_trace" where
  "run_flush_loop A load_rest load_glue cfg [] s w =
     \<lparr> ended = Asleep, slept = [], cycles = [], end_store = s, end_world = w \<rparr>"
| "run_flush_loop A load_rest load_glue cfg (t # turns) s w =
     (let secs = sleep_secs (interval_draw t) cfg s;
          (s1, w1) = meanwhile t (s, w)
      in case flush_loop_action (woken t) of
           Return \<Rightarrow> \<lparr> ended = Returned, slept = [secs], cycles = [], end_store = s1, end_world = w1 \<rparr>
         | Continue \<Rightarrow>
             (let r = run_flush_loop A load_rest load_glue cfg turns s1 w1
              in r\<lparr>slept := secs # slept r\<rparr>)
         | Flush \<Rightarrow>
             (case do_flush A (limit_draw t) load_rest load_glue (clock t) cfg s1 w1 of
                (None, s2, w2) \<Rightarrow>
                  \<lparr> ended = Panicked, slept = [secs], cycles = [], end_store = s2, end_world = w2 \<rparr>
              | (Some c, s2, w2) \<Rightarrow>
                  (let r = run_flush_loop A load_rest load_glue cfg turns s2 w2
                   in r\<lparr>slept := secs # slept r, cycles := c # cycles r\<rparr>)))"

section \<open>What the committer loop comes to\<close>

text \<open>The requests of the batches that were committed, and of those that were not.\<close>

definition chosen :: "bool \<Rightarrow> bool list \<Rightarrow> 'q list list \<Rightarrow> 'q list" where
  "chosen b oks batches = concat (map snd (filter (\<lambda>p. fst p = b) (zip oks batches)))"

lemma chosen_simps [simp]:
  "chosen b [] batches = []"
  "chosen b (ok # oks) (batch # batches) = (if ok = b then batch else []) @ chosen b oks batches"
  by (simp_all add: chosen_def)

definition received_batches :: "('q \<times> 'q list) list \<Rightarrow> 'q list list" where
  "received_batches rx = map (\<lambda>(r, rs). r # rs) rx"

lemma received_batches_simps [simp]:
  "received_batches [] = []" "received_batches ((r, rs) # rx) = (r # rs) # received_batches rx"
  by (simp_all add: received_batches_def)

lemma run_committer_loop_spec:
  assumes laws: "rocksdb_laws A contents" "catalog_laws (handle_catalog h) tabs nss" "\<And>m. mset (order m) = mset m"
    and tr: "truthful (handle_catalog h) tabs"
  shows "store_inv contents s \<Longrightarrow> cache_inv tabs nss analytics w \<Longrightarrow>
    (\<forall>req \<in> set (concat (received_batches rx)). cf_name req \<noteq> active_cf s \<and> keys_of (table_data_files req) \<subseteq> {table}) \<Longrightarrow>
    run_committer_loop A order h cfg rx s w = (s', w') \<Longrightarrow>
    store_inv contents s' \<and> cache_inv tabs nss analytics w' \<and>
    (\<exists>oks. length oks = length rx \<and>
       orphaned_cfs s' = orphaned_cfs s @ map cf_name (chosen False oks (received_batches rx)) \<and>
       (\<forall>t. files_of tabs w' (analytics, t) = files_of tabs w (analytics, t) @
          concat (map (\<lambda>req. files_for t (table_data_files req)) (chosen True oks (received_batches rx)))) \<and>
       (\<forall>n. n \<notin> cf_name ` set (chosen True oks (received_batches rx)) \<longrightarrow> cf_values contents s' n = cf_values contents s n))"
proof (induction rx arbitrary: s w)
  case Nil
  then show ?case by simp
next
  case (Cons b rx)
  obtain r rs where b: "b = (r, rs)" by force
  obtain ok s1 w1 where round: "committer_round A order h cfg (r # rs) s w = (ok, s1, w1)" by (metis prod_cases3)
  have rest: "run_committer_loop A order h cfg rx s1 w1 = (s', w')" using Cons.prems(4) round by (simp add: b)
  have batch: "active_cf s \<notin> cf_name ` set (r # rs)" "\<forall>req \<in> set (r # rs). keys_of (table_data_files req) \<subseteq> {table}"
    using Cons.prems(3) by (auto simp: b)
  note st = committer_round_store [OF laws(1) Cons.prems(1) batch(1) round]
  note wd = committer_round_world [OF laws(2) Cons.prems(2) laws(3) round]
  have files: "files_of tabs w1 (analytics, t) = files_of tabs w (analytics, t) @
      concat (map (\<lambda>req. files_for t (table_data_files req)) (if ok then r # rs else []))" for t
  proof (cases ok)
    case True
    with wd(2) [of t] tr obtain c where "files_of tabs w1 (analytics, t) = files_of tabs w (analytics, t) @
        copies c (concat (map (\<lambda>req. files_for t (table_data_files req)) (r # rs)))" "0 < c" "c \<le> 1" by blast
    then have "c = 1" by simp
    with \<open>files_of tabs w1 (analytics, t) = _\<close> True show ?thesis by simp
  next
    case False
    with wd(3) [OF False tr batch(2)] show ?thesis by simp
  qed
  have vals: "cf_values contents s1 n = cf_values contents s n" if "n \<notin> cf_name ` set (if ok then r # rs else [])" for n
  proof -
    have "contents (db s1) n = contents (db s) n" using st that by (cases ok) auto
    then show ?thesis by (simp add: cf_values_def)
  qed
  have "\<forall>req \<in> set (concat (received_batches rx)). cf_name req \<noteq> active_cf s1 \<and> keys_of (table_data_files req) \<subseteq> {table}"
    using Cons.prems(3) st by (simp add: b)
  from Cons.IH [OF _ wd(1) this rest] st obtain oks where
    inv: "store_inv contents s'" "cache_inv tabs nss analytics w'" and oks: "length oks = length rx"
      "orphaned_cfs s' = orphaned_cfs s1 @ map cf_name (chosen False oks (received_batches rx))"
      "\<forall>t. files_of tabs w' (analytics, t) = files_of tabs w1 (analytics, t) @
          concat (map (\<lambda>req. files_for t (table_data_files req)) (chosen True oks (received_batches rx)))"
      "\<forall>n. n \<notin> cf_name ` set (chosen True oks (received_batches rx)) \<longrightarrow> cf_values contents s' n = cf_values contents s1 n"
    by blast
  have "orphaned_cfs s1 = orphaned_cfs s @ map cf_name (if ok then [] else r # rs)" using st by (cases ok) simp_all
  moreover have "cf_values contents s' n = cf_values contents s n"
    if "n \<notin> cf_name ` set (chosen True (ok # oks) (received_batches ((r, rs) # rx)))" for n
  proof -
    have "n \<notin> cf_name ` set (if ok then r # rs else [])" "n \<notin> cf_name ` set (chosen True oks (received_batches rx))"
      using that by (auto simp: image_Un)
    with vals oks(4) show ?thesis by metis
  qed
  ultimately show ?case
    using inv oks files by (intro conjI exI [of _ "ok # oks"]) (auto simp: b)
qed

section \<open>What the flush loop comes to\<close>

text \<open>The turns before the one in which the loop is told to stop.\<close>

definition stops :: "('d, 'c) turn \<Rightarrow> bool" where
  "stops t \<longleftrightarrow> flush_loop_action (woken t) = Return"

definition flushes :: "('d, 'c) turn \<Rightarrow> bool" where
  "flushes t \<longleftrightarrow> flush_loop_action (woken t) = Flush"

lemma do_flush_no_panic:
  "build_catalog load_rest load_glue cfg \<noteq> None \<Longrightarrow> fst (do_flush A g load_rest load_glue now cfg s w) \<noteq> None"
  by (auto simp: do_flush_def spawn_tasks_def Let_def split: prod.splits sum.splits option.splits)

lemma run_flush_loop_spec:
  assumes "build_catalog load_rest load_glue cfg \<noteq> None"
  shows "ended (run_flush_loop A load_rest load_glue cfg turns s w) = (if \<exists>t \<in> set turns. stops t then Returned else Asleep) \<and>
    length (cycles (run_flush_loop A load_rest load_glue cfg turns s w)) =
      length (filter flushes (takeWhile (\<lambda>t. \<not> stops t) turns))"
proof (induction turns arbitrary: s w)
  case (Cons t turns)
  obtain s1 w1 where m: "meanwhile t (s, w) = (s1, w1)" by force
  obtain c s2 w2 where f: "do_flush A (limit_draw t) load_rest load_glue (clock t) cfg s1 w1 = (c, s2, w2)"
    by (metis prod_cases3)
  have "c \<noteq> None" using do_flush_no_panic [OF assms] f by (metis fst_conv)
  with Cons.IH m f show ?case
    by (cases "flush_loop_action (woken t)") (auto simp: stops_def flushes_def Let_def)
qed simp

lemma run_flush_loop_sleeps:
  "x \<in> set (slept (run_flush_loop A load_rest load_glue cfg turns s w)) \<Longrightarrow> x = 10 \<or> 60 \<le> unat x"
proof (induction turns arbitrary: s w)
  case (Cons t turns)
  obtain s1 w1 where m: "meanwhile t (s, w) = (s1, w1)" by force
  obtain c s2 w2 where f: "do_flush A (limit_draw t) load_rest load_glue (clock t) cfg s1 w1 = (c, s2, w2)"
    by (metis prod_cases3)
  have "sleep_secs (interval_draw t) cfg s = 10 \<or> 60 \<le> unat (sleep_secs (interval_draw t) cfg s)"
    by (simp add: sleep_secs_def jittered_interval_def Let_def unat_max_word le_max_iff_disj)
  with Cons m f show ?case
    by (cases "flush_loop_action (woken t)") (auto simp: Let_def split: option.splits)
qed simp

text \<open>What the other tasks do in the meantime, when they keep the store and the records.\<close>

definition keeps_records :: "('d \<Rightarrow> string \<Rightarrow> kv list option) \<Rightarrow> 'd rocks_store \<Rightarrow> 'd rocks_store \<Rightarrow> bool" where
  "keeps_records contents s s' \<longleftrightarrow> (\<forall>n. set (cf_values contents s n) \<subseteq> set (cf_values contents s' n))"

lemma keeps_records_refl [simp]: "keeps_records contents s s"
  by (simp add: keeps_records_def)

lemma keeps_records_trans:
  "keeps_records contents s t \<Longrightarrow> keeps_records contents t u \<Longrightarrow> keeps_records contents s u"
  unfolding keeps_records_def by blast

lemma do_flush_keeps:
  assumes "rocksdb_laws A contents" and "store_inv contents s"
    and "do_flush A g lr lg now cfg s w = (r, s', w')"
  shows "store_inv contents s' \<and> keeps_records contents s s'"
proof -
  note st = do_flush_store [OF assms]
  then have "cf_values contents s' n = cf_values contents s n" for n
    using cf_values_rotated [of contents s s'] by (auto simp: cf_values_def)
  with st show ?thesis by (simp add: keeps_records_def)
qed

lemma run_flush_loop_keeps:
  assumes "rocksdb_laws A contents"
    and "\<forall>t \<in> set turns. \<forall>s w. store_inv contents s \<longrightarrow>
      store_inv contents (fst (meanwhile t (s, w))) \<and> keeps_records contents s (fst (meanwhile t (s, w)))"
    and "store_inv contents s"
  shows "store_inv contents (end_store (run_flush_loop A load_rest load_glue cfg turns s w)) \<and>
    keeps_records contents s (end_store (run_flush_loop A load_rest load_glue cfg turns s w))"
  using assms(2,3)
proof (induction turns arbitrary: s w)
  case (Cons t turns)
  obtain s1 w1 where m: "meanwhile t (s, w) = (s1, w1)" by force
  obtain c s2 w2 where f: "do_flush A (limit_draw t) load_rest load_glue (clock t) cfg s1 w1 = (c, s2, w2)"
    by (metis prod_cases3)
  have 1: "store_inv contents s1" "keeps_records contents s s1"
    using Cons.prems m by (metis fst_conv list.set_intros(1))+
  have 2: "store_inv contents s2" "keeps_records contents s s2"
    using do_flush_keeps [OF assms(1) 1(1) f] keeps_records_trans [OF 1(2)] by blast+
  have others: "\<forall>t \<in> set turns. \<forall>s w. store_inv contents s \<longrightarrow>
      store_inv contents (fst (meanwhile t (s, w))) \<and> keeps_records contents s (fst (meanwhile t (s, w)))"
    using Cons.prems(1) by simp
  note ih1 = Cons.IH [OF others 1(1), of w1] and ih2 = Cons.IH [OF others 2(1), of w2]
  have "keeps_records contents s (end_store (run_flush_loop A load_rest load_glue cfg turns s1 w1))"
    "keeps_records contents s (end_store (run_flush_loop A load_rest load_glue cfg turns s2 w2))"
    using ih1 ih2 1(2) 2(2) keeps_records_trans by blast+
  with 1 2 ih1 ih2 m f show ?case
    by (cases "flush_loop_action (woken t)") (simp_all add: Let_def split: option.splits)
qed simp

section \<open>The properties\<close>

lemma chosen_partition:
  "length oks = length batches \<Longrightarrow>
    mset (chosen True oks batches) + mset (chosen False oks batches) = mset (concat batches)"
  by (induction oks batches rule: list_induct2) (auto simp: ac_simps)




text \<open>A failed cycle, an empty notification of the shutdown channel, and the shutdown.\<close>

definition demo_turns :: "(mem, nat mem_catalog_state) turn list" where
  "demo_turns = map (\<lambda>k. \<lparr> woken = k, interval_draw = (\<lambda>hi. hi), limit_draw = (\<lambda>hi. hi), clock = 42, meanwhile = (\<lambda>p. p) \<rparr>)
     [Timer, Shutdown_Changed False, Notified, Shutdown_Changed True, Timer]"


end
