(* ===== verification/Build_Codegen.thy ===== *)
theory Build_Codegen
  imports Field_Type Json
begin

text \<open>
  src/build.rs: the build script that turns every schema document into the source text of a
  Rust struct. The documents are values of the \<open>serde_json\<close> parameter. \<open>parse_type\<close> recurses into
  the element of a list type; it has fuel, and runs out of it only on a document that is nested
  deeper than the fuel. A panic of the script, like an error, ends the build.
\<close>

section \<open>Definitions\<close>

fun pascal_loop :: "bool \<Rightarrow> string \<Rightarrow> string \<Rightarrow> string" where
  "pascal_loop capitalize [] res = res"
| "pascal_loop capitalize (c # cs) res =
     (if c = CHR ''_'' \<or> c = CHR ''-'' then pascal_loop True cs res
      else if capitalize then pascal_loop False cs (res @ [ascii_upper c])
      else pascal_loop capitalize cs (res @ [c]))"

definition to_pascal_case :: "string \<Rightarrow> string" where
  "to_pascal_case s = pascal_loop True s []"

definition scalar_type :: "string \<Rightarrow> string" where
  "scalar_type s =
     (if s = ''string'' then ''String''
      else if s = ''long'' then ''i64''
      else if s = ''int'' then ''i32''
      else if s = ''boolean'' then ''bool''
      else if s = ''float'' then ''f32''
      else if s = ''double'' then ''f64''
      else ''String'')"

text \<open>
  \<open>parse_type\<close>; an error is the panic of the index operator on an object without an element.
\<close>

fun parse_type :: "nat \<Rightarrow> 'j serde_json \<Rightarrow> 'j \<Rightarrow> string result option" where
  "parse_type fuel J type_val =
     (case json_as_str J type_val of
        Some s \<Rightarrow> Some (Ok (scalar_type s))
      | None \<Rightarrow>
          if json_is_object J type_val then
            (if get_str J type_val ''type'' = Some ''list'' then
               (case json_get J type_val ''element'' of
                  None \<Rightarrow> Some (Err [''no entry found for key''])
                | Some element \<Rightarrow>
                    (case fuel of
                       0 \<Rightarrow> None
                     | Suc fuel' \<Rightarrow>
                         map_option (\<lambda>r. and_then r (\<lambda>elem_type. Ok (''Vec<'' @ elem_type @ ''>'')))
                           (parse_type fuel' J element)))
             else Some (Ok ''serde_json::Value''))
          else Some (Ok ''String''))"

definition generate_field :: "nat \<Rightarrow> 'j serde_json \<Rightarrow> 'j \<Rightarrow> string result option" where
  "generate_field fuel J field =
     (let field_name = unwrap_or ''unknown'' (json_as_str J (json_index J field ''name''));
          required = unwrap_or False (json_as_bool J (json_index J field ''required''))
      in map_option (\<lambda>r. and_then r (\<lambda>field_type.
           let final_type = (if required then field_type else ''Option<'' @ field_type @ ''>'')
           in Ok (''    pub '' @ field_name @ '': '' @ final_type @ '',\<newline>'')))
         (parse_type fuel J (json_index J field ''type'')))"

fun generate_fields :: "nat \<Rightarrow> 'j serde_json \<Rightarrow> 'j list \<Rightarrow> string \<Rightarrow> string result option" where
  "generate_fields fuel J [] out = Some (Ok out)"
| "generate_fields fuel J (field # rest) out =
     (case generate_field fuel J field of
        None \<Rightarrow> None
      | Some (Inl e) \<Rightarrow> Some (Err e)
      | Some (Inr line) \<Rightarrow> generate_fields fuel J rest (out @ line))"

definition generate_struct :: "nat \<Rightarrow> 'j serde_json \<Rightarrow> string \<Rightarrow> 'j \<Rightarrow> string result option" where
  "generate_struct fuel J nm schema =
     (let out = ''#[derive(Debug, Clone, Serialize, Deserialize)]\<newline>pub struct '' @ nm @ '' {\<newline>''
      in map_option (\<lambda>r. and_then r (\<lambda>out. Ok (out @ ''}\<newline>\<newline>'')))
         (generate_fields fuel J (unwrap_or [] (get_array J schema ''fields'')) out))"

text \<open>
  \<open>Path::file_stem\<close> and \<open>Path::extension\<close> of a file name: the parts before and behind its last
  dot, where a dot at the front does not count.
\<close>

definition file_stem :: "string \<Rightarrow> string" where
  "file_stem nm =
     (let front = rev (tl (dropWhile (\<lambda>c. c \<noteq> CHR ''.'') (rev nm)))
      in if CHR ''.'' \<notin> set nm \<or> front = [] then nm else front)"

definition extension :: "string \<Rightarrow> string option" where
  "extension nm =
     (if CHR ''.'' \<notin> set nm \<or> rev (tl (dropWhile (\<lambda>c. c \<noteq> CHR ''.'') (rev nm))) = [] then None
      else Some (rev (takeWhile (\<lambda>c. c \<noteq> CHR ''.'') (rev nm))))"

text \<open>
  The loop of \<open>main\<close> over the entries of the directory, each a file name with the outcome of
  reading the file, or an error of the directory itself.
\<close>

fun codegen_loop :: "nat \<Rightarrow> 'j serde_json \<Rightarrow> (string \<times> string result) result list \<Rightarrow> string \<Rightarrow> string result option" where
  "codegen_loop fuel J [] code = Some (Ok code)"
| "codegen_loop fuel J (Inl e # entries) code = Some (Err e)"
| "codegen_loop fuel J (Inr (nm, content) # entries) code =
     (if extension nm = Some ''json'' then
        (case content of
           Inl e \<Rightarrow> Some (Err e)
         | Inr text \<Rightarrow>
             (case json_from_str J text of
                Inl e \<Rightarrow> Some (Err [e])
              | Inr schema \<Rightarrow>
                  (case generate_struct fuel J (to_pascal_case (file_stem nm)) schema of
                     None \<Rightarrow> None
                   | Some (Inl e) \<Rightarrow> Some (Err e)
                   | Some (Inr struct) \<Rightarrow> codegen_loop fuel J entries (code @ struct))))
      else codegen_loop fuel J entries code)"

definition fallback_struct :: string where
  "fallback_struct =
     ''#[derive(Debug, Clone, Serialize, Deserialize)]\<newline>pub struct TelemetryEvent {\<newline>    pub id: String,\<newline>    pub source: Option<String>,\<newline>    pub occurred_at: Option<i64>,\<newline>}\<newline>''"

text \<open>
  The code that \<open>main\<close> writes: \<open>None\<close> for the directory when it does not exist, an error when it
  cannot be read.
\<close>

definition generated_code ::
    "nat \<Rightarrow> 'j serde_json \<Rightarrow> (string \<times> string result) result list result option \<Rightarrow> string result option" where
  "generated_code fuel J schemas_dir =
     (let code = ''use serde::{Deserialize, Serialize};\<newline>\<newline>''
      in case schemas_dir of
           Some (Inr entries) \<Rightarrow> codegen_loop fuel J entries code
         | Some (Inl e) \<Rightarrow> Some (Err e)
         | None \<Rightarrow> Some (Ok (code @ fallback_struct)))"

section \<open>Names\<close>

text \<open>A reference for the name of a struct: the words between separators, each capitalised.\<close>

fun words :: "string \<Rightarrow> string list" where
  "words [] = [[]]"
| "words (c # cs) =
     (if c = CHR ''_'' \<or> c = CHR ''-'' then [] # words cs
      else (case words cs of w # ws \<Rightarrow> (c # w) # ws | [] \<Rightarrow> [[c]]))"

fun capitalised :: "string \<Rightarrow> string" where
  "capitalised [] = []"
| "capitalised (c # cs) = ascii_upper c # cs"

lemma words_not_Nil [simp]: "words s \<noteq> []"
  by (induction s) (auto split: list.splits)

lemma pascal_loop_words:
  "pascal_loop cap s res =
     res @ (if cap then concat (map capitalised (words s))
            else hd (words s) @ concat (map capitalised (tl (words s))))"
proof (induction cap s res rule: pascal_loop.induct)
  case (2 cap c cs res)
  obtain w ws where "words cs = w # ws" by (cases "words cs") auto
  with 2 show ?case by auto
qed auto

section \<open>Types\<close>

declare parse_type.simps [simp del]

lemma parse_type_str: "json_as_str J v = Some s \<Longrightarrow> parse_type fuel J v = Some (Ok (scalar_type s))"
  by (subst parse_type.simps) simp

lemma parse_type_enough:
  assumes depth: "\<And>v e. json_get J v ''element'' = Some e \<Longrightarrow> depth e < (depth v :: nat)"
  shows "depth v \<le> fuel \<Longrightarrow> parse_type fuel J v \<noteq> None"
proof (induction fuel arbitrary: v)
  case 0
  then have "json_get J v ''element'' = None" using depth [of v] by (cases "json_get J v ''element''") auto
  then show ?case by (subst parse_type.simps) (auto split: option.splits)
next
  case (Suc fuel)
  show ?case
  proof (cases "json_get J v ''element''")
    case None
    then show ?thesis by (subst parse_type.simps) (auto split: option.splits)
  next
    case (Some e)
    with Suc depth have "parse_type fuel J e \<noteq> None" by fastforce
    with Some show ?thesis by (subst parse_type.simps) (auto split: option.splits)
  qed
qed

lemma generate_fields_enough:
  assumes "\<And>v e. json_get J v ''element'' = Some e \<Longrightarrow> depth e < (depth v :: nat)"
  shows "\<forall>f \<in> set fds. depth (json_index J f ''type'') \<le> fuel \<Longrightarrow> generate_fields fuel J fds out \<noteq> None"
proof (induction fds arbitrary: out)
  case (Cons f fds)
  then have "parse_type fuel J (json_index J f ''type'') \<noteq> None"
    by (intro parse_type_enough [where depth = depth] assms) auto
  with Cons show ?case by (auto simp: generate_field_def Let_def split: option.splits sum.splits)
qed simp

section \<open>Properties\<close>

text \<open>C40: the name of the generated struct is made of the words of the file name between
  underscores and dashes, each with its first letter capitalised.\<close>

theorem to_pascal_case_words: "to_pascal_case s = concat (map capitalised (words s))"
  by (simp add: to_pascal_case_def pascal_loop_words)

text \<open>The code generator ends on every document: fuel that reaches the nesting of the field
  types is enough for a struct to be generated or a panic to be reported.\<close>

theorem generate_struct_terminates:
  assumes "\<And>v e. json_get J v ''element'' = Some e \<Longrightarrow> depth e < (depth v :: nat)"
    and "\<forall>f \<in> set (unwrap_or [] (get_array J schema ''fields'')). depth (json_index J f ''type'') \<le> fuel"
  shows "\<exists>r. generate_struct fuel J nm schema = Some r"
  using generate_fields_enough [where depth = depth, OF assms] by (auto simp: generate_struct_def Let_def)

theorem generate_struct_terminates_witness:
  "\<exists>r. generate_struct 99 (demo_json []) ''T'' (JObject [(''fields'', JArray [JObject [(''name'', JString ''a''),
      (''type'', JObject [(''type'', JString ''list''), (''element'', JString ''long'')])]])]) = Some r"
proof -
  have member: "(k, e) \<in> set m \<Longrightarrow> size e < size (JObject m)" for k e m
    by (induction m) auto
  have "size e < size v" if get: "json_get (demo_json []) v ''element'' = Some e" for v e
  proof -
    obtain m where "v = JObject m" "map_of m ''element'' = Some e"
      using get by (cases v) (auto simp: demo_json_def)
    then show ?thesis using member map_of_SomeD by metis
  qed
  moreover have "\<forall>f \<in> set (unwrap_or [] (get_array (demo_json []) (JObject [(''fields'', JArray [JObject
      [(''name'', JString ''a''), (''type'', JObject [(''type'', JString ''list''), (''element'', JString ''long'')])]])])
      ''fields'')). size (json_index (demo_json []) f ''type'') \<le> 99"
    by (simp add: demo_json_def get_array_def)
  ultimately show ?thesis by (rule generate_struct_terminates)
qed

text \<open>The code generator and the schema mapping disagree on the aliases of the numeric types:
  two names that map to the same column type get different Rust types, because the generator
  takes the alias for a string.\<close>

theorem codegen_ignores_aliases:
  assumes "(alias, primary) \<in> {(''int64'', ''long''), (''int32'', ''int''), (''float64'', ''double''), (''float32'', ''float'')}"
    and "json_as_str J v = Some alias" and "json_as_str J w = Some primary"
  shows "from_str alias = from_str primary \<and> parse_type fuel J v = Some (Ok ''String'') \<and>
    parse_type fuel J w \<noteq> Some (Ok ''String'')"
proof -
  have "from_str alias = from_str primary" using assms(1) by (auto simp: from_str_primitive)
  moreover have "parse_type fuel J v = Some (Ok (scalar_type alias))"
    "parse_type fuel J w = Some (Ok (scalar_type primary))"
    using assms(2,3) by (simp_all add: parse_type_str)
  moreover have "scalar_type alias = ''String''" "scalar_type primary \<noteq> ''String''"
    using assms(1) by (auto simp: scalar_type_def)
  ultimately show ?thesis by simp
qed

theorem codegen_ignores_aliases_witness:
  "parse_type 0 (demo_json []) (JString ''int64'') = Some (Ok ''String'') \<and>
   from_str ''int64'' = from_str ''long''"
  using codegen_ignores_aliases [of "''int64''" "''long''" "demo_json []" "JString ''int64''" "JString ''long''" 0]
  by (simp add: demo_json_def)

end
