(* ===== verification/Debug_Http.thy ===== *)
theory Debug_Http
  imports Json Metrics
begin

text \<open>
  src/src/main.rs, the debug HTTP server: the handler that profiles the process for a number of
  seconds and answers with a flame graph, the handler that answers with the metrics, and the
  routes. The profiler of the pprof crate is a parameter; a panic of a handler is \<open>None\<close>.
\<close>

section \<open>Definitions\<close>

record http_response =
  content_type :: string
  body :: bytes

text \<open>The profiler: starting it, its report after it has run for some seconds, and its drawing.\<close>

record ('g, 'r) pprof =
  build_guard :: "'g result"
  build_report :: "'g \<Rightarrow> u64 \<Rightarrow> 'r result"
  draw_flamegraph :: "'r \<Rightarrow> bytes result"

text \<open>The number of seconds a profile runs: the query parameter, 15 by default, clamped.\<close>

definition flamegraph_seconds :: "(string \<Rightarrow> string option) \<Rightarrow> u64" where
  "flamegraph_seconds params =
     (let seconds = unwrap_or 15 (Option.bind (params ''seconds'') parse_u64)
      in if seconds < 1 then 1 else if 300 < seconds then 300 else seconds)"

definition flamegraph_handler ::
    "('g, 'r) pprof \<Rightarrow> (string \<Rightarrow> string option) \<Rightarrow> http_response option" where
  "flamegraph_handler P params =
     (case build_guard P of
        Inl _ \<Rightarrow> None
      | Inr guard \<Rightarrow>
          (case build_report P guard (flamegraph_seconds params) of
             Inr report \<Rightarrow>
               (case draw_flamegraph P report of
                  Inl _ \<Rightarrow> None
                | Inr svg \<Rightarrow> Some \<lparr> content_type = ''image/svg+xml'', body = svg \<rparr>)
           | Inl _ \<Rightarrow>
               Some \<lparr> content_type = ''text/plain'', body = as_bytes ''Failed to build flamegraph'' \<rparr>))"

definition metrics_handler :: "('r \<Rightarrow> 'm) \<Rightarrow> ('m \<Rightarrow> bytes result) \<Rightarrow> 'r \<Rightarrow> http_response option" where
  "metrics_handler gather encode registry =
     map_option (\<lambda>text. \<lparr> content_type = ''text/plain'', body = as_bytes text \<rparr>)
       (gather_metrics gather encode registry)"

text \<open>The routes; \<open>None\<close> is a path that is not routed.\<close>

definition debug_route ::
    "('g, 'p) pprof \<Rightarrow> ('r \<Rightarrow> 'm) \<Rightarrow> ('m \<Rightarrow> bytes result) \<Rightarrow> 'r \<Rightarrow> string \<Rightarrow> (string \<Rightarrow> string option) \<Rightarrow>
     http_response option option" where
  "debug_route P gather encode registry path params =
     (if path = ''/debug/pprof/flamegraph'' then Some (flamegraph_handler P params)
      else if path = ''/metrics'' then Some (metrics_handler gather encode registry)
      else None)"

section \<open>Properties\<close>

text \<open>A profile runs for 1 to 300 seconds, for the requested number where that is in the
  range, and for 15 where it is missing or no number.\<close>

theorem flamegraph_seconds_bounds:
  "flamegraph_seconds params \<in> {1 .. 300} \<and>
   (case Option.bind (params ''seconds'') parse_u64 of
      None \<Rightarrow> flamegraph_seconds params = 15
    | Some n \<Rightarrow> flamegraph_seconds params = max 1 (min 300 n))"
proof -
  have "n = 0" if "\<not> 1 \<le> n" for n :: u64
    using that by (simp add: not_le)
  then show ?thesis
    by (auto simp: flamegraph_seconds_def Let_def max_def min_def not_less split: option.splits)
qed

text \<open>The metrics are answered byte for byte as the encoder wrote them, and only an encoder that fails
  or writes something else than UTF-8 makes the handler panic.\<close>

lemma metrics_handler_text:
  "metrics_handler gather encode registry =
     (case encode (gather registry) of
        Inl _ \<Rightarrow> None
      | Inr bs \<Rightarrow> if utf8_valid bs then Some \<lparr> content_type = ''text/plain'', body = bs \<rparr> else None)"
  by (simp add: metrics_handler_def gather_metrics_def from_utf8_def split: sum.splits)

text \<open>A profile that cannot be reported is still answered, as plain text.\<close>

lemma flamegraph_handler_content:
  "flamegraph_handler P params = Some r \<Longrightarrow>
   content_type r = ''image/svg+xml'' \<or>
   content_type r = ''text/plain'' \<and> body r = as_bytes ''Failed to build flamegraph''"
  by (auto simp: flamegraph_handler_def split: sum.splits)

end
