(* ===== verification/Unit_Tests.thy ===== *)
theory Unit_Tests
  imports Grpc_Server
begin

text \<open>
  The unit tests of the repository, as predicates on the model: the \<open>tests\<close> modules of
  src/src/field_type.rs, src/src/grpc_server.rs and src/src/rocksdb_store.rs. A test is the
  conjunction of its assertions; an \<open>unwrap\<close> or \<open>unwrap_err\<close> that would panic makes it false. The
  documents of the schema tests are given as texts together with the values they denote, since
  the parser of JSON is a parameter of the model.
\<close>

section \<open>Assertions\<close>

text \<open>\<open>str::contains\<close>, and a check of the message of an error.\<close>

fun str_contains :: "string \<Rightarrow> string \<Rightarrow> bool" where
  "str_contains pat [] \<longleftrightarrow> pat = []"
| "str_contains pat (c # s) \<longleftrightarrow> starts_with pat (c # s) \<or> str_contains pat s"

definition unwrap_err_contains :: "string list \<Rightarrow> string + 'a \<Rightarrow> bool" where
  "unwrap_err_contains pats r \<longleftrightarrow>
     (case r of Inl err \<Rightarrow> (\<forall>pat \<in> set pats. str_contains pat err) | Inr _ \<Rightarrow> False)"

lemma str_contains_iff: "str_contains pat s \<longleftrightarrow> (\<exists>us vs. s = us @ pat @ vs)"
proof (induction s)
  case (Cons c s)
  have "(\<exists>us vs. c # s = us @ pat @ vs) \<longleftrightarrow> (\<exists>vs. c # s = pat @ vs) \<or> (\<exists>us vs. s = us @ pat @ vs)"
    by (metis append_Cons append_Nil list.sel(3) neq_Nil_conv)
  with Cons show ?case by (simp add: starts_with_iff)
qed simp

section \<open>field\_type.rs\<close>

definition primary_aliases_resolve :: bool where
  "primary_aliases_resolve \<longleftrightarrow>
     (\<forall>(s, expected) \<in> set
        [(''string'', MString), (''long'', MLong), (''int'', MInt), (''double'', MDouble),
         (''float'', MFloat), (''boolean'', MBoolean), (''timestamptz'', MTimestampTz),
         (''timestamp'', MTimestamp), (''date'', MDate), (''binary'', MBinary),
         (''list(double)'', MList MDouble), (''list(string)'', MList MString)].
        from_str s = Some expected)"

definition secondary_aliases_resolve :: bool where
  "secondary_aliases_resolve \<longleftrightarrow>
     (\<forall>(s, expected) \<in> set
        [(''int64'', MLong), (''int32'', MInt), (''float64'', MDouble), (''float32'', MFloat),
         (''bytes'', MBinary)].
        from_str s = Some expected)"

definition unknown_type_returns_none :: bool where
  "unknown_type_returns_none \<longleftrightarrow>
     from_str ''strnig'' = None \<and> from_str '''' = None \<and> from_str ''uuid'' = None"

definition unknown_type_defaults_to_string :: bool where
  "unknown_type_defaults_to_string \<longleftrightarrow> from_str_or_string ''strnig'' ''field_a'' = MString"

text \<open>
  The test calls both translations on every variant and looks at neither result; here it asks
  for what its name says, the agreement of the two.
\<close>

definition arrow_and_iceberg_agree_on_every_variant :: bool where
  "arrow_and_iceberg_agree_on_every_variant \<longleftrightarrow>
     (\<forall>t \<in> set [MString, MLong, MInt, MDouble, MFloat, MBoolean, MTimestampTz, MTimestamp, MDate,
                MBinary, MList MDouble].
        type_agrees True (fst (to_arrow t 1)) (fst (to_iceberg t 1)))"

definition timestamptz_uses_offset_not_named_zone :: bool where
  "timestamptz_uses_offset_not_named_zone \<longleftrightarrow>
     (case fst (to_arrow MTimestampTz 1) of
        Timestamp Microsecond (Some tz) \<Rightarrow> starts_with ''+'' tz \<or> starts_with ''-'' tz
      | _ \<Rightarrow> False)"

section \<open>grpc\_server.rs\<close>

definition tests_telemetry_defs :: "field_def list" where
  "tests_telemetry_defs =
     [\<lparr> name = ''id'', field_type = ''string'', required = True \<rparr>,
      \<lparr> name = ''source'', field_type = ''string'', required = False \<rparr>,
      \<lparr> name = ''occurred_at'', field_type = ''long'', required = False \<rparr>]"

text \<open>A line break with the indentation of the raw string, and a field with its value.\<close>

definition line_break :: "nat \<Rightarrow> string" where
  "line_break n = CHR 0x0A # replicate n CHR 0x20"

definition field_json :: "string \<Rightarrow> string \<Rightarrow> bool \<Rightarrow> json" where
  "field_json n t r = JObject [(''name'', JString n), (''type'', JString t), (''required'', JBool r)]"

definition exact_schema_match_passes :: bool where
  \<open>exact_schema_match_passes \<longleftrightarrow>
     (let json = ''{"table":"telemetry_events","namespace":["analytics"],"fields":['' @ line_break 12 @
            ''{"name":"id","type":"string","required":true},'' @ line_break 12 @
            ''{"name":"source","type":"string","required":false},'' @ line_break 12 @
            ''{"name":"occurred_at","type":"long","required":false}'' @ line_break 8 @ '']}'';
          doc = JObject [(''table'', JString ''telemetry_events''),
            (''namespace'', JArray [JString ''analytics'']),
            (''fields'', JArray [field_json ''id'' ''string'' True, field_json ''source'' ''string'' False,
               field_json ''occurred_at'' ''long'' False])]
      in validate_register_schema (demo_json [(json, doc)]) json ''telemetry_events'' tests_telemetry_defs = Inr 3)\<close>

definition partial_schema_passes :: bool where
  \<open>partial_schema_passes \<longleftrightarrow>
     (let json = ''{"table":"telemetry_events","namespace":["analytics"],"fields":['' @ line_break 12 @
            ''{"name":"id","type":"string","required":true}'' @ line_break 8 @ '']}'';
          doc = JObject [(''table'', JString ''telemetry_events''),
            (''namespace'', JArray [JString ''analytics'']),
            (''fields'', JArray [field_json ''id'' ''string'' True])]
      in validate_register_schema (demo_json [(json, doc)]) json ''telemetry_events'' tests_telemetry_defs = Inr 1)\<close>

definition type_alias_normalised :: bool where
  \<open>type_alias_normalised \<longleftrightarrow>
     (let defs = [\<lparr> name = ''ts'', field_type = ''long'', required = False \<rparr>];
          json = ''{"table":"t","fields":[{"name":"ts","type":"int64","required":false}]}'';
          doc = JObject [(''table'', JString ''t''), (''fields'', JArray [field_json ''ts'' ''int64'' False])]
      in validate_register_schema (demo_json [(json, doc)]) json ''t'' defs = Inr 1)\<close>

definition unknown_field_rejected :: bool where
  \<open>unknown_field_rejected \<longleftrightarrow>
     (let json = ''{"table":"telemetry_events","fields":['' @ line_break 12 @
            ''{"name":"id","type":"string","required":true},'' @ line_break 12 @
            ''{"name":"new_column","type":"string","required":false}'' @ line_break 8 @ '']}'';
          doc = JObject [(''table'', JString ''telemetry_events''),
            (''fields'', JArray [field_json ''id'' ''string'' True, field_json ''new_column'' ''string'' False])]
      in unwrap_err_contains [''Unknown field '' @ quoted ''new_column'', ''engine must be deployed'']
           (validate_register_schema (demo_json [(json, doc)]) json ''telemetry_events'' tests_telemetry_defs))\<close>

definition type_mismatch_rejected :: bool where
  \<open>type_mismatch_rejected \<longleftrightarrow>
     (let json = ''{"table":"telemetry_events","fields":['' @ line_break 12 @
            ''{"name":"occurred_at","type":"string","required":false}'' @ line_break 8 @ '']}'';
          doc = JObject [(''table'', JString ''telemetry_events''),
            (''fields'', JArray [field_json ''occurred_at'' ''string'' False])]
      in unwrap_err_contains [''type mismatch'', ''occurred_at'']
           (validate_register_schema (demo_json [(json, doc)]) json ''telemetry_events'' tests_telemetry_defs))\<close>

definition table_mismatch_rejected :: bool where
  \<open>table_mismatch_rejected \<longleftrightarrow>
     (let json = ''{"table":"wrong_table","fields":[]}'';
          doc = JObject [(''table'', JString ''wrong_table''), (''fields'', JArray [])]
      in unwrap_err_contains [''Table mismatch'', ''wrong_table'']
           (validate_register_schema (demo_json [(json, doc)]) json ''telemetry_events'' tests_telemetry_defs))\<close>

definition missing_fields_array_rejected :: bool where
  \<open>missing_fields_array_rejected \<longleftrightarrow>
     (let json = ''{"table":"telemetry_events"}'';
          doc = JObject [(''table'', JString ''telemetry_events'')]
      in unwrap_err_contains [''missing '' @ quoted ''fields'']
           (validate_register_schema (demo_json [(json, doc)]) json ''telemetry_events'' tests_telemetry_defs))\<close>

definition invalid_json_rejected :: bool where
  "invalid_json_rejected \<longleftrightarrow>
     unwrap_err_contains [''Invalid schema JSON''] (validate_register_schema (demo_json []) ''not json'' ''t'' [])"

section \<open>rocksdb\_store.rs\<close>

definition initial_cf_parses_as_oldest :: bool where
  "initial_cf_parses_as_oldest \<longleftrightarrow> active_cf_timestamp ''active'' = Some 0"

definition rotated_cf_parses_timestamp :: bool where
  "rotated_cf_parses_timestamp \<longleftrightarrow>
     active_cf_timestamp ''active_1780124079'' = Some 1780124079 \<and> active_cf_timestamp ''active_0'' = Some 0"

definition non_engine_cfs_return_none :: bool where
  "non_engine_cfs_return_none \<longleftrightarrow>
     active_cf_timestamp ''default'' = None \<and> active_cf_timestamp ''frozen_1780124079'' = None \<and>
     active_cf_timestamp ''active_notnumeric'' = None \<and> active_cf_timestamp ''activex'' = None \<and>
     active_cf_timestamp '''' = None"

definition newest_wins_after_digit_boundary :: bool where
  "newest_wins_after_digit_boundary \<longleftrightarrow>
     (let cands = map (\<lambda>n. (the (active_cf_timestamp n), n)) [''active_9999999999'', ''active_10000000000'']
      in (\<forall>n \<in> set [''active_9999999999'', ''active_10000000000'']. active_cf_timestamp n \<noteq> None) \<and>
         snd (last (sort_key fst cands)) = ''active_10000000000'')"

section \<open>The tests hold of the model\<close>

lemma field_type_tests:
  "primary_aliases_resolve" "secondary_aliases_resolve" "unknown_type_returns_none"
  "unknown_type_defaults_to_string" "timestamptz_uses_offset_not_named_zone"
  by code_simp+

lemma variants_agree_test: "arrow_and_iceberg_agree_on_every_variant"
  by (simp add: arrow_and_iceberg_agree_on_every_variant_def translations_same_ids)

lemma schema_tests_accept: "exact_schema_match_passes" "partial_schema_passes" "type_alias_normalised"
  by code_simp+

lemma schema_tests_reject:
  "unknown_field_rejected" "type_mismatch_rejected" "table_mismatch_rejected"
  "missing_fields_array_rejected" "invalid_json_rejected"
  by code_simp+

lemmas timestamp_defs = active_cf_timestamp_def strip_prefix_def starts_with_def parse_u64_def
  parse_uint_def digit_val_def Let_def

lemma boundary_timestamps:
  "active_cf_timestamp ''active_9999999999'' = Some 9999999999"
  "active_cf_timestamp ''active_10000000000'' = Some 10000000000"
  by (simp_all add: timestamp_defs)

lemma store_tests:
  "initial_cf_parses_as_oldest" "rotated_cf_parses_timestamp" "non_engine_cfs_return_none"
  "newest_wins_after_digit_boundary"
  by (simp_all add: initial_cf_parses_as_oldest_def rotated_cf_parses_timestamp_def
      non_engine_cfs_return_none_def newest_wins_after_digit_boundary_def boundary_timestamps)
    (simp_all add: timestamp_defs)

end
