(* ===== verification/Bench_Parquet.thy ===== *)
theory Bench_Parquet
  imports Config
begin

text \<open>
  src/src/bin/bench_parquet.rs: the benchmark of the Parquet writer. Its schema and the five
  columns it generates are modelled, with Arrow's \<open>RecordBatch::try_new\<close> and the writer as
  parameters whose failures are panics, and the lines it prints. The measured times are parameters,
  and so is the arithmetic of doubles, which only the printed sizes and rates use.
\<close>

section \<open>Definitions\<close>

type_synonym i64 = "64 word"

definition bench_schema :: "arrow_field list" where
  "bench_schema =
     [Field ''timestamp'' (Timestamp Microsecond None) False [],
      Field ''event_id'' Utf8 False [],
      Field ''user_id'' Int64 False [],
      Field ''session_id'' Utf8 False [],
      Field ''amount'' Int64 False []]"

definition num_rows :: nat where
  "num_rows = 1000000"

text \<open>Arrays without nulls, as \<open>from_iter_values\<close> builds them.\<close>

datatype column =
    TimestampMicrosecondArray "i64 list"
  | Int64Array "i64 list"
  | StringArray "string list"

text \<open>The format \<open>{:010}\<close>: at least ten digits, padded with zeros.\<close>

definition zero_padded :: "nat \<Rightarrow> nat \<Rightarrow> string" where
  "zero_padded w n = replicate (w - length (show_nat n)) CHR ''0'' @ show_nat n"

definition timestamps :: "nat \<Rightarrow> column" where
  "timestamps rows = TimestampMicrosecondArray (map (\<lambda>i. 1700000000000000 + of_nat i) [0..<rows])"

definition event_ids :: "nat \<Rightarrow> column" where
  "event_ids rows = StringArray (map (\<lambda>i. ''evt_'' @ zero_padded 10 i) [0..<rows])"

definition user_ids :: "nat \<Rightarrow> column" where
  "user_ids rows = Int64Array (map (\<lambda>i. of_nat (i mod 10000)) [0..<rows])"

definition session_ids :: "nat \<Rightarrow> column" where
  "session_ids rows = StringArray (map (\<lambda>i. ''sess_'' @ zero_padded 10 (i mod 50000)) [0..<rows])"

definition amounts :: "nat \<Rightarrow> column" where
  "amounts rows = Int64Array (map (\<lambda>i. of_nat (i mod 100)) [0..<rows])"

definition bench_columns :: "nat \<Rightarrow> column list" where
  "bench_columns rows = [timestamps rows, event_ids rows, user_ids rows, session_ids rows, amounts rows]"

text \<open>The batch, and its bytes as Parquet; \<open>None\<close> is a panic.\<close>

definition bench_batch ::
    "(arrow_field list \<Rightarrow> column list \<Rightarrow> 'b result) \<Rightarrow> 'b option" where
  "bench_batch try_new =
     (case try_new bench_schema (bench_columns num_rows) of Inl _ \<Rightarrow> None | Inr batch \<Rightarrow> Some batch)"

definition bench_compress ::
    "(arrow_field list \<Rightarrow> compression \<Rightarrow> 'w result) \<Rightarrow> ('b \<Rightarrow> 'w \<Rightarrow> 'w result) \<Rightarrow> ('w \<Rightarrow> bytes result) \<Rightarrow>
     'b \<Rightarrow> bytes option" where
  "bench_compress new_writer write into_inner batch =
     (case and_then (new_writer bench_schema SNAPPY) (\<lambda>w. and_then (write batch w) into_inner) of
        Inl _ \<Rightarrow> None | Inr out \<Rightarrow> Some out)"

text \<open>
  Doubles: the conversion of a \<open>usize\<close>, division, and the format with two decimals. A duration has its
  debug format and its seconds.
\<close>

record 'f doubles =
  as_f64 :: "nat \<Rightarrow> 'f"
  f64_div :: "'f \<Rightarrow> 'f \<Rightarrow> 'f"
  two_decimals :: "'f \<Rightarrow> string"

record 'f duration =
  debug_format :: string
  as_secs_f64 :: 'f

definition megabytes :: "'f doubles \<Rightarrow> nat \<Rightarrow> 'f" where
  "megabytes F n = f64_div F (as_f64 F n) (as_f64 F 1048576)"

text \<open>The lines printed, and whether the benchmark got through without a panic.\<close>

definition bench_main ::
    "'f doubles \<Rightarrow> (arrow_field list \<Rightarrow> column list \<Rightarrow> 'b result) \<Rightarrow> ('b \<Rightarrow> nat) \<Rightarrow>
     (arrow_field list \<Rightarrow> compression \<Rightarrow> 'w result) \<Rightarrow> ('b \<Rightarrow> 'w \<Rightarrow> 'w result) \<Rightarrow> ('w \<Rightarrow> bytes result) \<Rightarrow>
     'f duration \<Rightarrow> 'f duration \<Rightarrow> string list \<times> bool" where
  "bench_main F try_new get_array_memory_size new_writer write into_inner start_gen start_comp =
     (let generating = [''Generating '' @ show_nat num_rows @ '' rows of dummy Arrow data...'']
      in case bench_batch try_new of
           None \<Rightarrow> (generating, False)
         | Some batch \<Rightarrow>
             let batch_bytes = get_array_memory_size batch;
                 generated = generating @
                   [''Generation took: '' @ debug_format start_gen,
                    ''Raw Arrow batch size: '' @ two_decimals F (megabytes F batch_bytes) @ '' MB'',
                    ''Starting Parquet SNAPPY compression benchmark...'']
             in case bench_compress new_writer write into_inner batch of
                  None \<Rightarrow> (generated, False)
                | Some out \<Rightarrow>
                    let throughput = f64_div F (megabytes F batch_bytes) (as_secs_f64 start_comp)
                    in (generated @
                      [''Compression took: '' @ debug_format start_comp,
                       ''Output Parquet size: '' @ two_decimals F (megabytes F (length out)) @ '' MB'',
                       ''Parquet Compression Throughput: '' @ two_decimals F throughput @ '' MB/s''], True))"

section \<open>The batch is well formed\<close>

text \<open>
  What \<open>RecordBatch::try_new\<close> asks for: one array per field, of the field's type, all of the same
  length.
\<close>

fun column_type :: "column \<Rightarrow> data_type" where
  "column_type (TimestampMicrosecondArray _) = Timestamp Microsecond None"
| "column_type (Int64Array _) = Int64"
| "column_type (StringArray _) = Utf8"

fun column_length :: "column \<Rightarrow> nat" where
  "column_length (TimestampMicrosecondArray xs) = length xs"
| "column_length (Int64Array xs) = length xs"
| "column_length (StringArray xs) = length xs"

definition batch_ok :: "arrow_field list \<Rightarrow> column list \<Rightarrow> bool" where
  "batch_ok schema cols \<longleftrightarrow>
     map af_type schema = map column_type cols \<and> (\<exists>n. \<forall>c \<in> set cols. column_length c = n)"

lemmas column_defs = timestamps_def event_ids_def user_ids_def session_ids_def amounts_def

lemma bench_columns_ok: "batch_ok bench_schema (bench_columns rows)"
  by (simp add: batch_ok_def bench_schema_def bench_columns_def column_defs)

lemma bench_batch_built:
  assumes "\<And>schema cols. batch_ok schema cols \<Longrightarrow> is_ok (try_new schema cols)"
  shows "bench_batch try_new \<noteq> None"
  using assms [OF bench_columns_ok [of num_rows]] by (auto simp: bench_batch_def is_ok_iff split: sum.splits)

text \<open>The benchmark gets through when the writer does.\<close>

lemma bench_main_completes:
  assumes "\<And>schema cols. batch_ok schema cols \<Longrightarrow> is_ok (try_new schema cols)"
    and "\<And>batch. bench_compress new_writer write into_inner batch \<noteq> None"
  shows "snd (bench_main F try_new size_of new_writer write into_inner d e)"
    and "length (fst (bench_main F try_new size_of new_writer write into_inner d e)) = 7"
proof -
  obtain batch where "bench_batch try_new = Some batch" using bench_batch_built [of try_new] assms(1) by blast
  moreover obtain out where "bench_compress new_writer write into_inner batch = Some out" using assms(2) by blast
  ultimately show "snd (bench_main F try_new size_of new_writer write into_inner d e)"
    and "length (fst (bench_main F try_new size_of new_writer write into_inner d e)) = 7"
    by (simp_all add: bench_main_def Let_def)
qed

text \<open>Padding neither loses a number nor varies in width below ten digits.\<close>

lemma length_zero_padded: "n < 10 ^ Suc k \<Longrightarrow> length (zero_padded (Suc k) n) = Suc k"
  using length_show_nat [of n k] by (simp add: zero_padded_def)

lemma parse_zeros: "0 < b \<Longrightarrow> parse_digits b 0 (replicate k CHR ''0'' @ s) = parse_digits b 0 s"
  by (induction k) (simp_all add: digit_val_def)

lemma zero_padded_inj: "zero_padded w m = zero_padded w n \<longleftrightarrow> m = n"
proof
  assume eq: "zero_padded w m = zero_padded w n"
  define b where "b = Suc (max m n)"
  have "parse_digits b 0 (zero_padded w k) = Inr k" if "k < b" for k
    using that parse_digits_show_nat [of k b] by (simp add: zero_padded_def parse_zeros)
  from this [of m] this [of n] eq show "m = n" by (simp add: b_def less_Suc_eq_le)
qed simp

text \<open>Every row has an event id of its own, and the ids are all equally long.\<close>

lemma event_ids_distinct:
  assumes "event_ids rows = StringArray ids"
  shows "distinct ids" and "rows \<le> 10 ^ 10 \<Longrightarrow> s \<in> set ids \<Longrightarrow> length s = 14"
proof -
  have ids: "ids = map (\<lambda>i. ''evt_'' @ zero_padded 10 i) [0..<rows]" using assms by (simp add: event_ids_def)
  then show "distinct ids" by (auto simp: distinct_map inj_on_def zero_padded_inj)
  assume rows: "rows \<le> 10 ^ 10" and "s \<in> set ids"
  then obtain i where i: "i < rows" "s = ''evt_'' @ zero_padded 10 i" using ids by auto
  then have "length (zero_padded (Suc 9) i) = Suc 9" using rows by (intro length_zero_padded) simp
  then show "length s = 14" by (simp add: i)
qed

text \<open>No timestamp of the benchmark leaves the signed range: they count up from the first.\<close>

lemma timestamps_increase:
  assumes "timestamps num_rows = TimestampMicrosecondArray ts" and "i < num_rows"
  shows "sint (ts ! i) = 1700000000000000 + int i"
proof -
  have "ts ! i = word_of_int (1700000000000000 + int i)"
    using assms by (auto simp: timestamps_def num_rows_def)
  then have "sint (ts ! i) = signed_take_bit (LENGTH(64) - 1) (1700000000000000 + int i)"
    by (simp only: sint_sbintrunc')
  moreover have "signed_take_bit 63 (1700000000000000 + int i) = 1700000000000000 + int i"
    using assms(2) by (intro signed_take_bit_int_eq_self) (simp_all add: num_rows_def)
  ultimately show ?thesis by simp
qed

end
