(* ===== verification/Spec2Isabelle.thy ===== *)
theory Spec2Isabelle
  imports Engine_Runs Engine_Recovery Flush_Loops Build_Codegen Debug_Http Unit_Tests Bench_Parquet
begin

text \<open>
  A verification of the mIceWriter engine, a sidecar written in Rust that takes telemetry events
  over gRPC, buffers them durably in RocksDB, and commits them in batches to an Apache Iceberg
  table as Parquet files.

  \<^bold>\<open>The program.\<close> An application streams framed records to the gRPC service
  (src/src/grpc_server.rs), which appends each to the active column family of the record store
  (src/src/rocksdb_store.rs) and acknowledges it. The flush loop (src/src/flush_engine.rs) wakes
  after a jittered interval, on a full family or on request; a flush cycle freezes the active
  family, opens a new one, and spawns one task for the frozen family and for every family an
  earlier cycle left over. A task, once it has a permit of the shared semaphore, reads its family,
  decodes the records, writes them in batches to Parquet files and sends a commit request to the
  committer. The committer gathers the waiting requests, appends their files to the table
  (src/src/iceberg_writer.rs) and drops the families, or keeps them for another cycle. On a signal
  \<open>main\<close> (src/src/main.rs) stops server and loop, flushes once more and waits for the committer.

  \<^bold>\<open>The theories.\<close>
  \<^item> \<open>Prelude\<close>: words, results with a chain of contexts, association lists, reachable states and the
    locales of invariants over step relations. \<open>Rust_Std\<close>, \<open>Socket_Addr\<close>: what is used of the
    standard library, executable: strings as their UTF-8 bytes, decimal numbers, big-endian bytes,
    UTF-8 decoding, socket addresses. \<open>Json\<close>: the interface of serde\_json.
  \<^item> \<open>Field_Type\<close> (src/src/field_type.rs): \<open>from_str\<close>, \<open>to_arrow\<close>, \<open>to_iceberg\<close>. \<open>Schemas\<close>: the schema
    builders of \<open>iceberg_writer.rs\<close> and \<open>flush_engine.rs\<close>, both instances of the locale
    \<open>column_builder\<close> of a closure that takes ids from a counter.
  \<^item> \<open>Config\<close> (src/src/config.rs): \<open>from_env\<close> with every variable, default and error.
  \<^item> \<open>Rocks_Store\<close>: the record \<open>rocks_store\<close> and every method of \<open>RocksStore\<close>. A family is a list of
    key-value pairs sorted by key. The locales \<open>record_log\<close> (what an append promises) and \<open>retention\<close>
    (the list of families to retry) are interpreted on the store's operations.
  \<^item> \<open>Grpc_Server\<close>: \<open>register_schema\<close>, \<open>ingest\<close>, \<open>flush_now\<close>, \<open>run_server\<close>.
  \<^item> \<open>Metrics\<close> (src/src/metrics.rs) and \<open>Debug_Http\<close> (the debug server in \<open>main\<close>).
  \<^item> \<open>Iceberg_Writer\<close>: the caches, \<open>get_or_create_table\<close>, \<open>commit_with_retry\<close>, \<open>build_catalog\<close>. The
    locale \<open>table_committer\<close> is what the committer relies on: a commit that succeeds appends the files
    to one table and to no other, once if the catalog answers truthfully, and one that fails appends
    nothing then.
  \<^item> \<open>Flush_Engine\<close>: \<open>compile_cf_pipeline\<close>, \<open>do_flush\<close> with its parts \<open>freeze_cfs\<close> and
    \<open>spawn_tasks\<close>, \<open>run_flush_task\<close>, \<open>commit_batch\<close>, \<open>committer_round\<close>, the decision
    of the loop and its jittered sleep. \<open>Flush_Loops\<close>: \<open>run_flush_loop\<close> over the wake-ups it gets and
    \<open>run_committer_loop\<close> over the batches it receives, each on its own.
  \<^item> \<open>Engine\<close>: the state of all tasks together, \<open>startup\<close>, and the relation \<open>step\<close> that interleaves
    them. \<open>Engine_Invariant\<close>: its invariant. \<open>Delivery_Spec\<close>: the abstract specification, with the
    locale \<open>refinement_system\<close>. \<open>Engine_Refinement\<close>: the engine refines it. \<open>Engine_Shutdown\<close>: the
    shutdown ends. \<open>Engine_Demo\<close>: concrete runs. \<open>Engine_Runs\<close>: the theorems on runs from the startup.
    \<open>Engine_Restart\<close>: lives of the engine over several processes, each opened by \<open>new\<close> on what the one
    before left in the database. \<open>Engine_Lives\<close>: a concrete life, and the theorems on all lives.
    \<open>Engine_Acks\<close>: a call of \<open>ingest\<close> as steps of the engine. \<open>Nothing_Fails\<close>: the operations when no
    external call fails; \<open>Engine_Recovery\<close>: the run that then empties every family after a restart.
  \<^item> \<open>Build_Codegen\<close> (src/build.rs), \<open>Unit_Tests\<close> (the tests of three modules, all of which hold of the
    model), \<open>Bench_Parquet\<close> (src/src/bin/bench_parquet.rs).

  \<^bold>\<open>Correspondence.\<close> A Rust function is a HOL function of the same name on explicit state: a mutex or
  atomic is a field of a record that the function returns updated. \<open>Result\<close> is a sum with the chain
  of messages on the left, a panic is \<open>None\<close>. Integers are words of their width and wrap, as in the
  release build that ships. Third-party crates are records of functions (\<open>rocksdb\<close>, \<open>catalog\<close>, \<open>parquet\<close>,
  \<open>serde_json\<close>, \<open>pprof\<close>); what is assumed of them are named predicates of documented behaviour:
  \<open>rocksdb_laws\<close> and \<open>open_law\<close> (a write batch is atomic, a family has what was put into it, an
  iterator yields pairs in key order and may fail), \<open>catalog_laws\<close> (a commit that reports success has
  appended its files, one that reports an error has appended them or not), \<open>writer_laws\<close> (the closed
  writer's files hold the rows written). Any call may fail in any run. \<open>truthful\<close> is the stronger
  assumption on a catalog that a commit that reports an error has appended nothing; the theorems that
  need it name it. Each predicate holds of an in-memory instance (\<open>mem_db\<close>, \<open>mem_catalog\<close>,
  \<open>mem_parquet\<close>), on which the witnesses run; \<open>silent_catalog\<close> is one that is not truthful.

  \<^bold>\<open>The step relation.\<close> An append is two steps, reading the name of the active family and writing,
  because the lock is released between them. A flush cycle is two steps, freezing the families and
  asking the catalog, and other tasks run in between. A round of the committer is a step for the
  commit of the batch (\<open>commit_step\<close>) and one for each family to be dropped after it (\<open>drop_step\<close>);
  \<open>committer_round_steps\<close> shows that with nothing in between they are \<open>committer_round\<close>. The compilation
  of a family is one step, since the family is frozen and has one owner, which \<open>engine_well_formed\<close>
  shows. The guard of an append leaves out runs that accept more than \<open>2 ^ 64\<close> records, and the clock is
  taken to fit 64 bits of microseconds. The components \<open>accepted\<close>, \<open>lost\<close>, \<open>stranded\<close> and \<open>undropped\<close> of
  the state are read by no step. A panic in a flush cycle ends a run; \<open>build_catalog_no_panic\<close> shows
  that there is none. A restart (\<open>restart\<close>) may happen in any state: it models a crash as well as
  an exit, and keeps of the state what the database and the catalog hold. Writes that RocksDB has
  acknowledged are taken to survive, as its laws say; with \<open>rocksdb_sync_writes\<close> off that is true of a
  crash of the process and not of one of the machine.

  \<^bold>\<open>What is shown.\<close>
  \<^item> The whole engine: events are conserved in every interleaving and under every failure; every run
    refines a delivery specification with losses, every calm run (no append overtaken by a
    rotation, scans complete) the one without; an exit after a calm run with nothing left over has
    committed everything; the shutdown ends as long as there is a permit at all; at most the
    configured number of pipelines run; and there is a run in which an acknowledged record is lost.
  \<^item> Over restarts: a restart finds every family with its records, calm lives deliver every accepted
    event at least once, every life refines the delivery specification in which published events may be
    published again; what \<open>ingest\<close> acknowledges in a life is delivered in all that may follow; from every
    state of a life a restarted engine can still bring everything into the table, once nothing fails
    any more; and there is a life in which an event is delivered twice.
  \<^item> The store: an append adds exactly its records in order or nothing, a rotation freezes
    exactly the active family, opening recovers every family and a counter above every key.
  \<^item> The pipeline and the committer: the files of a complete scan hold the decodable records in
    order, written in batches of 10000; a round commits all or keeps all families, and so the committer
    loop settles every request; a failing task gives its family back; the flush loop runs until it is
    told to stop. Scans that fail and cycles that fail part-way are treated as the code
    treats them, with theorems on what is then forgotten.
  \<^item> The writer: a commit touches one table, once with a truthful catalog, is tried at most five times
    with delays of 200 to 1600 milliseconds, and survives fewer than five transient failures; with a
    catalog that loses its answer, a commit that is reported as failed may have been made.
  \<^item> Interfaces: the accepted frames and schema documents are characterised exactly, type names and
    both type translations agree, configuration errors and bounds, and the code generator.

  \<^bold>\<open>Termination and fuel.\<close> All definitions are total. The retry loop recurses on the list of
  attempts, the two loops on the list of what they are woken by. Only the code generator has fuel, for the nesting of element types in a schema
  document; \<open>generate_struct_terminates\<close> shows that the depth of the document is enough.

  \<^bold>\<open>Not modelled.\<close> Log lines and the log subscriber; the sockets, HTTP/2 and HTTP servers of tonic
  and axum; code generated at build time (the protocol types of tonic\_build and the included
  event structs of src/src/schema_codegen.rs, whose text is the result of \<open>generated_code\<close>); the
  clock and the arithmetic of doubles of the benchmark; the integration script and the packaging.
\<close>

end
